(* ===== verification/Prelude.thy ===== *)
theory Prelude
  imports Main "HOL-Library.Word" "HOL-Library.Signed_Division"
begin

unbundle bit_operations_syntax

section \<open>Prelude: C integers, C strings and shared lemmas\<close>

text \<open>
  What the four programs of the repository share: the widths of the C integer types (LP64,
  \<open>char\<close> signed, as gcc on x86-64 compiles the code), the reading of a NUL-terminated string at an
  index, and the generic lemmas on lists and words that the components use. Signed overflow and a
  left shift into the sign bit wrap around, as the compiled code does; unsigned arithmetic wraps by
  the C standard.
\<close>

type_synonym u8 = "8 word"    \<comment> \<open>\<open>unsigned char\<close>, \<open>uint8_t\<close>, a byte of a stream\<close>
type_synonym i32 = "32 word"  \<comment> \<open>\<open>int\<close>; \<open>sint\<close> reads its value\<close>
type_synonym u32 = "32 word"  \<comment> \<open>\<open>unsigned int\<close>, \<open>uint32_t\<close>; \<open>uint\<close> reads its value\<close>
type_synonym u64 = "64 word"  \<comment> \<open>\<open>unsigned long\<close>, \<open>size_t\<close>\<close>

named_theorems opt_simps \<open>readers of the option word after each writer\<close>
named_theorems io_simps \<open>effect of the byte stream operations\<close>

subsection \<open>Characters and NUL-terminated strings\<close>

text \<open>
  A \<open>char *\<close> that points to a terminated string is the list of its characters before the
  terminator; \<^term>\<open>CHR 0x00\<close> is the terminator, read at index \<open>length s\<close>.
\<close>

abbreviation NUL :: char where
  "NUL \<equiv> CHR 0x00"

definition c_char :: "char \<Rightarrow> int" where
  "c_char c = (let n = of_char c in if n < 128 then n else n - 256)"

definition cs_at :: "string \<Rightarrow> nat \<Rightarrow> char" where
  "cs_at s i = (if i < length s then s ! i else NUL)"

definition cstring :: "string \<Rightarrow> bool" where
  "cstring s \<longleftrightarrow> NUL \<notin> set s"

lemma cs_at_Cons [simp]: "cs_at (c # cs) 0 = c" "cs_at (c # cs) (Suc i) = cs_at cs i"
  by (simp_all add: cs_at_def)

lemma cs_at_Nil [simp]: "cs_at [] i = NUL"
  by (simp add: cs_at_def)

lemma cstring_simps [simp]:
  "cstring []"
  "cstring (c # cs) \<longleftrightarrow> c \<noteq> NUL \<and> cstring cs"
  by (auto simp: cstring_def)

lemma cs_at_0_NUL_iff: "cstring s \<Longrightarrow> cs_at s 0 = NUL \<longleftrightarrow> s = []"
  by (cases s) auto

subsection \<open>Words\<close>

lemma sint_of_nat_small: "k < 2 ^ 31 \<Longrightarrow> sint (of_nat k :: i32) = int k"
  by (simp add: signed_of_nat signed_take_bit_int_eq_self)

lemma ucast_of_nat_small: "k < 2 ^ 31 \<Longrightarrow> ucast (of_nat k :: u64) = (of_nat k :: i32)"
  by (simp add: unsigned_of_nat take_bit_nat_eq_self)

lemma word_eq_of_nat: "unat w = k \<Longrightarrow> (w :: 'a :: len word) = of_nat k"
  by (metis of_nat_unat ucast_id)

lemma ucast_plus_32: "(ucast (a + b :: u64) :: u32) = ucast a + ucast b"
proof transfer
  fix a b :: int
  have "take_bit 32 (take_bit 64 a + take_bit 64 b) = take_bit 32 (take_bit 32 (take_bit 64 a) + take_bit 32 (take_bit 64 b))"
    by (rule take_bit_add [symmetric])
  also have "\<dots> = take_bit 32 (a + b)" by (simp add: take_bit_add)
  finally show "take_bit LENGTH(32) (take_bit LENGTH(64) (a + b)) =
      take_bit LENGTH(32) (take_bit LENGTH(64) a + take_bit LENGTH(64) b)"
    by simp
qed

lemma ucast_word_of_int_32: "(ucast (word_of_int i :: u64) :: u32) = word_of_int i"
  by transfer simp

subsection \<open>Big-endian numerals\<close>

text \<open>
  The low \<open>n\<close> bytes of a word, most significant first, and the number such bytes denote: the wire
  format of the audio files and of the server's packets.
\<close>

primrec be_bytes :: "nat \<Rightarrow> i32 \<Rightarrow> u8 list" where
  "be_bytes 0 w = []"
| "be_bytes (Suc k) w = ucast (drop_bit (8 * k) w) # be_bytes k w"

definition be_acc :: "i32 \<Rightarrow> u8 \<Rightarrow> i32" where
  "be_acc a b = push_bit 8 a OR ucast b"

definition be_val :: "u8 list \<Rightarrow> i32" where
  "be_val bs = foldl be_acc 0 bs"

lemma length_be_bytes [simp]: "length (be_bytes n w) = n"
  by (induction n) auto

lemma foldl_be_bytes: "foldl be_acc a (be_bytes n w) = push_bit (8 * n) a OR take_bit (8 * n) w"
proof (induction n arbitrary: a)
  case (Suc n)
  show ?case
    unfolding be_bytes.simps foldl.simps Suc
    by (rule bit_word_eqI) (auto simp: be_acc_def bit_simps ac_simps)
qed (simp add: be_acc_def)

lemma be_val_be_bytes: "be_val (be_bytes n w) = take_bit (8 * n) w"
  by (simp add: be_val_def foldl_be_bytes)

lemma be_bytes_OR_low:
  "be_bytes n (push_bit (8 * n) a OR w) = be_bytes n w"
proof -
  have "be_bytes k (push_bit (8 * n) a OR w) = be_bytes k w" if "k \<le> n" for k
    using that
  proof (induction k)
    case (Suc k)
    have "(ucast (drop_bit (8 * k) (push_bit (8 * n) a OR w)) :: u8) = ucast (drop_bit (8 * k) w)"
      using Suc.prems by (intro bit_word_eqI) (auto simp: bit_simps)
    with Suc show ?case by simp
  qed simp
  then show ?thesis by simp
qed

lemma foldl_be_acc: "foldl be_acc a bs = push_bit (8 * length bs) a OR be_val bs"
proof (induction bs arbitrary: a)
  case (Cons b bs)
  have "foldl be_acc a (b # bs) = push_bit (8 * length bs) (be_acc a b) OR be_val bs"
    by (simp add: Cons)
  moreover have "be_val (b # bs) = push_bit (8 * length bs) (be_acc 0 b) OR be_val bs"
    by (simp only: be_val_def [of "b # bs"] foldl.simps Cons)
  ultimately show ?case
    by (simp add: be_acc_def [of a b] be_acc_def [of 0 b] or.assoc add.commute)
qed (simp add: be_val_def)

lemma be_val_Cons: "be_val (b # bs) = push_bit (8 * length bs) (ucast b) OR be_val bs"
  using foldl_be_acc [of "be_acc 0 b" bs] by (simp add: be_val_def be_acc_def)

lemma be_val_high: "8 * length bs \<le> n \<Longrightarrow> \<not> bit (be_val bs) n"
proof (induction bs)
  case (Cons b bs)
  then have "\<not> bit b (n - 8 * length bs)"
    using bit_imp_le_length [of b "n - 8 * length bs"] by auto
  with Cons show ?case by (simp add: be_val_Cons bit_simps)
qed (simp add: be_val_def)

lemma be_bytes_be_val:
  assumes "length bs \<le> 4"
  shows "be_bytes (length bs) (be_val bs) = bs"
  using assms
proof (induction bs)
  case (Cons b bs)
  have "(ucast (drop_bit (8 * length bs) (be_val (b # bs))) :: u8) = b"
  proof (rule bit_word_eqI)
    fix n assume "n < LENGTH(8)"
    then show "bit (ucast (drop_bit (8 * length bs) (be_val (b # bs))) :: u8) n = bit b n"
      using be_val_high [of bs "8 * length bs + n"] Cons.prems by (auto simp: be_val_Cons bit_simps)
  qed
  moreover have "be_bytes (length bs) (be_val (b # bs)) = bs"
    unfolding be_val_Cons be_bytes_OR_low using Cons by simp
  ultimately show ?case by simp
qed simp

subsection \<open>Lists\<close>

text \<open>A list whose length is a multiple splits into equal pieces.\<close>

lemma chunksE:
  assumes "length xs = k * m"
  obtains xss where "concat xss = xs" "length xss = k" "list_all (\<lambda>ys. length ys = m) xss"
  using assms
proof (induction k arbitrary: xs thesis)
  case (Suc k)
  have "length (drop m xs) = k * m" using Suc.prems by simp
  then obtain xss where x: "concat xss = drop m xs" "length xss = k" "list_all (\<lambda>ys. length ys = m) xss"
    using Suc.IH by blast
  show ?case
    using x Suc.prems by (intro Suc.prems(1) [of "take m xs # xss"]) auto
qed simp

end
