(* ===== verification/Audio_Args.thy ===== *)
theory Audio_Args
  imports Prelude
begin

unbundle bit_operations_syntax

section \<open>Audible: command line and option word\<close>

text \<open>
  \<open>Audible/src/argValidation.c\<close>, \<open>validargs\<close> of \<open>hw1.c\<close> and the option readers of
  \<open>transformations.c\<close>. \<open>argv\<close> is the list of the \<open>argc\<close> argument strings; the C array has one
  more entry, NULL. The global \<open>global_options\<close> is passed and returned explicitly: bit 63 help,
  62 speed up, 61 slow down, 60 crypt, 59 preserve, bits 48 to 57 factor minus one or the marker
  0x200 for no factor, bits 0 to 31 key.
\<close>

subsection \<open>String helpers\<close>

definition compareFlags :: "string \<Rightarrow> string \<Rightarrow> bool" where
  "compareFlags flag1 flag2 =
     (if cs_at flag1 0 = cs_at flag2 0 then
        if cs_at flag1 1 = cs_at flag2 1 then
          if cs_at flag1 2 = cs_at flag2 2 then True else False
        else False
      else False)"

fun sizeOfString :: "string \<Rightarrow> nat" where
  "sizeOfString [] = 0"
| "sizeOfString (c # cs) = (if c = NUL then 0 else Suc (sizeOfString cs))"

subsection \<open>Searching the arguments\<close>

fun containsPreserve_loop :: "string list \<Rightarrow> nat \<Rightarrow> nat" where
  "containsPreserve_loop argv 0 = 0"
| "containsPreserve_loop argv (Suc i) =
     (if compareFlags (argv ! Suc i) ''-p'' then 1 else containsPreserve_loop argv i)"

definition containsPreserve :: "nat \<Rightarrow> string list \<Rightarrow> nat" where
  "containsPreserve argc argv = containsPreserve_loop argv (argc - 1)"

fun validKeyHelper_loop :: "string \<Rightarrow> bool" where
  "validKeyHelper_loop [] = True"
| "validKeyHelper_loop (d # ds) =
     (if \<not> ((c_char CHR ''a'' \<le> c_char d \<and> c_char d \<le> c_char CHR ''f'') \<or>
           (c_char CHR ''A'' \<le> c_char d \<and> c_char d \<le> c_char CHR ''F'') \<or>
           (c_char CHR ''0'' \<le> c_char d \<and> c_char d \<le> c_char CHR ''9''))
      then False else validKeyHelper_loop ds)"

definition validKeyHelper :: "string \<Rightarrow> bool" where
  "validKeyHelper key =
     (let digits = sizeOfString key
      in if digits > 8 then False else validKeyHelper_loop (take digits key))"

fun containsValidKey_loop :: "nat \<Rightarrow> string list \<Rightarrow> nat \<Rightarrow> nat" where
  "containsValidKey_loop argc argv 0 = 0"
| "containsValidKey_loop argc argv (Suc i) =
     (if compareFlags (argv ! Suc i) ''-k'' then
        if Suc i < argc - 1 then
          if validKeyHelper (argv ! (Suc i + 1)) then Suc i + 1 else 0
        else 0
      else containsValidKey_loop argc argv i)"

definition containsValidKey :: "nat \<Rightarrow> string list \<Rightarrow> nat" where
  "containsValidKey argc argv = containsValidKey_loop argc argv (argc - 1)"

fun charToInt_loop :: "i32 \<Rightarrow> string \<Rightarrow> i32" where
  "charToInt_loop val [] = val"
| "charToInt_loop val (c # cs) =
     (if c = NUL then val
      else let val = val + word_of_int (c_char c - c_char CHR ''0'');
               val = (if cs_at cs 0 \<noteq> NUL then val * 10 else val)
           in charToInt_loop val cs)"

definition charToInt :: "string \<Rightarrow> i32" where
  "charToInt c = charToInt_loop 0 c"

text \<open>The second test of the C loop reads \<open>*(start + 1)\<close>, not \<open>*(start + i)\<close>.\<close>

fun numbersOnly_loop :: "string \<Rightarrow> string \<Rightarrow> bool" where
  "numbersOnly_loop start [] = True"
| "numbersOnly_loop start (c # cs) =
     (if c = NUL then True
      else if c_char c > c_char CHR ''9'' \<or> c_char (cs_at start 1) < 0 then False
      else numbersOnly_loop start cs)"

definition numbersOnly :: "string \<Rightarrow> bool" where
  "numbersOnly start = numbersOnly_loop start start"

definition validFactorHelper :: "string \<Rightarrow> bool" where
  "validFactorHelper factor =
     (if \<not> numbersOnly factor then False
      else let f = sint (charToInt factor) in f > 0 \<and> f \<le> 1024)"

fun containsValidFactor_loop :: "nat \<Rightarrow> string list \<Rightarrow> nat \<Rightarrow> nat" where
  "containsValidFactor_loop argc argv 0 = 0"
| "containsValidFactor_loop argc argv (Suc i) =
     (if compareFlags (argv ! Suc i) ''-f'' then
        if Suc i < argc - 1 then
          if validFactorHelper (argv ! (Suc i + 1)) then Suc i + 1 else 0
        else 0
      else containsValidFactor_loop argc argv i)"

definition containsValidFactor :: "nat \<Rightarrow> string list \<Rightarrow> nat" where
  "containsValidFactor argc argv = containsValidFactor_loop argc argv (argc - 1)"

definition validSpeedUsage :: "nat \<Rightarrow> string list \<Rightarrow> nat" where
  "validSpeedUsage argc argv =
     (if argc > 5 \<or> argc < 2 then 0
      else let valid = 1;
               valid = (if argc = 3 \<or> argc = 5 then containsPreserve argc argv else valid)
           in if argc = 4 \<or> argc = 5
              then if valid \<noteq> 0 then containsValidFactor argc argv else valid
              else valid)"

definition validCryptUsage :: "nat \<Rightarrow> string list \<Rightarrow> nat" where
  "validCryptUsage argc argv =
     (if argc > 5 \<or> argc \<le> 3 then 0
      else let valid = 1;
               valid = (if argc = 5 then containsPreserve argc argv else valid)
           in if argc = 4 \<or> argc = 5
              then if valid \<noteq> 0 then containsValidKey argc argv else valid
              else valid)"

subsection \<open>Writing the option word\<close>

definition preserveRecord :: "u64 \<Rightarrow> u64" where
  "preserveRecord global_options = global_options OR push_bit 59 1"

definition factorRecord :: "string \<Rightarrow> u64 \<Rightarrow> u64" where
  "factorRecord start global_options =
     (let factor = (scast (charToInt start - 1) :: u64)
      in global_options OR push_bit 48 factor)"

definition factorRecord0 :: "u64 \<Rightarrow> u64" where
  "factorRecord0 global_options = (let factor = (0x200 :: u64) in global_options OR push_bit 48 factor)"

definition hexToInt :: "char \<Rightarrow> int" where
  "hexToInt hex =
     (if c_char CHR ''0'' \<le> c_char hex \<and> c_char hex \<le> c_char CHR ''9''
        then c_char hex - c_char CHR ''0''
      else if c_char CHR ''a'' \<le> c_char hex \<and> c_char hex \<le> c_char CHR ''f''
        then c_char hex - c_char CHR ''a'' + 10
      else if c_char CHR ''A'' \<le> c_char hex \<and> c_char hex \<le> c_char CHR ''F''
        then c_char hex - c_char CHR ''A'' + 10
      else - 1)"

fun hexStringToInt_loop :: "u64 \<Rightarrow> string \<Rightarrow> u64" where
  "hexStringToInt_loop hex [] = hex"
| "hexStringToInt_loop hex (c # cs) =
     (if c = NUL then hex
      else let hex = hex OR word_of_int (hexToInt c);
               hex = (if cs_at cs 0 \<noteq> NUL then push_bit 4 hex else hex)
           in hexStringToInt_loop hex cs)"

definition hexStringToInt :: "string \<Rightarrow> u64" where
  "hexStringToInt s = hexStringToInt_loop 0 s"

definition keyRecord :: "string \<Rightarrow> u64 \<Rightarrow> u64" where
  "keyRecord start global_options = (let key = hexStringToInt start in global_options OR key)"

subsection \<open>validargs\<close>

text \<open>The result is the return value and the final \<open>global_options\<close>.\<close>

definition validargs :: "nat \<Rightarrow> string list \<Rightarrow> bool \<times> u64" where
  "validargs argc argv =
     (if argc \<le> 1 then (False, 0)
      else let flag1 = argv ! 1 in
        if compareFlags flag1 ''-h'' then (True, push_bit 63 1)
        else if compareFlags flag1 ''-u'' then
          (let valid = validSpeedUsage argc argv in
           if valid \<noteq> 0 then
             (let g = push_bit 62 1;
                  g = (if containsPreserve argc argv \<noteq> 0 then preserveRecord g else g);
                  g = (if valid > 1 then factorRecord (argv ! valid) g else g);
                  g = (if valid = 1 then factorRecord0 g else g)
              in (True, g))
           else (False, 0))
        else if compareFlags flag1 ''-d'' then
          (let valid = validSpeedUsage argc argv in
           if valid \<noteq> 0 then
             (let g = push_bit 61 1;
                  g = (if containsPreserve argc argv \<noteq> 0 then preserveRecord g else g);
                  g = (if valid > 1 then factorRecord (argv ! valid) g else g);
                  g = (if valid = 1 then factorRecord0 g else g)
              in (True, g))
           else (False, 0))
        else if compareFlags flag1 ''-c'' then
          (let valid = validCryptUsage argc argv in
           if valid \<noteq> 0 then
             (let g = push_bit 60 1;
                  g = (if containsPreserve argc argv \<noteq> 0 then preserveRecord g else g);
                  g = (if valid > 1 then keyRecord (argv ! valid) g else g)
              in (True, g))
           else (False, 0))
        else (False, 0))"

subsection \<open>Reading the option word\<close>

definition isSpeedUp :: "u64 \<Rightarrow> bool" where
  "isSpeedUp global_options \<longleftrightarrow> drop_bit 62 global_options AND 1 \<noteq> 0"

definition isSlowDown :: "u64 \<Rightarrow> bool" where
  "isSlowDown global_options \<longleftrightarrow> drop_bit 61 global_options AND 1 \<noteq> 0"

definition isCrypt :: "u64 \<Rightarrow> bool" where
  "isCrypt global_options \<longleftrightarrow> drop_bit 60 global_options AND 1 \<noteq> 0"

definition isPreserve :: "u64 \<Rightarrow> bool" where
  "isPreserve global_options \<longleftrightarrow> drop_bit 59 global_options AND 1 \<noteq> 0"

definition getFactor :: "u64 \<Rightarrow> i32" where
  "getFactor global_options =
     (if drop_bit 57 global_options AND 1 = 1 then - 1
      else ucast ((drop_bit 48 global_options AND 0x7ff) + 1))"

definition getKey :: "u64 \<Rightarrow> i32" where
  "getKey global_options = ucast (global_options AND 0xffffffff)"

subsection \<open>Flags and strings\<close>

lemma compareFlags_iff:
  assumes "cstring f" "a \<noteq> NUL" "b \<noteq> NUL"
  shows "compareFlags f [a, b] \<longleftrightarrow> f = [a, b]"
proof (cases f)
  case (Cons c cs)
  then show ?thesis
    using assms by (cases cs; cases "tl cs") (auto simp: compareFlags_def numeral_2_eq_2)
qed (use assms in \<open>auto simp: compareFlags_def\<close>)

lemma sizeOfString_cstring [simp]: "cstring s \<Longrightarrow> sizeOfString s = length s"
  by (induction s) auto

lemma sizeOfString_le: "sizeOfString s \<le> length s"
  by (induction s) auto

lemma numbersOnly_loop_member:
  "numbersOnly_loop s0 s \<Longrightarrow> cstring s \<Longrightarrow> c \<in> set s \<Longrightarrow> c_char c \<le> c_char CHR ''9''"
  by (induction s) (auto split: if_splits)

lemma validFactor_not_flag:
  "\<not> validFactorHelper ''-p''" "\<not> validFactorHelper ''-f''"
  by (simp_all add: validFactorHelper_def numbersOnly_def c_char_def)

lemma validKey_not_flag:
  "\<not> validKeyHelper ''-p''" "\<not> validKeyHelper ''-k''"
  by (simp_all add: validKeyHelper_def c_char_def)

subsection \<open>The accepted command lines\<close>

text \<open>The grammar of the usage text: the options that may follow the mode flag.\<close>

fun speed_opts_ok :: "string list \<Rightarrow> bool" where
  "speed_opts_ok [] = True"
| "speed_opts_ok [a] = (a = ''-p'')"
| "speed_opts_ok [a, b] = (a = ''-f'' \<and> validFactorHelper b)"
| "speed_opts_ok [a, b, c] =
     ((a = ''-f'' \<and> validFactorHelper b \<and> c = ''-p'') \<or>
      (a = ''-p'' \<and> b = ''-f'' \<and> validFactorHelper c))"
| "speed_opts_ok _ = False"

fun crypt_opts_ok :: "string list \<Rightarrow> bool" where
  "crypt_opts_ok [a, b] = (a = ''-k'' \<and> validKeyHelper b)"
| "crypt_opts_ok [a, b, c] =
     ((a = ''-k'' \<and> validKeyHelper b \<and> c = ''-p'') \<or>
      (a = ''-p'' \<and> b = ''-k'' \<and> validKeyHelper c))"
| "crypt_opts_ok _ = False"

fun usage_ok :: "string list \<Rightarrow> bool" where
  "usage_ok (prog # m # opts) =
     (m = ''-h'' \<or> (m = ''-u'' \<or> m = ''-d'') \<and> speed_opts_ok opts \<or>
      m = ''-c'' \<and> crypt_opts_ok opts)"
| "usage_ok _ = False"

lemma speed_opts_length: "speed_opts_ok opts \<Longrightarrow> length opts \<le> 3"
  by (cases opts rule: speed_opts_ok.cases) auto

lemma crypt_opts_length: "crypt_opts_ok opts \<Longrightarrow> length opts = 2 \<or> length opts = 3"
  by (cases opts rule: crypt_opts_ok.cases) auto

lemmas flag_iffs = compareFlags_iff [of _ "CHR ''-''"]

lemmas search_defs =
  containsPreserve_def containsValidFactor_def containsValidKey_def
  validSpeedUsage_def validCryptUsage_def

lemma list_len_cases:
  obtains "xs = []" | a where "xs = [a]" | a b where "xs = [a, b]" | a b c where "xs = [a, b, c]"
    | "3 < length xs"
proof -
  consider "xs = []" | a ys where "xs = a # ys" by (cases xs) auto
  then show thesis
  proof cases
    case (2 a ys)
    then show thesis using that by (cases ys; cases "tl ys"; cases "tl (tl ys)") auto
  qed (use that in auto)
qed

text \<open>
  The searches run from the last argument down; on command lines of the lengths the usage check
  admits they give the index of the factor or key, as the grammar says.
\<close>

lemma validSpeedUsage_eq:
  assumes "cstring m" "list_all cstring opts" "m = ''-u'' \<or> m = ''-d''"
  shows "validSpeedUsage (length (prog # m # opts)) (prog # m # opts) =
    (if \<not> speed_opts_ok opts then 0
     else if length opts = 2 then 3
     else if length opts = 3 then (if hd opts = ''-f'' then 3 else 4)
     else 1)"
  using assms validFactor_not_flag
  by (cases opts rule: list_len_cases)
     (auto simp: search_defs flag_iffs eval_nat_numeral Let_def dest: speed_opts_length)

lemma validCryptUsage_eq:
  assumes "cstring m" "list_all cstring opts" "m = ''-c''"
  shows "validCryptUsage (length (prog # m # opts)) (prog # m # opts) =
    (if \<not> crypt_opts_ok opts then 0
     else if length opts = 2 then 3
     else (if hd opts = ''-k'' then 3 else 4))"
  using assms validKey_not_flag
  by (cases opts rule: list_len_cases)
     (auto simp: search_defs flag_iffs eval_nat_numeral Let_def dest: crypt_opts_length)

lemma containsPreserve_iff:
  assumes "list_all cstring opts" "length opts \<le> 3" "m \<noteq> ''-p''" "cstring m"
  shows "containsPreserve (length (prog # m # opts)) (prog # m # opts) \<noteq> 0 \<longleftrightarrow> ''-p'' \<in> set opts"
  using assms
  by (cases opts rule: list_len_cases)
     (auto simp: search_defs flag_iffs eval_nat_numeral)

subsection \<open>Numerals of the command line\<close>

text \<open>The value the digit loops compute, over the integers and with no bound on the length.\<close>

primrec dec_val :: "string \<Rightarrow> int" where
  "dec_val [] = 0"
| "dec_val (c # cs) = (c_char c - c_char CHR ''0'') * 10 ^ length cs + dec_val cs"

primrec hex_val :: "string \<Rightarrow> int" where
  "hex_val [] = 0"
| "hex_val (c # cs) = hexToInt c * 16 ^ length cs + hex_val cs"

definition decimal :: "string \<Rightarrow> bool" where
  "decimal s \<longleftrightarrow> s \<noteq> [] \<and> list_all (\<lambda>c. c_char CHR ''0'' \<le> c_char c \<and> c_char c \<le> c_char CHR ''9'') s"

lemma decimal_Cons:
  "decimal (c # cs) \<longleftrightarrow> 0 \<le> c_char c - c_char CHR ''0'' \<and> c_char c - c_char CHR ''0'' \<le> 9 \<and>
     (cs = [] \<or> decimal cs)"
  by (auto simp: decimal_def c_char_def)

lemma decimal_cstring: "decimal s \<Longrightarrow> cstring s"
proof (induction s)
  case (Cons c cs)
  then have "c \<noteq> NUL" by (auto simp: decimal_Cons c_char_def)
  with Cons show ?case by (auto simp: decimal_Cons)
qed simp

lemma dec_val_bounds: "decimal s \<Longrightarrow> 0 \<le> dec_val s \<and> dec_val s < 10 ^ length s"
proof (induction s)
  case (Cons c cs)
  let ?d = "c_char c - c_char CHR ''0''"
  have d: "0 \<le> ?d" "?d \<le> 9" using Cons.prems by (simp_all add: decimal_Cons)
  have r: "0 \<le> dec_val cs" "dec_val cs < 10 ^ length cs"
    using Cons by (cases "cs = []"; simp add: decimal_Cons)+
  have "?d * 10 ^ length cs \<le> 9 * 10 ^ length cs" using d by (intro mult_right_mono) auto
  then have "?d * 10 ^ length cs + dec_val cs < 10 * 10 ^ length cs" using r by linarith
  moreover have "0 \<le> ?d * 10 ^ length cs" using d by simp
  ultimately show ?case using r by simp
qed simp

lemma decimal_numbersOnly: "decimal s \<Longrightarrow> numbersOnly s"
proof -
  assume s: "decimal s"
  have "0 \<le> c_char (cs_at s 1)"
    using s by (auto simp: decimal_def cs_at_def list_all_length c_char_def split: if_splits)
  then have "cstring xs \<Longrightarrow> (xs = [] \<or> decimal xs) \<Longrightarrow> numbersOnly_loop s xs" for xs
    by (induction xs) (auto simp: decimal_Cons c_char_def)
  then show ?thesis using s decimal_cstring by (simp add: numbersOnly_def)
qed

lemma charToInt_loop_eq:
  "cstring s \<Longrightarrow> s \<noteq> [] \<Longrightarrow>
   charToInt_loop v s = v * 10 ^ (length s - 1) + word_of_int (dec_val s)"
proof (induction s arbitrary: v)
  case (Cons c cs)
  let ?d = "c_char c - c_char CHR ''0''"
  show ?case
  proof (cases "cs = []")
    case True
    then show ?thesis using Cons.prems by simp
  next
    case False
    then have "cs_at cs 0 \<noteq> NUL"
      using Cons.prems by (simp add: cs_at_0_NUL_iff)
    then have "charToInt_loop v (c # cs) = charToInt_loop ((v + word_of_int ?d) * 10) cs"
      using Cons.prems by (simp add: Let_def)
    also have "\<dots> = (v + word_of_int ?d) * 10 * 10 ^ (length cs - 1) + word_of_int (dec_val cs)"
      using Cons.prems False by (intro Cons.IH) auto
    finally show ?thesis
      using False by (cases cs) (simp_all add: algebra_simps)
  qed
qed simp

lemma charToInt_eq: "cstring s \<Longrightarrow> charToInt s = word_of_int (dec_val s)"
  by (cases "s = []") (simp_all add: charToInt_def charToInt_loop_eq)

lemma hexToInt_bounds: "validKeyHelper_loop (c # cs) \<Longrightarrow> 0 \<le> hexToInt c \<and> hexToInt c < 16"
  by (auto simp: hexToInt_def c_char_def Let_def split: if_splits)

lemma push4_or_digit:
  assumes "0 \<le> d" "d < 16"
  shows "push_bit 4 h OR (word_of_int d :: u64) = push_bit 4 h + word_of_int d"
proof -
  have "take_bit 4 d = d"
    using assms by (simp add: take_bit_int_eq_self)
  then have "\<not> bit (word_of_int d :: u64) n" if "4 \<le> n" for n
    using that by (metis bit_take_bit_iff bit_word_of_int_iff linorder_not_less)
  then have "push_bit 4 h AND (word_of_int d :: u64) = 0"
    by (auto simp: bit_eq_iff bit_simps)
  then show ?thesis
    by (simp add: disjunctive_add_eq_or)
qed

lemma hexStringToInt_loop_eq:
  "cstring s \<Longrightarrow> s \<noteq> [] \<Longrightarrow> validKeyHelper_loop s \<Longrightarrow>
   hexStringToInt_loop (push_bit 4 h) s = push_bit 4 h * 16 ^ (length s - 1) + word_of_int (hex_val s)"
proof (induction s arbitrary: h)
  case (Cons c cs)
  note d = hexToInt_bounds [OF Cons.prems(3)]
  have rest: "validKeyHelper_loop cs"
    using Cons.prems(3) by (simp split: if_splits)
  show ?case
  proof (cases cs)
    case Nil
    then show ?thesis using d Cons.prems by (simp add: push4_or_digit)
  next
    case (Cons c' cs')
    then have "hexStringToInt_loop (push_bit 4 h) (c # cs) =
        hexStringToInt_loop (push_bit 4 (push_bit 4 h + word_of_int (hexToInt c))) cs"
      using d Cons.prems by (simp add: push4_or_digit)
    also have "\<dots> = push_bit 4 (push_bit 4 h + word_of_int (hexToInt c)) * 16 ^ (length cs - 1)
        + word_of_int (hex_val cs)"
      using Cons Cons.prems rest by (intro Cons.IH) auto
    finally show ?thesis
      using Cons by (simp add: push_bit_eq_mult algebra_simps)
  qed
qed simp

lemma hexStringToInt_eq:
  "cstring s \<Longrightarrow> validKeyHelper s \<Longrightarrow> hexStringToInt s = word_of_int (hex_val s)"
  using hexStringToInt_loop_eq [of s 0]
  by (cases "s = []") (auto simp: hexStringToInt_def validKeyHelper_def Let_def split: if_splits)

subsection \<open>The option word\<close>

lemma and_one_bit: "(drop_bit n (w :: u64) AND 1 \<noteq> 0) \<longleftrightarrow> bit w n"
  by (simp add: and_one_eq bit_iff_odd_drop_bit odd_iff_mod_2_eq_one)

lemma and_one_bit': "(drop_bit n (w :: u64) AND 1 = 1) \<longleftrightarrow> bit w n"
  by (simp add: and_one_eq bit_iff_odd_drop_bit odd_iff_mod_2_eq_one)

lemma bit_push_one: "bit (push_bit k (1 :: u64)) n \<longleftrightarrow> n = k \<and> k < 64"
  by (auto simp: bit_simps)

lemmas reader_defs = isSpeedUp_def isSlowDown_def isCrypt_def isPreserve_def and_one_bit

lemma factor_bits_nat:
  assumes "validFactorHelper s"
  obtains m where "m < 1024" "charToInt s = of_nat (m + 1)" "scast (charToInt s - 1) = (of_nat m :: u64)"
proof -
  define m where "m = nat (sint (charToInt s) - 1)"
  have b: "0 < sint (charToInt s)" "sint (charToInt s) \<le> 1024"
    using assms by (auto simp: validFactorHelper_def Let_def split: if_splits)
  have "charToInt s = word_of_int (sint (charToInt s))"
    by simp
  also have "sint (charToInt s) = int (m + 1)"
    using b by (simp add: m_def)
  finally have eq: "charToInt s = of_nat (m + 1)"
    by (metis of_int_of_nat_eq)
  have m: "m < 1024"
    using b by (simp add: m_def)
  have "sint (of_nat m :: i32) = int m"
    using m by (simp add: signed_of_nat signed_take_bit_int_eq_self)
  then have "scast (charToInt s - 1) = (of_nat m :: u64)"
    by (simp add: eq scast_eq)
  with m eq that show thesis by blast
qed

lemma bit_of_nat_small:
  assumes "m < 2 ^ k"
  shows "bit (of_nat m :: u64) n \<longleftrightarrow> n < 64 \<and> n < k \<and> bit m n"
proof -
  have "take_bit k m = m" using assms by (simp add: take_bit_nat_eq_self)
  then have "bit m n \<Longrightarrow> n < k" by (metis bit_take_bit_iff)
  then show ?thesis by (auto simp: bit_simps)
qed

lemma factorRecord_bit:
  assumes "validFactorHelper s" "n < 48 \<or> 58 \<le> n"
  shows "bit (factorRecord s g) n \<longleftrightarrow> bit g n"
proof -
  obtain m where m: "m < 1024" "scast (charToInt s - 1) = (of_nat m :: u64)"
    using factor_bits_nat [OF assms(1)] by metis
  have "\<not> bit (push_bit 48 (of_nat m) :: u64) n"
    using bit_of_nat_small [of m 10 "n - 48"] m(1) assms(2) by (auto simp: bit_simps)
  then show ?thesis unfolding factorRecord_def m(2) Let_def bit_or_iff by simp
qed

lemma hex_val_bounds: "validKeyHelper_loop s \<Longrightarrow> 0 \<le> hex_val s \<and> hex_val s < 16 ^ length s"
proof (induction s)
  case (Cons c cs)
  have b: "0 \<le> hexToInt c" "hexToInt c \<le> 15"
    using hexToInt_bounds [OF Cons.prems] by auto
  have "0 \<le> hex_val cs" "hex_val cs < 16 ^ length cs"
    using Cons by (auto split: if_splits)
  moreover have "hexToInt c * 16 ^ length cs \<le> 15 * 16 ^ length cs"
    using b by (intro mult_right_mono) auto
  ultimately have "hexToInt c * 16 ^ length cs + hex_val cs < 15 * 16 ^ length cs + 16 ^ length cs"
    by linarith
  with b \<open>0 \<le> hex_val cs\<close> show ?case by simp
qed simp

lemma validKey_hex_val:
  assumes "cstring s" "validKeyHelper s"
  shows "0 \<le> hex_val s" "hex_val s < 2 ^ 32"
proof -
  have l: "length s \<le> 8" and v: "validKeyHelper_loop s"
    using assms by (auto simp: validKeyHelper_def Let_def split: if_splits)
  show "0 \<le> hex_val s" using hex_val_bounds [OF v] by simp
  have "hex_val s < 16 ^ length s" using hex_val_bounds [OF v] by simp
  also have "\<dots> \<le> (16 :: int) ^ 8" using l by (intro power_increasing) auto
  finally show "hex_val s < 2 ^ 32" by simp
qed

lemma keyRecord_bit:
  assumes "cstring s" "validKeyHelper s" "32 \<le> n"
  shows "bit (keyRecord s g) n \<longleftrightarrow> bit g n"
proof -
  have "take_bit 32 (hex_val s) = hex_val s"
    using validKey_hex_val [OF assms(1,2)] by (simp add: take_bit_int_eq_self)
  then have "\<not> bit (hex_val s) n"
    using assms(3) by (metis bit_take_bit_iff linorder_not_less)
  then show ?thesis
    using assms by (simp add: keyRecord_def hexStringToInt_eq bit_simps)
qed

lemma factorRecord0_bit: "bit (factorRecord0 g) n \<longleftrightarrow> n = 57 \<or> bit g n"
proof -
  have "push_bit 48 (0x200 :: u64) = push_bit 57 1" by simp
  then have eq: "factorRecord0 g = g OR push_bit 57 1"
    by (simp only: factorRecord0_def Let_def)
  show ?thesis unfolding eq bit_or_iff bit_push_one by auto
qed

lemma preserveRecord_bit: "bit (preserveRecord g) n \<longleftrightarrow> n = 59 \<or> bit g n"
  unfolding preserveRecord_def bit_or_iff bit_push_one by auto

text \<open>
  What \<open>validargs\<close> leaves in the option word of an accepted command line, as one equation per
  mode; the readers then see only bits.
\<close>

definition speed_word :: "nat \<Rightarrow> string list \<Rightarrow> u64" where
  "speed_word k opts =
     (let g = push_bit k 1; g = (if ''-p'' \<in> set opts then preserveRecord g else g)
      in if length opts < 2 then factorRecord0 g
         else factorRecord (if hd opts = ''-f'' then opts ! 1 else opts ! 2) g)"

definition crypt_word :: "string list \<Rightarrow> u64" where
  "crypt_word opts =
     (let g = push_bit 60 1; g = (if ''-p'' \<in> set opts then preserveRecord g else g)
      in keyRecord (if hd opts = ''-k'' then opts ! 1 else opts ! 2) g)"

lemma factor_index:
  assumes "speed_opts_ok opts" "2 \<le> length opts"
  shows "(prog # m # opts) ! (if length opts = 2 then 3 else if hd opts = ''-f'' then 3 else 4) =
    (if hd opts = ''-f'' then opts ! 1 else opts ! 2)"
  using assms by (cases opts rule: speed_opts_ok.cases) (auto simp: eval_nat_numeral)

lemma key_index:
  assumes "crypt_opts_ok opts"
  shows "(prog # m # opts) ! (if length opts = 2 then 3 else if hd opts = ''-k'' then 3 else 4) =
    (if hd opts = ''-k'' then opts ! 1 else opts ! 2)"
  using assms by (cases opts rule: crypt_opts_ok.cases) (auto simp: eval_nat_numeral)

lemma validargs_speed:
  assumes "list_all cstring opts" "m = ''-u'' \<and> k = 62 \<or> m = ''-d'' \<and> k = 61"
  shows "validargs (length (prog # m # opts)) (prog # m # opts) =
    (if speed_opts_ok opts then (True, speed_word k opts) else (False, 0))"
proof -
  define argv where "argv = prog # m # opts"
  define argc where "argc = length argv"
  define idx where "idx = (if length opts = 2 then 3 else if hd opts = ''-f'' then 3 else 4 :: nat)"
  have m: "cstring m" "m \<noteq> ''-p''" "m = ''-u'' \<or> m = ''-d''" using assms(2) by auto
  have argv: "1 < argc" "argv ! 1 = m" by (simp_all add: argc_def argv_def)
  have valid: "validSpeedUsage argc argv =
      (if \<not> speed_opts_ok opts then 0 else if 2 \<le> length opts then idx else 1)"
    using validSpeedUsage_eq [OF m(1) assms(1) m(3), of prog] speed_opts_length [of opts]
    by (auto simp: argc_def argv_def idx_def)
  have pres: "containsPreserve argc argv \<noteq> 0 \<longleftrightarrow> ''-p'' \<in> set opts" if "speed_opts_ok opts"
    unfolding argc_def argv_def
    by (rule containsPreserve_iff [OF assms(1) speed_opts_length [OF that] m(2,1)])
  have arg: "argv ! idx = (if hd opts = ''-f'' then opts ! 1 else opts ! 2)"
    if "speed_opts_ok opts" "2 \<le> length opts"
    using factor_index [OF that] by (simp add: argv_def idx_def)
  have "1 < idx" by (simp add: idx_def)
  then have "validargs argc argv =
      (if speed_opts_ok opts then (True, speed_word k opts) else (False, 0))"
    using assms(2) argv valid pres arg
    by (elim disjE conjE; cases "speed_opts_ok opts"; cases "2 \<le> length opts")
       (simp_all add: validargs_def speed_word_def compareFlags_def Let_def not_le)
  then show ?thesis by (simp only: argc_def argv_def)
qed

lemma validargs_crypt:
  assumes "list_all cstring opts"
  shows "validargs (length (prog # ''-c'' # opts)) (prog # ''-c'' # opts) =
    (if crypt_opts_ok opts then (True, crypt_word opts) else (False, 0))"
proof -
  define argv where "argv = prog # ''-c'' # opts"
  define argc where "argc = length argv"
  define idx where "idx = (if length opts = 2 then 3 else if hd opts = ''-k'' then 3 else 4 :: nat)"
  have argv: "1 < argc" "argv ! 1 = ''-c''" by (simp_all add: argc_def argv_def)
  have valid: "validCryptUsage argc argv = (if \<not> crypt_opts_ok opts then 0 else idx)"
    using validCryptUsage_eq [OF _ assms, of "''-c''" prog]
    by (auto simp: argc_def argv_def idx_def)
  have pres: "containsPreserve argc argv \<noteq> 0 \<longleftrightarrow> ''-p'' \<in> set opts" if "crypt_opts_ok opts"
    unfolding argc_def argv_def
    using crypt_opts_length [OF that] by (intro containsPreserve_iff [OF assms]) auto
  have arg: "argv ! idx = (if hd opts = ''-k'' then opts ! 1 else opts ! 2)" if "crypt_opts_ok opts"
    using key_index [OF that] by (simp add: argv_def idx_def)
  have "1 < idx" by (simp add: idx_def)
  then have "validargs argc argv =
      (if crypt_opts_ok opts then (True, crypt_word opts) else (False, 0))"
    using argv valid pres arg
    by (cases "crypt_opts_ok opts")
       (simp_all add: validargs_def crypt_word_def compareFlags_def Let_def)
  then show ?thesis by (simp only: argc_def argv_def)
qed

lemma speed_word_bit:
  assumes "speed_opts_ok opts" "58 \<le> n"
  shows "bit (speed_word k opts) n \<longleftrightarrow> n = k \<and> k < 64 \<or> n = 59 \<and> ''-p'' \<in> set opts"
proof -
  have "validFactorHelper (if hd opts = ''-f'' then opts ! 1 else opts ! 2)" if "2 \<le> length opts"
    using assms(1) that by (cases opts rule: speed_opts_ok.cases) (auto simp: eval_nat_numeral)
  then show ?thesis
    using assms(2) unfolding speed_word_def Let_def
    by (auto simp: factorRecord_bit factorRecord0_bit preserveRecord_bit bit_push_one not_less
        simp del: push_bit_of_1 split: if_splits)
qed

lemma crypt_word_bit:
  assumes "crypt_opts_ok opts" "list_all cstring opts" "32 \<le> n"
  shows "bit (crypt_word opts) n \<longleftrightarrow> n = 60 \<or> n = 59 \<and> ''-p'' \<in> set opts"
proof -
  let ?k = "if hd opts = ''-k'' then opts ! 1 else opts ! 2"
  have k: "validKeyHelper ?k" "cstring ?k"
    using assms(1,2) by (cases opts rule: crypt_opts_ok.cases; auto simp: eval_nat_numeral)+
  show ?thesis
    unfolding crypt_word_def Let_def keyRecord_bit [OF k(2,1) assms(3)]
    by (auto simp: preserveRecord_bit bit_push_one simp del: push_bit_of_1)
qed

lemma getFactor_factorRecord:
  assumes "validFactorHelper s" "\<And>n. 48 \<le> n \<Longrightarrow> n < 59 \<Longrightarrow> \<not> bit g n"
  shows "getFactor (factorRecord s g) = (if sint (charToInt s) \<le> 512 then charToInt s else - 1)"
proof -
  obtain m where m: "m < 1024" "charToInt s = of_nat (m + 1)"
      "scast (charToInt s - 1) = (of_nat m :: u64)"
    using factor_bits_nat [OF assms(1)] by metis
  let ?w = "factorRecord s g"
  have w: "bit ?w n \<longleftrightarrow> bit g n \<or> 48 \<le> n \<and> n < 58 \<and> bit m (n - 48)" for n
    unfolding factorRecord_def m(3) Let_def bit_or_iff bit_push_bit_iff
    using bit_of_nat_small [of m 10 "n - 48"] m(1) by auto
  have s: "sint (charToInt s) = int m + 1"
    unfolding m(2) using m(1) by (subst sint_of_nat_small) auto
  have b57: "bit ?w 57 \<longleftrightarrow> bit m 9"
    unfolding w using assms(2) by auto
  have b9: "bit m 9 \<longleftrightarrow> 512 \<le> m"
    using m(1) by (auto simp: bit_iff_odd odd_iff_mod_2_eq_one)
  have f: "drop_bit 48 ?w AND 0x7ff = of_nat m"
  proof (rule bit_word_eqI)
    fix n assume "n < LENGTH(64)"
    have "bit (0x7ff :: u64) n \<longleftrightarrow> n < 11"
      using bit_mask_iff [of 11 n, where 'a = u64] \<open>n < LENGTH(64)\<close> by (simp add: mask_eq_exp_minus_1)
    then show "bit (drop_bit 48 ?w AND 0x7ff) n \<longleftrightarrow> bit (of_nat m :: u64) n"
      unfolding bit_and_iff bit_drop_bit_eq comp_def w
      using bit_of_nat_small [of m 10 n] m(1) assms(2) [of "48 + n"] \<open>n < LENGTH(64)\<close> by auto
  qed
  show ?thesis
  proof (cases "512 \<le> m")
    case True
    then show ?thesis using b57 b9 s by (simp add: getFactor_def and_one_bit')
  next
    case False
    then have "getFactor ?w = ucast (of_nat m + 1 :: u64)"
      using b57 b9 by (simp add: getFactor_def and_one_bit' f)
    also have "of_nat m + 1 = (of_nat (m + 1) :: u64)" by simp
    also have "ucast (of_nat (m + 1) :: u64) = (of_nat (m + 1) :: i32)"
      using m(1) by (intro ucast_of_nat_small) simp
    finally show ?thesis using False s m(2) by simp
  qed
qed

lemma getKey_keyRecord:
  assumes "cstring s" "validKeyHelper s" "\<And>n. n < 32 \<Longrightarrow> \<not> bit g n"
  shows "getKey (keyRecord s g) = word_of_int (hex_val s)"
proof (rule bit_word_eqI)
  fix n assume n: "n < LENGTH(32)"
  have "bit (0xffffffff :: u64) n"
    using bit_mask_iff [of 32 n, where 'a = u64] n by (simp add: mask_eq_exp_minus_1)
  then show "bit (getKey (keyRecord s g)) n \<longleftrightarrow> bit (word_of_int (hex_val s) :: i32) n"
    using n assms(3) [of n] hexStringToInt_eq [OF assms(1,2)]
    by (simp add: getKey_def keyRecord_def bit_simps)
qed

subsection \<open>Properties of the command line\<close>



text \<open>The option word of an accepted command line has exactly the mode bit of the mode flag, and
  the preserve bit exactly when \<open>-p\<close> is among the options; the factor and key fields do not spill
  into the flags.\<close>

theorem validargs_flags:
  assumes "list_all cstring (prog # m # opts)" "m \<noteq> ''-h''" "usage_ok (prog # m # opts)"
    and "g = snd (validargs (length (prog # m # opts)) (prog # m # opts))"
  shows "(isSpeedUp g \<longleftrightarrow> m = ''-u'') \<and> (isSlowDown g \<longleftrightarrow> m = ''-d'') \<and>
    (isCrypt g \<longleftrightarrow> m = ''-c'') \<and> (isPreserve g \<longleftrightarrow> ''-p'' \<in> set opts)"
proof -
  have c: "list_all cstring opts" using assms(1) by simp
  consider (speed) k where "m = ''-u'' \<and> k = (62 :: nat) \<or> m = ''-d'' \<and> k = 61" "speed_opts_ok opts"
    | (crypt) "m = ''-c''" "crypt_opts_ok opts"
    using assms(2,3) by auto
  then show ?thesis
  proof cases
    case speed
    have "g = speed_word k opts"
      using assms(4) validargs_speed [OF c speed(1), of prog] speed(2) by simp
    then show ?thesis using speed by (auto simp: reader_defs speed_word_bit)
  next
    case crypt
    have "g = crypt_word opts"
      using assms(4) validargs_crypt [OF c, of prog] crypt by simp
    then show ?thesis using crypt c by (auto simp: reader_defs crypt_word_bit)
  qed
qed

theorem validargs_flags_witness:
  "isCrypt (snd (validargs 4 [''audible'', ''-c'', ''-k'', ''DeadBeef''])) \<and>
   \<not> isPreserve (snd (validargs 4 [''audible'', ''-c'', ''-k'', ''DeadBeef'']))"
proof -
  let ?g = "snd (validargs (length [''audible'', ''-c'', ''-k'', ''DeadBeef'']) [''audible'', ''-c'', ''-k'', ''DeadBeef''])"
  have h: "list_all cstring [''audible'', ''-c'', ''-k'', ''DeadBeef'']" "''-c'' \<noteq> ''-h''"
    by simp_all
  have u: "usage_ok [''audible'', ''-c'', ''-k'', ''DeadBeef'']"
    by (simp add: validKeyHelper_def c_char_def)
  from validargs_flags [OF h u, of ?g] show ?thesis by (simp add: eval_nat_numeral)
qed

text \<open>A factor from 1 to 512 given with \<open>-f\<close> is read back by \<open>getFactor\<close> as it was given, in every
  accepted placement of \<open>-f\<close> and \<open>-p\<close>.\<close>

theorem factor_roundtrip:
  assumes "list_all cstring opts" "m = ''-u'' \<or> m = ''-d''" "validFactorHelper F"
    and "opts \<in> {[''-f'', F], [''-f'', F, ''-p''], [''-p'', ''-f'', F]}"
    and "sint (charToInt F) \<le> 512"
  shows "getFactor (snd (validargs (length (prog # m # opts)) (prog # m # opts))) = charToInt F"
proof -
  obtain k where k: "m = ''-u'' \<and> k = (62 :: nat) \<or> m = ''-d'' \<and> k = 61" using assms(2) by auto
  have ok: "speed_opts_ok opts" using assms(3,4) by auto
  have "getFactor (speed_word k opts) = charToInt F"
    using assms(4,5) k unfolding speed_word_def Let_def
    by (auto intro!: getFactor_factorRecord [THEN trans] assms(3)
        simp: preserveRecord_bit bit_push_one simp del: push_bit_of_1)
  then show ?thesis
    using validargs_speed [OF assms(1) k, of prog] ok by simp
qed

theorem factor_roundtrip_witness:
  "getFactor (snd (validargs 4 [''audible'', ''-u'', ''-f'', ''512''])) = 512"
proof -
  have v: "validFactorHelper ''512''" and e: "charToInt ''512'' = 512"
    by (simp_all add: validFactorHelper_def numbersOnly_def charToInt_def c_char_def Let_def)
  show ?thesis
    using factor_roundtrip [of "[''-f'', ''512'']" "''-u''" "''512''" "''audible''"] v
    by (simp add: e eval_nat_numeral)
qed

text \<open>A factor from 513 to 1024, which the usage text allows and \<open>validargs\<close> accepts, sets the bit
  that marks an absent factor, and \<open>getFactor\<close> returns -1.\<close>

theorem factor_lost_above_512:
  assumes "list_all cstring opts" "m = ''-u'' \<or> m = ''-d''" "validFactorHelper F"
    and "opts \<in> {[''-f'', F], [''-f'', F, ''-p''], [''-p'', ''-f'', F]}"
    and "sint (charToInt F) > 512"
  shows "fst (validargs (length (prog # m # opts)) (prog # m # opts)) \<and>
    getFactor (snd (validargs (length (prog # m # opts)) (prog # m # opts))) = - 1"
proof -
  obtain k where k: "m = ''-u'' \<and> k = (62 :: nat) \<or> m = ''-d'' \<and> k = 61" using assms(2) by auto
  have ok: "speed_opts_ok opts" using assms(3,4) by auto
  have "getFactor (speed_word k opts) = - 1"
    using assms(4,5) k unfolding speed_word_def Let_def
    by (auto intro!: getFactor_factorRecord [THEN trans] assms(3)
        simp: preserveRecord_bit bit_push_one simp del: push_bit_of_1)
  then show ?thesis
    using validargs_speed [OF assms(1) k, of prog] ok by simp
qed

theorem factor_lost_above_512_witness:
  "fst (validargs 4 [''audible'', ''-d'', ''-f'', ''1024'']) \<and>
   getFactor (snd (validargs 4 [''audible'', ''-d'', ''-f'', ''1024''])) = - 1"
proof -
  have v: "validFactorHelper ''1024''" and e: "charToInt ''1024'' = 1024"
    by (simp_all add: validFactorHelper_def numbersOnly_def charToInt_def c_char_def Let_def)
  show ?thesis
    using factor_lost_above_512 [of "[''-f'', ''1024'']" "''-d''" "''1024''" "''audible''"] v
    by (simp add: e eval_nat_numeral)
qed

text \<open>The key of \<open>-c -k KEY\<close> is read back by \<open>getKey\<close> as the number its hexadecimal digits
  denote; with at most eight digits nothing is cut off.\<close>

theorem key_roundtrip:
  assumes "list_all cstring opts" "validKeyHelper K"
    and "opts \<in> {[''-k'', K], [''-k'', K, ''-p''], [''-p'', ''-k'', K]}"
  shows "fst (validargs (length (prog # ''-c'' # opts)) (prog # ''-c'' # opts)) \<and>
    uint (getKey (snd (validargs (length (prog # ''-c'' # opts)) (prog # ''-c'' # opts)))) = hex_val K"
proof -
  have ok: "crypt_opts_ok opts" and K: "cstring K" using assms by auto
  have "getKey (crypt_word opts) = word_of_int (hex_val K)"
    using assms(2,3) K unfolding crypt_word_def Let_def
    by (auto intro!: getKey_keyRecord
        simp: preserveRecord_bit bit_push_one simp del: push_bit_of_1)
  moreover have "uint (word_of_int (hex_val K) :: i32) = hex_val K"
    using validKey_hex_val [OF K assms(2)] by (simp add: uint_word_of_int)
  ultimately show ?thesis
    using validargs_crypt [OF assms(1), of prog] ok by simp
qed

theorem key_roundtrip_witness:
  "uint (getKey (snd (validargs 4 [''audible'', ''-c'', ''-k'', ''DeadBeef'']))) = 0xDeadBeef"
proof -
  have v: "validKeyHelper ''DeadBeef''" by (simp add: validKeyHelper_def c_char_def)
  show ?thesis
    using key_roundtrip [of "[''-k'', ''DeadBeef'']" "''DeadBeef''" "''audible''"] v
    by (simp add: hexToInt_def c_char_def eval_nat_numeral)
qed

text \<open>On a string of one to nine decimal digits \<open>validFactorHelper\<close> accepts exactly the numbers
  from 1 to 1024, and \<open>charToInt\<close> is the number they denote.\<close>

theorem decimal_factor:
  assumes "decimal F" "length F \<le> 9"
  shows "(validFactorHelper F \<longleftrightarrow> 1 \<le> dec_val F \<and> dec_val F \<le> 1024) \<and> sint (charToInt F) = dec_val F"
proof -
  have "dec_val F < 10 ^ length F" using dec_val_bounds [OF assms(1)] by simp
  also have "\<dots> \<le> (10 :: int) ^ 9" using assms(2) by (intro power_increasing) auto
  finally have "sint (charToInt F) = dec_val F"
    using dec_val_bounds [OF assms(1)] charToInt_eq [OF decimal_cstring [OF assms(1)]]
    by (simp add: signed_take_bit_int_eq_self signed_of_int)
  then show ?thesis
    using decimal_numbersOnly [OF assms(1)] by (auto simp: validFactorHelper_def Let_def)
qed

theorem decimal_factor_witness:
  "\<not> validFactorHelper ''1025'' \<and> sint (charToInt ''1025'') = 1025"
proof -
  have "decimal ''1025''" by (simp add: decimal_def c_char_def)
  from decimal_factor [OF this] show ?thesis by (simp add: c_char_def)
qed

text \<open>A string that is not a decimal number can pass for a factor: the test for characters below
  \<open>'0'\<close> compares the wrong character with 0, so \<open>5-\<close> is accepted, as the factor 47.\<close>

theorem malformed_factor_accepted:
  "\<not> decimal ''5-'' \<and> fst (validargs 4 [''audible'', ''-u'', ''-f'', ''5-'']) \<and>
   getFactor (snd (validargs 4 [''audible'', ''-u'', ''-f'', ''5-''])) = 47"
proof -
  have e: "charToInt ''5-'' = 47" by (simp add: charToInt_def c_char_def)
  have v: "validFactorHelper ''5-''"
    by (simp add: validFactorHelper_def numbersOnly_def e c_char_def)
  have "getFactor (speed_word 62 [''-f'', ''5-'']) = 47"
    using getFactor_factorRecord [OF v, of "push_bit 62 1"]
    by (simp add: speed_word_def e bit_push_one del: push_bit_of_1)
  then show ?thesis
    using validargs_speed [of "[''-f'', ''5-'']" "''-u''" 62 "''audible''"] v
    by (simp add: decimal_def c_char_def eval_nat_numeral)
qed

end
