(* ===== verification/Audio_IO.thy ===== *)
theory Audio_IO
  imports Prelude
begin

unbundle bit_operations_syntax

section \<open>Audible: byte streams, headers, annotations and frames\<close>

text \<open>
  \<open>Audible/src/audioHelper.c\<close> and \<open>audio.c\<close>. The process's standard streams are a record: the
  bytes still to be read, the bytes written so far, and which \<open>putchar\<close> calls fail (by the number
  of bytes already accepted; \<open>\<lambda>_. False\<close> is a stream that never fails). \<open>getchar\<close> returns \<open>int\<close>:
  a byte, or EOF, which is -1.
\<close>

record io =
  inp :: "u8 list"
  out :: "u8 list"
  wfail :: "nat \<Rightarrow> bool"

abbreviation EOF :: i32 where
  "EOF \<equiv> - 1"

definition getchar :: "io \<Rightarrow> i32 \<times> io" where
  "getchar s = (case inp s of [] \<Rightarrow> (EOF, s) | b # bs \<Rightarrow> (ucast b, s\<lparr>inp := bs\<rparr>))"

definition putchar :: "u8 \<Rightarrow> io \<Rightarrow> i32 \<times> io" where
  "putchar b s =
     (if wfail s (length (out s)) then (EOF, s) else (ucast b, s\<lparr>out := out s @ [b]\<rparr>))"

subsection \<open>Integers\<close>

text \<open>\<open>i >> n\<close> on \<open>int\<close> is the arithmetic shift.\<close>

fun signExtend_loop :: "nat \<Rightarrow> nat \<Rightarrow> i32 \<Rightarrow> i32" where
  "signExtend_loop bytes k i =
     (if k > bytes
      then (let extend = push_bit ((k - 1) * 8) (0xff :: i32) in signExtend_loop bytes (k - 1) (i OR extend))
      else i)"

definition signExtend :: "i32 \<Rightarrow> nat \<Rightarrow> i32" where
  "signExtend i bytes =
     (let bit = signed_drop_bit 7 (signed_drop_bit (8 * (bytes - 1)) i) \<noteq> 0
      in if bit then signExtend_loop bytes 4 i else i)"

text \<open>The comparison with EOF is made on the accumulated value, not on what \<open>getchar\<close> returned.\<close>

fun getStdinInt_loop :: "nat \<Rightarrow> i32 \<Rightarrow> io \<Rightarrow> i32 \<times> io" where
  "getStdinInt_loop 0 acc s = (acc, s)"
| "getStdinInt_loop (Suc i) acc s =
     (let (c, s) = getchar s; acc = acc OR c
      in if acc = EOF then (0, s)
         else getStdinInt_loop i (if Suc i > 1 then push_bit 8 acc else acc) s)"

definition getStdinInt :: "nat \<Rightarrow> io \<Rightarrow> i32 \<times> io" where
  "getStdinInt i s = getStdinInt_loop i 0 s"

function putCharInt_loop :: "i32 \<Rightarrow> nat \<Rightarrow> io \<Rightarrow> bool \<times> io" where
  "putCharInt_loop i k s =
     (if k \<le> 4 then
        (let bit = ucast (signed_drop_bit (32 - 8 * k) i AND 0xff);
             (r, s) = putchar bit s
         in if r = EOF then (False, s) else putCharInt_loop i (k + 1) s)
      else (True, s))"
  by pat_completeness auto
termination
  by (relation "measure (\<lambda>(i, k, s). 5 - k)") auto

definition putCharInt :: "i32 \<Rightarrow> io \<Rightarrow> bool \<times> io" where
  "putCharInt i s = putCharInt_loop i 1 s"

fun putByteInt :: "i32 \<Rightarrow> nat \<Rightarrow> io \<Rightarrow> bool \<times> io" where
  "putByteInt i 0 s = (True, s)"
| "putByteInt i (Suc k) s =
     (let bit = ucast (signed_drop_bit (8 * (Suc k - 1)) i AND 0xff);
          (r, s) = putchar bit s
      in if r = EOF then (False, s) else putByteInt i k s)"

subsection \<open>Headers\<close>

record AUDIO_HEADER =
  magic_number :: u32
  data_offset :: u32
  data_size :: u32
  encoding :: u32
  sample_rate :: u32
  channels :: u32

abbreviation AUDIO_MAGIC :: u32 where "AUDIO_MAGIC \<equiv> 0x2e736e64"
abbreviation PCM8_ENCODING :: u32 where "PCM8_ENCODING \<equiv> 2"
abbreviation PCM16_ENCODING :: u32 where "PCM16_ENCODING \<equiv> 3"
abbreviation PCM24_ENCODING :: u32 where "PCM24_ENCODING \<equiv> 4"
abbreviation PCM32_ENCODING :: u32 where "PCM32_ENCODING \<equiv> 5"

definition validMagicNumber :: "AUDIO_HEADER \<Rightarrow> bool" where
  "validMagicNumber hp \<longleftrightarrow> magic_number hp = AUDIO_MAGIC"

text \<open>\<open>sizeof(hp)\<close> is the size of the pointer, 8, not of the header.\<close>

definition validDataOffset :: "AUDIO_HEADER \<Rightarrow> bool" where
  "validDataOffset hp \<longleftrightarrow> data_offset hp mod 8 = 0 \<and> data_offset hp \<ge> 8"

definition validEncoding :: "AUDIO_HEADER \<Rightarrow> bool" where
  "validEncoding hp \<longleftrightarrow> encoding hp \<le> PCM32_ENCODING \<and> encoding hp \<ge> PCM8_ENCODING"

definition validChannels :: "AUDIO_HEADER \<Rightarrow> bool" where
  "validChannels hp \<longleftrightarrow> channels hp = 1 \<or> channels hp = 2"

definition validHeader :: "AUDIO_HEADER \<Rightarrow> bool" where
  "validHeader hp \<longleftrightarrow>
     validMagicNumber hp \<and> validDataOffset hp \<and> validEncoding hp \<and> validChannels hp"

definition read_header :: "io \<Rightarrow> bool \<times> AUDIO_HEADER \<times> io" where
  "read_header s =
     (let (m, s) = getStdinInt 4 s;
          (o', s) = getStdinInt 4 s;
          (d, s) = getStdinInt 4 s;
          (e, s) = getStdinInt 4 s;
          (r, s) = getStdinInt 4 s;
          (c, s) = getStdinInt 4 s;
          hp = \<lparr>magic_number = m, data_offset = o', data_size = d, encoding = e,
                sample_rate = r, channels = c\<rparr>
      in (validHeader hp, hp, s))"

definition write_header :: "AUDIO_HEADER \<Rightarrow> io \<Rightarrow> bool \<times> io" where
  "write_header hp s =
     (let (b, s) = putCharInt (magic_number hp) s in if \<not> b then (False, s) else
      let (b, s) = putCharInt (data_offset hp) s in if \<not> b then (False, s) else
      let (b, s) = putCharInt (data_size hp) s in if \<not> b then (False, s) else
      let (b, s) = putCharInt (encoding hp) s in if \<not> b then (False, s) else
      let (b, s) = putCharInt (sample_rate hp) s in if \<not> b then (False, s) else
      let (b, s) = putCharInt (channels hp) s in if \<not> b then (False, s) else (True, s))"

subsection \<open>Annotations\<close>

abbreviation ANNOTATION_MAX :: nat where
  "ANNOTATION_MAX \<equiv> 1024"

text \<open>
  \<open>ap\<close> is a \<open>char\<close> array; the assigned \<open>char\<close>, sign-extended, is what is compared with EOF. Bytes
  that were stored before the failure stay in the buffer.
\<close>

function read_annotation_loop :: "u8 list \<Rightarrow> nat \<Rightarrow> nat \<Rightarrow> io \<Rightarrow> bool \<times> u8 list \<times> io" where
  "read_annotation_loop ap i len s =
     (if i < len then
        (let (c, s) = getchar s; ch = (ucast c :: u8); ap = ap[i := ch]
         in if (scast ch :: i32) = EOF then (False, ap, s)
            else read_annotation_loop ap (i + 1) len s)
      else (True, ap, s))"
  by pat_completeness auto
termination
  by (relation "measure (\<lambda>(ap, i, len, s). len - i)") auto

definition read_annotation :: "u8 list \<Rightarrow> u32 \<Rightarrow> io \<Rightarrow> bool \<times> u8 list \<times> io" where
  "read_annotation ap len s =
     (if len mod 8 \<noteq> 0 \<or> unat len > ANNOTATION_MAX then (False, ap, s)
      else read_annotation_loop ap 0 (unat len) s)"

function write_annotation_loop :: "u8 list \<Rightarrow> nat \<Rightarrow> nat \<Rightarrow> io \<Rightarrow> bool \<times> io" where
  "write_annotation_loop ap i len s =
     (if i < len then
        (let (r, s) = putchar (ap ! i) s
         in if r = EOF then (False, s) else write_annotation_loop ap (i + 1) len s)
      else (True, s))"
  by pat_completeness auto
termination
  by (relation "measure (\<lambda>(ap, i, len, s). len - i)") auto

definition write_annotation :: "u8 list \<Rightarrow> u32 \<Rightarrow> io \<Rightarrow> bool \<times> io" where
  "write_annotation ap len s = write_annotation_loop ap 0 (unat len) s"

subsection \<open>Frames\<close>

text \<open>
  A frame buffer is the list of its \<open>channels\<close> sample values; the code never reads an entry of the
  array beyond them.
\<close>

fun read_frame :: "nat \<Rightarrow> nat \<Rightarrow> io \<Rightarrow> i32 list \<times> io" where
  "read_frame 0 bytes_per_sample s = ([], s)"
| "read_frame (Suc c) bytes_per_sample s =
     (let (v, s) = getStdinInt bytes_per_sample s;
          (vs, s) = read_frame c bytes_per_sample s
      in (signExtend v bytes_per_sample # vs, s))"

fun write_frame :: "i32 list \<Rightarrow> nat \<Rightarrow> io \<Rightarrow> bool \<times> io" where
  "write_frame [] bytes_per_sample s = (True, s)"
| "write_frame (v # vs) bytes_per_sample s =
     (let (b, s) = putByteInt v bytes_per_sample s
      in if \<not> b then (False, s) else write_frame vs bytes_per_sample s)"

declare signExtend_loop.simps [simp del] putCharInt_loop.simps [simp del]
  read_annotation_loop.simps [simp del] write_annotation_loop.simps [simp del]

subsection \<open>Effect of the stream operations\<close>

definition never_fails :: "io \<Rightarrow> bool" where
  "never_fails s \<longleftrightarrow> (\<forall>n. \<not> wfail s n)"

lemma ucast_low_byte:
  assumes "n + 8 \<le> 32"
  shows "(ucast (signed_drop_bit n w AND 0xff) :: u8) = ucast (drop_bit n (w :: i32))"
proof (rule bit_word_eqI)
  fix k assume k: "k < LENGTH(8)"
  have "bit (0xff :: i32) k"
    using bit_mask_iff [of 8 k, where 'a = i32] k by (simp add: mask_eq_exp_minus_1)
  then show "bit (ucast (signed_drop_bit n w AND 0xff) :: u8) k = bit (ucast (drop_bit n w) :: u8) k"
    using k assms by (auto simp: bit_simps)
qed

lemma byte_neq_EOF [simp]: "(ucast (b :: u8) :: i32) \<noteq> - 1"
proof
  assume "(ucast b :: i32) = - 1"
  then have "bit (ucast b :: i32) 8" by simp
  then show False using bit_imp_le_length [of b 8] by (simp add: bit_simps)
qed

lemma getchar_Cons [io_simps]: "inp s = b # bs \<Longrightarrow> getchar s = (ucast b, s\<lparr>inp := bs\<rparr>)"
  by (simp add: getchar_def)

lemma getchar_Nil [io_simps]: "inp s = [] \<Longrightarrow> getchar s = (EOF, s)"
  by (simp add: getchar_def)

lemma putchar_ok [io_simps]: "never_fails s \<Longrightarrow> putchar b s = (ucast b, s\<lparr>out := out s @ [b]\<rparr>)"
  by (simp add: putchar_def never_fails_def)

lemma never_fails_upd [simp]:
  "never_fails (s\<lparr>out := x\<rparr>) = never_fails s" "never_fails (s\<lparr>inp := y\<rparr>) = never_fails s"
  by (simp_all add: never_fails_def)

lemma putByteInt_ok [io_simps]:
  "never_fails s \<Longrightarrow> k \<le> 4 \<Longrightarrow> putByteInt w k s = (True, s\<lparr>out := out s @ be_bytes k w\<rparr>)"
proof (induction k arbitrary: s)
  case (Suc k)
  have "(ucast (signed_drop_bit (8 * k) w AND 0xff) :: u8) = ucast (drop_bit (8 * k) w)"
    using Suc.prems by (intro ucast_low_byte) simp
  with Suc show ?case by (simp add: io_simps)
qed simp

lemma putCharInt_ok [io_simps]:
  assumes "never_fails s"
  shows "putCharInt w s = (True, s\<lparr>out := out s @ be_bytes 4 w\<rparr>)"
proof -
  have "(ucast (signed_drop_bit n w AND 0xff) :: u8) = ucast (drop_bit n w)" if "n \<le> 24" for n
    using that by (intro ucast_low_byte) simp
  note low = this [of 24] this [of 16] this [of 8] this [of 0]
  show ?thesis
    unfolding putCharInt_def using assms low
    by (simp add: putCharInt_loop.simps io_simps numeral_eq_Suc)
qed

lemma be_acc_partial_neq_EOF:
  assumes "length bs < 4"
  shows "be_val bs \<noteq> - 1"
  using be_val_high [of bs 31] assms by auto

lemma be_val_snoc: "be_val (bs @ [b]) = be_acc (be_val bs) b"
  by (simp add: be_val_def)

lemma getStdinInt_loop_ok:
  "length (pre @ bs) \<le> 4 \<Longrightarrow> bs \<noteq> [] \<Longrightarrow> inp s = bs @ rest \<Longrightarrow>
   getStdinInt_loop (length bs) (push_bit 8 (be_val pre)) s =
     (if be_val (pre @ bs) = EOF then 0 else be_val (pre @ bs), s\<lparr>inp := rest\<rparr>)"
proof (induction bs arbitrary: pre s)
  case (Cons b bs)
  have acc: "push_bit 8 (be_val pre) OR ucast b = be_val (pre @ [b])"
    by (simp add: be_val_snoc be_acc_def)
  show ?case
  proof (cases "bs = []")
    case True
    then show ?thesis using Cons.prems by (simp add: io_simps acc)
  next
    case False
    have "be_val (pre @ [b]) \<noteq> EOF"
      using Cons.prems False by (intro be_acc_partial_neq_EOF) (cases bs, auto)
    then show ?thesis
      using Cons.IH [of "pre @ [b]" "s\<lparr>inp := bs @ rest\<rparr>"] Cons.prems False
      by (simp add: io_simps acc)
  qed
qed simp

lemma getStdinInt_ok:
  assumes "inp s = bs @ rest" "length bs = n" "0 < n" "n \<le> 4"
  shows "getStdinInt n s = (if be_val bs = EOF then 0 else be_val bs, s\<lparr>inp := rest\<rparr>)"
  using getStdinInt_loop_ok [of "[]" bs s rest] assms
  by (auto simp: getStdinInt_def be_val_def)

text \<open>Input that ends inside an integer reads as 0 and is consumed.\<close>

lemma getStdinInt_loop_short:
  "length (inp s) < n \<Longrightarrow> length (pre @ inp s) < 4 \<Longrightarrow>
   getStdinInt_loop n (push_bit 8 (be_val pre)) s = (0, s\<lparr>inp := []\<rparr>)"
proof (induction n arbitrary: pre s)
  case (Suc n)
  show ?case
  proof (cases "inp s")
    case Nil
    then show ?thesis by (simp add: io_simps)
  next
    case (Cons b bs)
    have acc: "push_bit 8 (be_val pre) OR ucast b = be_val (pre @ [b])"
      by (simp add: be_val_snoc be_acc_def)
    have "be_val (pre @ [b]) \<noteq> EOF"
      using Suc.prems Cons by (intro be_acc_partial_neq_EOF) auto
    then show ?thesis
      using Suc.IH [of "s\<lparr>inp := bs\<rparr>" "pre @ [b]"] Suc.prems Cons
      by (cases n) (simp_all add: io_simps acc)
  qed
qed simp

lemma getStdinInt_short:
  assumes "length (inp s) < n" "n \<le> 4"
  shows "getStdinInt n s = (0, s\<lparr>inp := []\<rparr>)"
  using getStdinInt_loop_short [of s n "[]"] assms by (simp add: getStdinInt_def be_val_def)

subsection \<open>Sign extension\<close>

lemma bit_0xff: "bit (0xff :: i32) k \<longleftrightarrow> k < 8"
  using bit_mask_iff [of 8 k, where 'a = i32] by (auto simp: mask_eq_exp_minus_1)

lemma signed_drop_bit_0_iff:
  assumes "m \<le> 31" "\<And>k. m < k \<Longrightarrow> \<not> bit i k"
  shows "signed_drop_bit m (i :: i32) = 0 \<longleftrightarrow> \<not> bit i m"
proof -
  have b: "bit (signed_drop_bit m i) k \<longleftrightarrow> bit i (if 32 - m \<le> k \<and> k < 32 then 31 else m + k)" for k
    by (simp add: bit_signed_drop_bit_iff)
  have "(\<exists>k. bit (signed_drop_bit m i) k) \<longleftrightarrow> bit i m"
  proof
    assume "\<exists>k. bit (signed_drop_bit m i) k"
    then obtain k where "bit i (if 32 - m \<le> k \<and> k < 32 then 31 else m + k)"
      unfolding b by blast
    then show "bit i m"
      using assms(1) assms(2) [of 31] assms(2) [of "m + k"]
      by (cases "m = 31"; cases "k = 0") (auto split: if_splits)
  next
    assume "bit i m"
    then have "bit (signed_drop_bit m i) 0" using assms(1) by (simp add: b)
    then show "\<exists>k. bit (signed_drop_bit m i) k" by blast
  qed
  then show ?thesis
    using bit_imp_le_length [of "signed_drop_bit m i"] by (auto simp: bit_eq_iff)
qed

lemma sign_test:
  assumes "0 < n" "n \<le> 4" "\<And>k. 8 * n \<le> k \<Longrightarrow> \<not> bit i k"
  shows "signed_drop_bit (7 + 8 * (n - Suc 0)) (i :: i32) = 0 \<longleftrightarrow> \<not> bit i (8 * n - 1)"
proof -
  have e: "7 + 8 * (n - Suc 0) = 8 * n - 1" using assms(1) by simp
  show ?thesis
    unfolding e using assms by (intro signed_drop_bit_0_iff) auto
qed

lemma extend_bit:
  "0 < k \<Longrightarrow> k \<le> 4 \<Longrightarrow> bit (push_bit ((k - 1) * 8) (0xff :: i32)) j \<longleftrightarrow> 8 * (k - 1) \<le> j \<and> j < 8 * k"
  unfolding bit_push_bit_iff bit_0xff by auto

lemma signExtend_loop_bit:
  "k \<le> 4 \<Longrightarrow> bit (signExtend_loop n k i) j \<longleftrightarrow> bit i j \<or> 8 * n \<le> j \<and> j < 8 * k"
proof (induction n k i rule: signExtend_loop.induct)
  case (1 n k i)
  show ?case
  proof (cases "k > n")
    case True
    then have "signExtend_loop n k i = signExtend_loop n (k - 1) (i OR push_bit ((k - 1) * 8) 0xff)"
      by (subst signExtend_loop.simps) (simp add: Let_def)
    then show ?thesis
      using "1.IH" [OF True refl] "1.prems" True
      by (auto simp: bit_or_iff extend_bit [of k, simplified])
  next
    case False
    then show ?thesis by (subst signExtend_loop.simps) auto
  qed
qed

lemma signExtend_eq:
  assumes "0 < n" "n \<le> 4" "\<And>k. 8 * n \<le> k \<Longrightarrow> \<not> bit i k"
  shows "signExtend i n = signed_take_bit (8 * n - 1) i"
proof (rule bit_word_eqI)
  fix k assume k: "k < LENGTH(32)"
  show "bit (signExtend i n) k = bit (signed_take_bit (8 * n - 1) i) k"
    using assms(1) assms(3) [of k] k
    by (cases "k = 8 * n - 1")
       (auto simp: signExtend_def sign_test [OF assms] signExtend_loop_bit bit_signed_take_bit_iff
         min_def)
qed

lemma be_bytes_signed_take_bit: "be_bytes n (signed_take_bit (8 * n - 1) w) = be_bytes n w"
proof -
  have "be_bytes k (signed_take_bit (8 * n - 1) w) = be_bytes k w" if "k \<le> n" for k
    using that
  proof (induction k)
    case (Suc k)
    have "(ucast (drop_bit (8 * k) (signed_take_bit (8 * n - 1) w)) :: u8) = ucast (drop_bit (8 * k) w)"
    proof (rule bit_word_eqI)
      fix j assume "j < LENGTH(8)"
      then have "8 * k + j < 8 * n - 1 \<or> 8 * k + j = 8 * n - 1" using Suc.prems by auto
      then show "bit (ucast (drop_bit (8 * k) (signed_take_bit (8 * n - 1) w)) :: u8) j =
          bit (ucast (drop_bit (8 * k) w) :: u8) j"
        by (auto simp: bit_simps min_def not_le dest: bit_imp_le_length)
    qed
    with Suc show ?case by simp
  qed simp
  then show ?thesis by simp
qed

subsection \<open>Codecs over the byte stream\<close>

text \<open>
  What a reader and a writer of a field of the file promise each other: reading back what was
  written gives the value, and writing back what was read gives the bytes. The laws lift from one
  field to a sequence of fields, so they hold for samples, frames and the data area alike.
\<close>

fun dec_many :: "nat \<Rightarrow> (io \<Rightarrow> 'v \<times> io) \<Rightarrow> io \<Rightarrow> 'v list \<times> io" where
  "dec_many 0 dec s = ([], s)"
| "dec_many (Suc c) dec s = (let (v, s) = dec s; (vs, s) = dec_many c dec s in (v # vs, s))"

definition raw_many :: "nat \<Rightarrow> (u8 list \<Rightarrow> bool) \<Rightarrow> u8 list \<Rightarrow> bool" where
  "raw_many c raw bs \<longleftrightarrow> (\<exists>bss. bs = concat bss \<and> length bss = c \<and> list_all raw bss)"

locale byte_codec =
  fixes enc :: "'v \<Rightarrow> u8 list"
    and dec :: "io \<Rightarrow> 'v \<times> io"
    and ok :: "'v \<Rightarrow> bool"
    and raw :: "u8 list \<Rightarrow> bool"
  assumes dec_enc: "ok v \<Longrightarrow> inp s = enc v @ rest \<Longrightarrow> dec s = (v, s\<lparr>inp := rest\<rparr>)"
    and enc_dec: "raw bs \<Longrightarrow> inp s = bs @ rest \<Longrightarrow> \<exists>v. dec s = (v, s\<lparr>inp := rest\<rparr>) \<and> enc v = bs"
begin

lemma dec_many_enc:
  "list_all ok vs \<Longrightarrow> inp s = concat (map enc vs) @ rest \<Longrightarrow>
   dec_many (length vs) dec s = (vs, s\<lparr>inp := rest\<rparr>)"
proof (induction vs arbitrary: s)
  case (Cons v vs)
  then have "dec s = (v, s\<lparr>inp := concat (map enc vs) @ rest\<rparr>)"
    by (intro dec_enc) auto
  with Cons show ?case by simp
qed simp

lemma enc_dec_many:
  "list_all raw bss \<Longrightarrow> inp s = concat bss @ rest \<Longrightarrow>
   \<exists>vs. dec_many (length bss) dec s = (vs, s\<lparr>inp := rest\<rparr>) \<and> map enc vs = bss"
proof (induction bss arbitrary: s)
  case (Cons bs bss)
  then obtain v where v: "dec s = (v, s\<lparr>inp := concat bss @ rest\<rparr>)" "enc v = bs"
    using enc_dec [of bs s "concat bss @ rest"] by auto
  obtain vs where "dec_many (length bss) dec (s\<lparr>inp := concat bss @ rest\<rparr>) = (vs, s\<lparr>inp := rest\<rparr>)"
      "map enc vs = bss"
    using Cons.IH [of "s\<lparr>inp := concat bss @ rest\<rparr>"] Cons.prems by auto
  with v show ?case by simp
qed simp

end

locale seq_codec = byte_codec +
  fixes c :: nat

sublocale seq_codec \<subseteq> many: byte_codec "\<lambda>vs. concat (map enc vs)" "dec_many c dec"
    "\<lambda>vs. length vs = c \<and> list_all ok vs" "raw_many c raw"
proof unfold_locales
  fix vs and s :: io and rest
  assume "length vs = c \<and> list_all ok vs" "inp s = concat (map enc vs) @ rest"
  then show "dec_many c dec s = (vs, s\<lparr>inp := rest\<rparr>)"
    using dec_many_enc by blast
next
  fix bs and s :: io and rest
  assume "raw_many c raw bs" "inp s = bs @ rest"
  then show "\<exists>vs. dec_many c dec s = (vs, s\<lparr>inp := rest\<rparr>) \<and> concat (map enc vs) = bs"
    using enc_dec_many by (force simp: raw_many_def)
qed

text \<open>
  Samples of \<open>n\<close> bytes. A value fits when sign extension from its \<open>n\<close> bytes gives it back; the
  four-byte value -1 is the one that \<open>getStdinInt\<close> takes for the end of the input.
\<close>

definition read_sample :: "nat \<Rightarrow> io \<Rightarrow> i32 \<times> io" where
  "read_sample n s = (let (v, s) = getStdinInt n s in (signExtend v n, s))"

definition sample_ok :: "nat \<Rightarrow> i32 \<Rightarrow> bool" where
  "sample_ok n v \<longleftrightarrow> 0 < n \<and> n \<le> 4 \<and> signed_take_bit (8 * n - 1) v = v \<and> (n = 4 \<longrightarrow> v \<noteq> - 1)"

definition sample_raw :: "nat \<Rightarrow> u8 list \<Rightarrow> bool" where
  "sample_raw n bs \<longleftrightarrow> 0 < n \<and> n \<le> 4 \<and> length bs = n \<and> bs \<noteq> replicate 4 0xff"

lemma be_bytes_EOF: "be_bytes 4 (- 1) = replicate 4 0xff"
  by code_simp

lemma be_val_EOF_iff: "length bs \<le> 4 \<Longrightarrow> be_val bs = - 1 \<longleftrightarrow> bs = replicate 4 0xff"
proof
  assume l: "length bs \<le> 4" and v: "be_val bs = - 1"
  then have n: "length bs = 4" using be_acc_partial_neq_EOF [of bs] by linarith
  show "bs = replicate 4 0xff" using be_bytes_be_val [OF l] by (simp only: n v be_bytes_EOF)
next
  assume "bs = replicate 4 0xff"
  then have "be_val bs = be_val (be_bytes 4 (- 1))" by (simp only: be_bytes_EOF)
  then show "be_val bs = - 1"
    using take_bit_word_eq_self [of 32 "- 1 :: i32"]
    by (simp add: be_val_be_bytes del: take_bit_minus_one_eq_mask)
qed

lemma read_sample_raw:
  assumes "sample_raw n bs" "inp s = bs @ rest"
  shows "read_sample n s = (signed_take_bit (8 * n - 1) (be_val bs), s\<lparr>inp := rest\<rparr>)"
proof -
  have n: "0 < n" "n \<le> 4" "length bs = n" and ne: "be_val bs \<noteq> EOF"
    using assms(1) be_val_EOF_iff [of bs] by (auto simp: sample_raw_def)
  have "signExtend (be_val bs) n = signed_take_bit (8 * n - 1) (be_val bs)"
    using n be_val_high [of bs] by (intro signExtend_eq) auto
  then show ?thesis
    using getStdinInt_ok [OF assms(2) n(3,1,2)] ne by (simp add: read_sample_def)
qed

lemma sample_ok_raw:
  assumes "sample_ok n v"
  shows "sample_raw n (be_bytes n v)"
proof -
  have "be_bytes n v \<noteq> replicate 4 0xff"
  proof
    assume e: "be_bytes n v = replicate 4 0xff"
    then have "n = 4" by (metis length_be_bytes length_replicate)
    moreover have "be_val (be_bytes n v) = - 1"
      unfolding e by (simp add: be_val_EOF_iff)
    ultimately show False
      using assms by (simp add: be_val_be_bytes sample_ok_def take_bit_word_eq_self)
  qed
  with assms show ?thesis by (simp add: sample_raw_def sample_ok_def)
qed

interpretation pcm: seq_codec "be_bytes n" "read_sample n" "sample_ok n" "sample_raw n" c for n c
proof unfold_locales
  fix n v and s :: io and rest
  assume ok: "sample_ok n v" and i: "inp s = be_bytes n v @ rest"
  have "signed_take_bit (8 * n - 1) (take_bit (8 * n) v) = v"
    using ok by (cases n) (auto simp: sample_ok_def signed_take_bit_take_bit)
  then show "read_sample n s = (v, s\<lparr>inp := rest\<rparr>)"
    using read_sample_raw [OF sample_ok_raw [OF ok] i] by (simp add: be_val_be_bytes)
next
  fix n bs and s :: io and rest
  assume "sample_raw n bs" "inp s = bs @ rest"
  then show "\<exists>v. read_sample n s = (v, s\<lparr>inp := rest\<rparr>) \<and> be_bytes n v = bs"
    using be_bytes_be_val [of bs]
    by (auto simp: read_sample_raw be_bytes_signed_take_bit [simplified] sample_raw_def)
qed

lemma read_frame_dec_many: "read_frame c n s = dec_many c (read_sample n) s"
  by (induction c arbitrary: s) (auto simp: read_sample_def split: prod.splits)

lemma length_dec_many: "length (fst (dec_many c dec s)) = c"
  by (induction c arbitrary: s) (auto split: prod.splits, metis fst_conv)

lemma read_frame_raw:
  assumes "raw_many c (sample_raw n) bs" "inp s = bs @ rest"
  obtains vs where "read_frame c n s = (vs, s\<lparr>inp := rest\<rparr>)" "concat (map (be_bytes n) vs) = bs"
    "length vs = c"
  using pcm.many.enc_dec [OF assms] that length_dec_many [of c "read_sample n" s]
  by (auto simp: read_frame_dec_many)

lemma write_frame_ok [io_simps]:
  "never_fails s \<Longrightarrow> n \<le> 4 \<Longrightarrow>
   write_frame vs n s = (True, s\<lparr>out := out s @ concat (map (be_bytes n) vs)\<rparr>)"
  by (induction vs arbitrary: s) (simp_all add: io_simps)

subsection \<open>Headers and annotations on the stream\<close>

definition header_bytes :: "AUDIO_HEADER \<Rightarrow> u8 list" where
  "header_bytes hp = be_bytes 4 (magic_number hp) @ be_bytes 4 (data_offset hp) @
     be_bytes 4 (data_size hp) @ be_bytes 4 (encoding hp) @ be_bytes 4 (sample_rate hp) @
     be_bytes 4 (channels hp)"

text \<open>What a header field reads back as: the all-ones word is taken for the end of the input.\<close>

definition read_back :: "u32 \<Rightarrow> u32" where
  "read_back w = (if w = - 1 then 0 else w)"

lemma getStdinInt_word [io_simps]:
  "inp s = be_bytes 4 w @ rest \<Longrightarrow> getStdinInt 4 s = (read_back w, s\<lparr>inp := rest\<rparr>)"
  using getStdinInt_ok [of s "be_bytes 4 w" rest 4]
  by (simp add: be_val_be_bytes take_bit_word_eq_self read_back_def)

lemma length_header_bytes [simp]: "length (header_bytes hp) = 24"
  by (simp add: header_bytes_def)

lemma write_header_ok [io_simps]:
  "never_fails s \<Longrightarrow> write_header hp s = (True, s\<lparr>out := out s @ header_bytes hp\<rparr>)"
  by (simp add: write_header_def io_simps header_bytes_def)

lemma read_header_ok [io_simps]:
  assumes "inp s = header_bytes hp @ rest"
  shows "read_header s =
    (let hp' = \<lparr>magic_number = read_back (magic_number hp), data_offset = read_back (data_offset hp),
        data_size = read_back (data_size hp), encoding = read_back (encoding hp),
        sample_rate = read_back (sample_rate hp), channels = read_back (channels hp)\<rparr>
     in (validHeader hp', hp', s\<lparr>inp := rest\<rparr>))"
  using assms by (simp add: read_header_def io_simps header_bytes_def)

lemma ucast_ucast_byte [simp]: "ucast (ucast b :: i32) = (b :: u8)"
  by (rule bit_word_eqI) (simp add: bit_simps)

lemma read_annotation_loop_ok:
  "inp s = bs @ rest \<Longrightarrow> i + length bs = n \<Longrightarrow> n \<le> length ap \<Longrightarrow> 0xff \<notin> set bs \<Longrightarrow>
   read_annotation_loop ap i n s = (True, take i ap @ bs @ drop n ap, s\<lparr>inp := rest\<rparr>)"
proof (induction bs arbitrary: ap i s)
  case Nil
  then show ?case by (simp add: read_annotation_loop.simps)
next
  case (Cons b bs)
  have "(scast b :: i32) \<noteq> EOF"
  proof
    assume "(scast b :: i32) = EOF"
    moreover have "b = ucast (scast b :: i32)"
      by (rule bit_word_eqI) (simp add: bit_simps)
    moreover have "(ucast (EOF :: i32) :: u8) = 0xff" by code_simp
    ultimately show False using Cons.prems by (metis list.set_intros(1))
  qed
  then have "read_annotation_loop ap i n s = read_annotation_loop (ap[i := b]) (i + 1) n (s\<lparr>inp := bs @ rest\<rparr>)"
    using Cons.prems by (subst read_annotation_loop.simps) (simp add: io_simps Let_def)
  also have "\<dots> = (True, take (i + 1) (ap[i := b]) @ bs @ drop n (ap[i := b]), s\<lparr>inp := rest\<rparr>)"
    using Cons.IH [of "s\<lparr>inp := bs @ rest\<rparr>" "i + 1" "ap[i := b]"] Cons.prems by simp
  finally show ?case
    using Cons.prems by (simp add: take_Suc_conv_app_nth)
qed

lemma write_annotation_loop_ok:
  "never_fails s \<Longrightarrow> n \<le> length ap \<Longrightarrow> i \<le> n \<Longrightarrow>
   write_annotation_loop ap i n s = (True, s\<lparr>out := out s @ drop i (take n ap)\<rparr>)"
proof (induction ap i n s rule: write_annotation_loop.induct)
  case (1 ap i n s)
  show ?case
  proof (cases "i < n")
    case True
    have "drop i (take n ap) = ap ! i # drop (i + 1) (take n ap)"
      using True "1.prems" by (simp add: Cons_nth_drop_Suc [symmetric])
    then show ?thesis
      using True 1 by (subst write_annotation_loop.simps) (simp add: io_simps)
  next
    case False
    then show ?thesis using "1.prems" by (subst write_annotation_loop.simps) simp
  qed
qed

lemma write_annotation_ok [io_simps]:
  "never_fails s \<Longrightarrow> unat n \<le> length ap \<Longrightarrow>
   write_annotation ap n s = (True, s\<lparr>out := out s @ take (unat n) ap\<rparr>)"
  by (simp add: write_annotation_def write_annotation_loop_ok)

lemma read_annotation_ok:
  assumes "inp s = bs @ rest" "length bs = unat n" "n mod 8 = 0" "unat n \<le> 1024"
    and "length ap = ANNOTATION_MAX" "0xff \<notin> set bs"
  shows "read_annotation ap n s = (True, bs @ drop (unat n) ap, s\<lparr>inp := rest\<rparr>)"
  using assms read_annotation_loop_ok [of s bs rest 0 "unat n" ap] by (simp add: read_annotation_def)

subsection \<open>Properties of the stream layer\<close>

text \<open>C22: a header written by \<open>write_header\<close> is read back by \<open>read_header\<close> field by field, with the
  validity verdict of \<open>validHeader\<close>, and exactly its 24 bytes are consumed, provided no field is
  0xffffffff.\<close>

theorem header_roundtrip:
  assumes "never_fails s" "out s = []" "write_header hp s = (b, s')" "inp t = out s' @ rest"
    and "magic_number hp \<noteq> - 1" "data_offset hp \<noteq> - 1" "data_size hp \<noteq> - 1"
    and "encoding hp \<noteq> - 1" "sample_rate hp \<noteq> - 1" "channels hp \<noteq> - 1"
  shows "b \<and> length (out s') = 24 \<and> read_header t = (validHeader hp, hp, t\<lparr>inp := rest\<rparr>)"
proof -
  have w: "b" "out s' = header_bytes hp"
    using assms(1-3) by (auto simp: io_simps)
  then show ?thesis
    using read_header_ok [of t hp rest] assms(4-) by (cases hp) (simp add: read_back_def Let_def)
qed

theorem header_roundtrip_witness:
  "\<exists>t. read_header t = (True, \<lparr>magic_number = AUDIO_MAGIC, data_offset = 32, data_size = 4000,
     encoding = 3, sample_rate = 8000, channels = 2\<rparr>, t\<lparr>inp := [7]\<rparr>)"
proof -
  define hp :: AUDIO_HEADER where "hp = \<lparr>magic_number = AUDIO_MAGIC, data_offset = 32,
     data_size = 4000, encoding = 3, sample_rate = 8000, channels = 2\<rparr>"
  define s :: io where "s = \<lparr>inp = [], out = [], wfail = \<lambda>_. False\<rparr>"
  obtain b s' where w: "write_header hp s = (b, s')" by fastforce
  have "read_header (s\<lparr>inp := out s' @ [7]\<rparr>) = (validHeader hp, hp, s\<lparr>inp := out s' @ [7]\<rparr>\<lparr>inp := [7]\<rparr>)"
    using header_roundtrip [OF _ _ w, of "s\<lparr>inp := out s' @ [7]\<rparr>" "[7]"]
    by (simp add: never_fails_def s_def hp_def)
  moreover have "validHeader hp"
    by (simp add: validHeader_def validMagicNumber_def validDataOffset_def validEncoding_def
        validChannels_def hp_def)
  ultimately show ?thesis
    unfolding hp_def by (intro exI [of _ "s\<lparr>inp := out s' @ [7]\<rparr>"]) simp
qed

text \<open>A header whose data size is 0xffffffff, the value the format defines as \<^emph>\<open>unknown size\<close>, is
  read as one whose data size is 0.\<close>

theorem unknown_size_read_as_zero:
  assumes "inp s = header_bytes hp @ rest" "data_size hp = 0xffffffff"
  shows "data_size (fst (snd (read_header s))) = 0"
  using read_header_ok [OF assms(1)] assms(2) by (simp add: read_back_def Let_def)

theorem unknown_size_read_as_zero_witness:
  "\<exists>s :: io. data_size (fst (snd (read_header s))) = 0"
proof -
  let ?hp = "\<lparr>magic_number = AUDIO_MAGIC, data_offset = 24, data_size = 0xffffffff,
     encoding = 2, sample_rate = 8000, channels = 1\<rparr> :: AUDIO_HEADER"
  have "data_size (fst (snd (read_header \<lparr>inp = header_bytes ?hp, out = [], wfail = \<lambda>_. False\<rparr>))) = 0"
    by (rule unknown_size_read_as_zero [of _ ?hp "[]"]) simp_all
  then show ?thesis by blast
qed

text \<open>A frame written with any sample width is read back unchanged, channel by channel, when every
  sample fits the width; for four-byte samples the value -1 is excluded.\<close>

theorem frame_write_read:
  assumes "never_fails s" "n \<le> 4" "list_all (sample_ok n) vs"
    and "write_frame vs n s = (b, s')" "inp t = drop (length (out s)) (out s') @ rest"
  shows "b \<and> read_frame (length vs) n t = (vs, t\<lparr>inp := rest\<rparr>)"
proof -
  have "b" "out s' = out s @ concat (map (be_bytes n) vs)"
    using assms(1,2,4) by (auto simp: io_simps)
  then show ?thesis
    using pcm.dec_many_enc [OF assms(3), of t rest] assms(5) by (simp add: read_frame_dec_many)
qed

theorem frame_write_read_witness:
  "\<exists>t. read_frame 2 3 t = ([- 8388608, 8388607], t\<lparr>inp := []\<rparr>)"
proof -
  define s :: io where "s = \<lparr>inp = [], out = [], wfail = \<lambda>_. False\<rparr>"
  obtain b s' where w: "write_frame [- 8388608, 8388607] 3 s = (b, s')" by fastforce
  have "list_all (sample_ok 3) [- 8388608, 8388607]" by (simp add: sample_ok_def)
  from frame_write_read [OF _ _ this w, of "s\<lparr>inp := out s'\<rparr>" "[]"]
  have "read_frame 2 3 (s\<lparr>inp := out s'\<rparr>) = ([- 8388608, 8388607], s\<lparr>inp := out s'\<rparr>\<lparr>inp := []\<rparr>)"
    by (simp add: never_fails_def s_def numeral_2_eq_2 del: read_frame.simps)
  then show ?thesis by blast
qed

text \<open>Reading a frame and writing it back reproduces its bytes exactly, for every sample width and
  channel count, when no four-byte sample is 0xffffffff.\<close>

theorem frame_read_write:
  assumes "raw_many c (sample_raw n) bs" "inp s = bs @ rest" "never_fails s" "n \<le> 4"
    and "read_frame c n s = (vs, s')"
  shows "s' = s\<lparr>inp := rest\<rparr> \<and> length vs = c \<and> out (snd (write_frame vs n s')) = out s @ bs"
proof -
  obtain vs' where "read_frame c n s = (vs', s\<lparr>inp := rest\<rparr>)" "concat (map (be_bytes n) vs') = bs"
      "length vs' = c"
    using read_frame_raw [OF assms(1,2)] .
  then show ?thesis using assms(3-5) by (auto simp: io_simps)
qed

theorem frame_read_write_witness:
  "out (snd (write_frame (fst (read_frame 2 1 \<lparr>inp = [0xff, 0x80], out = [], wfail = \<lambda>_. False\<rparr>)) 1
     (snd (read_frame 2 1 \<lparr>inp = [0xff, 0x80], out = [], wfail = \<lambda>_. False\<rparr>)))) = [0xff, 0x80]"
proof -
  let ?s = "\<lparr>inp = [0xff, 0x80], out = [], wfail = \<lambda>_. False\<rparr> :: io"
  have "raw_many 2 (sample_raw 1) [0xff, 0x80]"
    unfolding raw_many_def by (rule exI [of _ "[[0xff], [0x80]]"]) (simp add: sample_raw_def eval_nat_numeral)
  from frame_read_write [OF this, of ?s "[]" "fst (read_frame 2 1 ?s)" "snd (read_frame 2 1 ?s)"]
  show ?thesis by (auto simp: never_fails_def simp del: read_frame.simps One_nat_def)
qed

text \<open>The excluded case is a defect: the 32-bit sample -1 is read as 0, since \<open>getStdinInt\<close>
  compares the accumulated value with EOF.\<close>

theorem minus_one_sample_read_as_zero:
  assumes "inp s = be_bytes 4 (- 1) @ rest"
  shows "read_frame 1 4 s = ([0], s\<lparr>inp := rest\<rparr>)"
proof -
  have "getStdinInt 4 s = (0, s\<lparr>inp := rest\<rparr>)"
    using getStdinInt_word [OF assms] by (simp add: read_back_def)
  moreover have "signExtend 0 4 = 0" by (simp add: signExtend_def)
  ultimately show ?thesis by simp
qed

theorem minus_one_sample_read_as_zero_witness:
  "fst (read_frame 1 4 \<lparr>inp = be_bytes 4 (- 1), out = [], wfail = \<lambda>_. False\<rparr>) = [0]"
  using minus_one_sample_read_as_zero [of "\<lparr>inp = be_bytes 4 (- 1), out = [], wfail = \<lambda>_. False\<rparr>" "[]"]
  by simp

end
