(* ===== verification/Audio_Recode.thy ===== *)
theory Audio_Recode
  imports Audio_Args Audio_IO
begin

unbundle bit_operations_syntax

section \<open>Audible: pseudorandom numbers, transformations and recode\<close>

text \<open>
  \<open>Audible/src/myrand.c\<close>, \<open>transformations.c\<close>, \<open>recode\<close> of \<open>hw1.c\<close> and \<open>main.c\<close>. The globals that
  one run uses are explicit: \<open>global_options\<close>, the two annotation buffers of 1024 bytes (zero at
  start), the generator's \<open>next\<close> and the standard streams. An access through NULL, a write or a
  read outside an annotation buffer and a trapping division are values of \<open>crash\<close>.
\<close>

datatype crash = NullDeref | OutOfBounds | DivTrap

subsection \<open>myrand.c\<close>

definition myrand :: "u64 \<Rightarrow> i32 \<times> u64" where
  "myrand next =
     (let next = next * 1103515245 + 12345
      in ((ucast (next div 65536) :: u32) mod 32768, next))"

definition mysrand :: "u32 \<Rightarrow> u64" where
  "mysrand seed = ucast seed"

fun myrand32_loop :: "nat \<Rightarrow> u32 \<Rightarrow> u64 \<Rightarrow> i32 \<times> u64" where
  "myrand32_loop 0 r next = (r, next)"
| "myrand32_loop (Suc i) r next =
     (let (x, next) = myrand next
      in myrand32_loop i (push_bit 8 r OR signed_drop_bit 7 (x AND 0x7fff)) next)"

definition myrand32 :: "u64 \<Rightarrow> i32 \<times> u64" where
  "myrand32 next = myrand32_loop 4 0 next"

subsection \<open>Frames\<close>

definition bytes_per_sample :: "AUDIO_HEADER \<Rightarrow> nat" where
  "bytes_per_sample hp = unat (encoding hp - 1)"

fun crypt_samples :: "i32 list \<Rightarrow> u64 \<Rightarrow> i32 list \<times> u64" where
  "crypt_samples [] next = ([], next)"
| "crypt_samples (v # vs) next =
     (let (r, next) = myrand32 next;
          (ws, next) = crypt_samples vs next
      in ((v XOR r) # ws, next))"

definition crypt :: "AUDIO_HEADER \<Rightarrow> u64 \<Rightarrow> io \<Rightarrow> bool \<times> u64 \<times> io" where
  "crypt hp next s =
     (let (fp, s) = read_frame (unat (channels hp)) (bytes_per_sample hp) s;
          (output_frame2, next) = crypt_samples fp next;
          (b, s) = write_frame output_frame2 (bytes_per_sample hp) s
      in (b, next, s))"

definition speedUp :: "u64 \<Rightarrow> AUDIO_HEADER \<Rightarrow> int \<Rightarrow> io \<Rightarrow> bool \<times> io" where
  "speedUp g hp i s =
     (let (fp, s) = read_frame (unat (channels hp)) (bytes_per_sample hp) s
      in if i smod sint (getFactor g) = 0 then write_frame fp (bytes_per_sample hp) s else (True, s))"

definition getInterpolation :: "i32 \<Rightarrow> i32 \<Rightarrow> i32 \<Rightarrow> i32 \<Rightarrow> i32" where
  "getInterpolation S T k N = S + word_of_int (sint ((T - S) * k) sdiv sint N)"

definition copyFrame :: "i32 list \<Rightarrow> i32 list \<Rightarrow> i32 list" where
  "copyFrame S T = T"

function slowDown_loop :: "nat \<Rightarrow> i32 list \<Rightarrow> i32 list \<Rightarrow> int \<Rightarrow> int \<Rightarrow> io \<Rightarrow> io" where
  "slowDown_loop n S T k factor s =
     (if k < factor then
        (let output_frame2 = map2 (\<lambda>x y. getInterpolation x y (word_of_int k) (word_of_int factor)) S T;
             (_, s) = write_frame output_frame2 n s
         in slowDown_loop n S T (k + 1) factor s)
      else s)"
  by pat_completeness auto
termination
  by (relation "measure (\<lambda>(n, S, T, k, factor, s). nat (factor - k))") auto

text \<open>The result is the frame \<open>S\<close> left for the next call and the streams.\<close>

definition slowDown :: "u64 \<Rightarrow> AUDIO_HEADER \<Rightarrow> i32 list \<Rightarrow> int \<Rightarrow> int \<Rightarrow> io \<Rightarrow> i32 list \<times> io" where
  "slowDown g hp S i frames s =
     (let factor = sint (getFactor g);
          c = unat (channels hp); n = bytes_per_sample hp;
          (S, s) = (if i = 0 then read_frame c n s else (S, s));
          (_, s) = write_frame S n s
      in if i + 1 < frames
         then (let (T, s) = read_frame c n s;
                   s = slowDown_loop n S T 1 factor s
               in (copyFrame S T, s))
         else (S, s))"

subsection \<open>Data size and annotation\<close>

definition setNewDataSize :: "u64 \<Rightarrow> AUDIO_HEADER \<Rightarrow> i32 \<Rightarrow> i32 \<Rightarrow> crash + AUDIO_HEADER" where
  "setNewDataSize g hp frameSize frames =
     (if isSlowDown g
        then Inr (hp\<lparr>data_size := (frames + (getFactor g - 1) * (frames - 1)) * frameSize\<rparr>)
      else if isSpeedUp g
        then (if frames = 0x80000000 \<and> getFactor g = - 1 then Inl DivTrap
              else Inr (hp\<lparr>data_size := (word_of_int (sint frames sdiv sint (getFactor g)) + 1) * frameSize\<rparr>))
      else Inr hp)"

definition getArgC :: "u64 \<Rightarrow> nat" where
  "getArgC g =
     (let i = 1;
          i = (if isSpeedUp g \<or> isSlowDown g \<or> isCrypt g then i + 1 else i);
          i = (if isPreserve g then i + 1 else i)
      in if getKey g \<noteq> 0 \<or> getFactor g \<noteq> 0 then i + 2 else i)"

definition store_byte :: "u8 list \<Rightarrow> nat \<Rightarrow> u8 \<Rightarrow> crash + u8 list" where
  "store_byte ap k b = (if k < length ap then Inr (ap[k := b]) else Inl OutOfBounds)"

text \<open>\<open>copyString(ap + k, p2)\<close>; the result is the number of characters copied and the buffer.\<close>

fun copyString :: "u8 list \<Rightarrow> nat \<Rightarrow> string \<Rightarrow> crash + nat \<times> u8 list" where
  "copyString ap k [] = Inr (0, ap)"
| "copyString ap k (c # cs) =
     (if c = NUL then Inr (0, ap)
      else case store_byte ap k (of_char c) of Inl e \<Rightarrow> Inl e
        | Inr ap \<Rightarrow> (case copyString ap (k + 1) cs of Inl e \<Rightarrow> Inl e
            | Inr (m, ap) \<Rightarrow> Inr (m + 1, ap)))"

function annotate_args :: "string list \<Rightarrow> nat \<Rightarrow> nat \<Rightarrow> nat \<Rightarrow> u8 list \<Rightarrow> crash + nat \<times> u8 list" where
  "annotate_args argv argc i k ap =
     (if i < argc then
        (if i < length argv then
           (case copyString ap k (argv ! i) of Inl e \<Rightarrow> Inl e
            | Inr (m, ap) \<Rightarrow>
                (if i + 1 < argc then
                   (case store_byte ap (k + m) (of_char CHR '' '') of Inl e \<Rightarrow> Inl e
                    | Inr ap \<Rightarrow> annotate_args argv argc (i + 1) (k + m + 1) ap)
                 else annotate_args argv argc (i + 1) (k + m) ap))
         else Inl NullDeref)
      else Inr (k, ap))"
  by pat_completeness auto
termination
  by (relation "measure (\<lambda>(argv, argc, i, k, ap). argc - i)") auto

fun buf_strlen :: "u8 list \<Rightarrow> crash + nat" where
  "buf_strlen [] = Inl OutOfBounds"
| "buf_strlen (b # bs) =
     (if b = 0 then Inr 0 else case buf_strlen bs of Inl e \<Rightarrow> Inl e | Inr n \<Rightarrow> Inr (n + 1))"

fun copy_bytes :: "u8 list \<Rightarrow> nat \<Rightarrow> u8 list \<Rightarrow> crash + u8 list" where
  "copy_bytes ap k [] = Inr ap"
| "copy_bytes ap k (b # bs) =
     (case store_byte ap k b of Inl e \<Rightarrow> Inl e | Inr ap \<Rightarrow> copy_bytes ap (k + 1) bs)"

text \<open>The padding loop advances both \<open>k\<close> and \<open>i\<close> and stores at \<open>k + i\<close>.\<close>

function pad_loop :: "u8 list \<Rightarrow> nat \<Rightarrow> nat \<Rightarrow> crash + nat \<times> u8 list" where
  "pad_loop ap k i =
     (if i < 8 then
        (case store_byte ap (k + i) 0 of Inl e \<Rightarrow> Inl e | Inr ap \<Rightarrow> pad_loop ap (k + 1) (i + 1))
      else Inr (k, ap))"
  by pat_completeness auto
termination
  by (relation "measure (\<lambda>(ap, k, i). 8 - i)") auto

definition getNewAnnotation :: "u64 \<Rightarrow> u8 list \<Rightarrow> string list \<Rightarrow> u8 list \<Rightarrow> crash + nat \<times> u8 list" where
  "getNewAnnotation g ap argv input_annotation =
     (case annotate_args argv (getArgC g) 0 0 ap of Inl e \<Rightarrow> Inl e
      | Inr (k, ap) \<Rightarrow>
     (case store_byte ap k 10 of Inl e \<Rightarrow> Inl e
      | Inr ap \<Rightarrow>
     (case buf_strlen input_annotation of Inl e \<Rightarrow> Inl e
      | Inr len \<Rightarrow>
     (case copy_bytes ap (k + 1) (take len input_annotation) of Inl e \<Rightarrow> Inl e
      | Inr ap \<Rightarrow> (let k = k + 1 + len in pad_loop ap k (k mod 8))))))"

subsection \<open>recode and main\<close>

definition recode_step ::
    "u64 \<Rightarrow> AUDIO_HEADER \<Rightarrow> int \<Rightarrow> int \<Rightarrow> i32 list \<times> u64 \<times> io \<Rightarrow> i32 list \<times> u64 \<times> io" where
  "recode_step g hp frames i st =
     (case st of (S, next, s) \<Rightarrow>
        if isSpeedUp g then (S, next, snd (speedUp g hp i s))
        else if isSlowDown g then (let (S, s) = slowDown g hp S i frames s in (S, next, s))
        else if isCrypt g then (let (_, next, s) = crypt hp next s in (S, next, s))
        else st)"

function recode_loop ::
    "u64 \<Rightarrow> AUDIO_HEADER \<Rightarrow> int \<Rightarrow> int \<Rightarrow> i32 list \<times> u64 \<times> io \<Rightarrow> i32 list \<times> u64 \<times> io" where
  "recode_loop g hp frames i st =
     (if i < frames then recode_loop g hp frames (i + 1) (recode_step g hp frames i st) else st)"
  by pat_completeness auto
termination
  by (relation "measure (\<lambda>(g, hp, frames, i, st). nat (frames - i))") auto

definition recode_data :: "u64 \<Rightarrow> AUDIO_HEADER \<Rightarrow> i32 \<Rightarrow> io \<Rightarrow> io" where
  "recode_data g hp frames s =
     snd (snd (recode_loop g hp (sint frames) 0 ([], mysrand (getKey g), s)))"

definition recode :: "u64 \<Rightarrow> string list \<Rightarrow> io \<Rightarrow> crash + bool \<times> io" where
  "recode g argv s =
     (let (ok, hp, s) = read_header s in if \<not> ok then Inr (False, s) else
      let (ok, input_annotation, s) = read_annotation (replicate ANNOTATION_MAX 0) (data_offset hp - 24) s
      in if \<not> ok then Inr (False, s) else
      let frameSize = channels hp * (encoding hp - 1);
          frames = data_size hp div frameSize
      in if isPreserve g then
           (case setNewDataSize g hp frameSize frames of Inl e \<Rightarrow> Inl e
            | Inr hp \<Rightarrow>
                (let (_, s) = write_header hp s;
                     (_, s) = write_annotation input_annotation (data_offset hp - 24) s
                 in Inr (True, recode_data g hp frames s)))
         else
           (case getNewAnnotation g (replicate ANNOTATION_MAX 0) argv input_annotation of Inl e \<Rightarrow> Inl e
            | Inr (newSize, output_annotation) \<Rightarrow>
                if newSize > ANNOTATION_MAX then Inr (False, s)
                else (case setNewDataSize g hp frameSize frames of Inl e \<Rightarrow> Inl e
                  | Inr hp \<Rightarrow>
                      (let hp = hp\<lparr>data_offset := 24 + of_nat newSize\<rparr>;
                           (_, s) = write_header hp s;
                           (_, s) = write_annotation output_annotation (of_nat newSize) s
                       in Inr (True, recode_data g hp frames s)))))"

datatype exit_code = EXIT_SUCCESS | EXIT_FAILURE

definition audible_main :: "string list \<Rightarrow> io \<Rightarrow> crash + exit_code \<times> io" where
  "audible_main argv s =
     (let (ok, g) = validargs (length argv) argv in
      if \<not> ok then Inr (EXIT_FAILURE, s)
      else if g AND push_bit 63 1 \<noteq> 0 then Inr (EXIT_SUCCESS, s)
      else (case recode g argv s of Inl e \<Rightarrow> Inl e
            | Inr (b, s) \<Rightarrow> Inr (if b then EXIT_SUCCESS else EXIT_FAILURE, s)))"

declare slowDown_loop.simps [simp del] annotate_args.simps [simp del] pad_loop.simps [simp del]
  recode_loop.simps [simp del]

lemma bytes_per_sample_data_size [simp]: "bytes_per_sample (hp\<lparr>data_size := x\<rparr>) = bytes_per_sample hp"
  by (simp add: bytes_per_sample_def)

subsection \<open>The key stream\<close>

text \<open>The bytes that encryption of \<open>k\<close> samples of \<open>n\<close> bytes adds, and the generator state after it.\<close>

fun ks :: "nat \<Rightarrow> nat \<Rightarrow> u64 \<Rightarrow> u8 list \<times> u64" where
  "ks 0 n next = ([], next)"
| "ks (Suc k) n next =
     (let (r, next) = myrand32 next; (bs, next) = ks k n next in (be_bytes n r @ bs, next))"

abbreviation xor_bytes :: "u8 list \<Rightarrow> u8 list \<Rightarrow> u8 list" where
  "xor_bytes \<equiv> map2 (XOR)"

lemma length_ks [simp]: "length (fst (ks k n next)) = k * n"
  by (induction k arbitrary: "next") (auto split: prod.splits simp: Let_def, metis fst_conv)

lemma ks_add:
  "ks (j + k) n next =
     (fst (ks j n next) @ fst (ks k n (snd (ks j n next))), snd (ks k n (snd (ks j n next))))"
  by (induction j arbitrary: "next") (auto split: prod.splits)

lemma be_bytes_XOR: "be_bytes n (v XOR r) = xor_bytes (be_bytes n v) (be_bytes n r)"
proof (induction n)
  case (Suc n)
  have "(ucast (drop_bit (8 * n) (v XOR r)) :: u8) =
      ucast (drop_bit (8 * n) v) XOR ucast (drop_bit (8 * n) r)"
    by (rule bit_word_eqI) (simp add: bit_simps)
  with Suc show ?case by simp
qed simp

lemma xor_bytes_append:
  "length a = length k \<Longrightarrow> xor_bytes (a @ b) (k @ l) = xor_bytes a k @ xor_bytes b l"
  by simp

lemma xor_bytes_twice: "length d \<le> length k \<Longrightarrow> xor_bytes (xor_bytes d k) k = d"
proof (induction d arbitrary: k)
  case (Cons b d)
  then show ?case by (cases k) (simp_all add: xor.assoc)
qed simp

lemma crypt_samples_bytes:
  "concat (map (be_bytes n) (fst (crypt_samples vs next))) =
     xor_bytes (concat (map (be_bytes n) vs)) (fst (ks (length vs) n next)) \<and>
   snd (crypt_samples vs next) = snd (ks (length vs) n next)"
proof (induction vs arbitrary: "next")
  case (Cons v vs)
  obtain r next' where r: "myrand32 next = (r, next')" by fastforce
  show ?case
    using Cons [of next'] by (simp add: r split_def Let_def be_bytes_XOR)
qed simp

definition data_raw :: "AUDIO_HEADER \<Rightarrow> u8 list list \<Rightarrow> bool" where
  "data_raw hp fs \<longleftrightarrow> list_all (raw_many (unat (channels hp)) (sample_raw (bytes_per_sample hp))) fs"

lemma raw_many_length: "raw_many c (sample_raw n) fb \<Longrightarrow> length fb = c * n"
proof -
  have "list_all (sample_raw n) bss \<Longrightarrow> length (concat bss) = length bss * n" for bss
    by (induction bss) (auto simp: sample_raw_def)
  then show "raw_many c (sample_raw n) fb \<Longrightarrow> length fb = c * n"
    by (auto simp: raw_many_def)
qed

lemma crypt_ok:
  assumes "raw_many c (sample_raw n) fb" "inp s = fb @ rest" "never_fails s" "n \<le> 4"
    and "c = unat (channels hp)" "n = bytes_per_sample hp"
  shows "crypt hp next s = (True, snd (ks c n next),
    s\<lparr>inp := rest, out := out s @ xor_bytes fb (fst (ks c n next))\<rparr>)"
proof -
  obtain vs where vs: "read_frame c n s = (vs, s\<lparr>inp := rest\<rparr>)" "concat (map (be_bytes n) vs) = fb"
      "length vs = c"
    using read_frame_raw [OF assms(1,2)] .
  have "concat (map (be_bytes n) (fst (crypt_samples vs next))) = xor_bytes fb (fst (ks c n next))"
      "snd (crypt_samples vs next) = snd (ks c n next)"
    using crypt_samples_bytes [of n vs "next"] vs by simp_all
  then show ?thesis
    using vs assms(3,4) by (simp add: crypt_def assms(5,6) [symmetric] split_def io_simps)
qed

lemma crypt_loop_ok:
  assumes "isCrypt g" "\<not> isSpeedUp g" "\<not> isSlowDown g" "bytes_per_sample hp \<le> 4"
    and "c = unat (channels hp)" "n = bytes_per_sample hp"
  shows "data_raw hp fs \<Longrightarrow> inp s = concat fs @ rest \<Longrightarrow> never_fails s \<Longrightarrow> frames = i + int (length fs) \<Longrightarrow>
    recode_loop g hp frames i (S, next, s) = (S, snd (ks (length fs * c) n next),
      s\<lparr>inp := rest, out := out s @ xor_bytes (concat fs) (fst (ks (length fs * c) n next))\<rparr>)"
proof (induction fs arbitrary: s i "next")
  case Nil
  then show ?case by (subst recode_loop.simps) simp
next
  case (Cons fb fs)
  have raw: "raw_many c (sample_raw n) fb" "data_raw hp fs"
    using Cons.prems(1) by (simp_all add: data_raw_def assms(5,6))
  have l: "length fb = length (fst (ks c n next))"
    using raw_many_length [OF raw(1)] by simp
  have step: "recode_step g hp frames i (S, next, s) = (S, snd (ks c n next),
      s\<lparr>inp := concat fs @ rest, out := out s @ xor_bytes fb (fst (ks c n next))\<rparr>)"
    using crypt_ok [OF raw(1), of s "concat fs @ rest" hp "next"] Cons.prems assms
    by (simp add: recode_step_def)
  have fr: "i < frames" "frames = i + 1 + int (length fs)" using Cons.prems(4) by simp_all
  have "recode_loop g hp frames i (S, next, s) = recode_loop g hp frames (i + 1) (S, snd (ks c n next),
      s\<lparr>inp := concat fs @ rest, out := out s @ xor_bytes fb (fst (ks c n next))\<rparr>)"
    using fr(1) by (subst recode_loop.simps) (simp only: step if_True)
  also have "\<dots> = (S, snd (ks (length fs * c) n (snd (ks c n next))),
      s\<lparr>inp := rest, out := out s @ xor_bytes fb (fst (ks c n next)) @
        xor_bytes (concat fs) (fst (ks (length fs * c) n (snd (ks c n next))))\<rparr>)"
    using Cons.prems(3) by (subst Cons.IH [OF raw(2) _ _ fr(2)]) simp_all
  finally show ?case
    by (simp add: ks_add [of c] xor_bytes_append [OF l])
qed

subsection \<open>The front of the file\<close>

text \<open>
  A header and annotation that \<open>read_header\<close> and \<open>read_annotation\<close> accept and read back as they
  are: a valid header without an all-ones field, and an annotation of the length the header says, a
  multiple of 8 and at most 1024, without the byte 0xff (which reads as EOF).
\<close>

definition au_ok :: "AUDIO_HEADER \<Rightarrow> u8 list \<Rightarrow> bool" where
  "au_ok hp ann \<longleftrightarrow> validHeader hp \<and> data_size hp \<noteq> - 1 \<and> sample_rate hp \<noteq> - 1 \<and>
     data_offset hp = 24 + of_nat (length ann) \<and> length ann \<le> 1024 \<and> 8 dvd length ann \<and>
     0xff \<notin> set ann"

lemma validHeader_cases:
  assumes "validHeader hp"
  shows "channels hp \<in> {1, 2}" "encoding hp \<in> {2, 3, 4, 5}"
proof -
  show "channels hp \<in> {1, 2}" using assms by (auto simp: validHeader_def validChannels_def)
  have "2 \<le> unat (encoding hp)" "unat (encoding hp) \<le> 5"
    using assms by (auto simp: validHeader_def validEncoding_def word_le_nat_alt)
  then have "unat (encoding hp) \<in> {2, 3, 4, 5}" by auto
  then have "encoding hp = of_nat 2 \<or> encoding hp = of_nat 3 \<or> encoding hp = of_nat 4 \<or> encoding hp = of_nat 5"
    by (metis insert_iff singletonD word_eq_of_nat)
  then show "encoding hp \<in> {2, 3, 4, 5}" by auto
qed

lemma valid_bytes:
  assumes "validHeader hp"
  shows "0 < bytes_per_sample hp" "bytes_per_sample hp \<le> 4"
    and "unat (channels hp * (encoding hp - 1)) = unat (channels hp) * bytes_per_sample hp"
    and "0 < unat (channels hp)"
  using validHeader_cases [OF assms] by (auto simp: bytes_per_sample_def)

lemma unat_24_len:
  "l \<le> 1024 \<Longrightarrow> unat (24 + of_nat l :: u32) = 24 + l"
  by (simp add: unat_word_ariths unat_of_nat)

lemma read_front:
  assumes "au_ok hp ann" "inp s = header_bytes hp @ ann @ rest"
  shows "read_header s = (True, hp, s\<lparr>inp := ann @ rest\<rparr>)"
    and "read_annotation (replicate ANNOTATION_MAX 0) (data_offset hp - 24) (s\<lparr>inp := ann @ rest\<rparr>) =
      (True, ann @ replicate (ANNOTATION_MAX - length ann) 0, s\<lparr>inp := rest\<rparr>)"
proof -
  have v: "validHeader hp" and off: "data_offset hp = 24 + of_nat (length ann)"
    and l: "length ann \<le> 1024" "8 dvd length ann"
    using assms(1) by (simp_all add: au_ok_def)
  have "unat (data_offset hp) = 24 + length ann"
    unfolding off using l(1) by (rule unat_24_len)
  moreover have "unat (- 1 :: u32) = 4294967295" by (simp add: unsigned_minus_1_eq_mask mask_eq_exp_minus_1)
  ultimately have o: "data_offset hp \<noteq> - 1" using l(1) by auto
  have m: "magic_number hp \<noteq> - 1" using v by (auto simp: validHeader_def validMagicNumber_def)
  have e: "encoding hp \<noteq> - 1" "channels hp \<noteq> - 1"
    using validHeader_cases [OF v] by auto
  show "read_header s = (True, hp, s\<lparr>inp := ann @ rest\<rparr>)"
    using read_header_ok [of s hp "ann @ rest"] assms m o e v
    by (cases hp) (simp add: au_ok_def read_back_def Let_def)
  have u: "unat (of_nat (length ann) :: u32) = length ann"
    using l(1) by (simp add: unat_of_nat)
  have "(of_nat (length ann) :: u32) mod 8 = 0"
    using l by (simp add: word_arith_nat_mod u dvd_imp_mod_0)
  then show "read_annotation (replicate ANNOTATION_MAX 0) (data_offset hp - 24) (s\<lparr>inp := ann @ rest\<rparr>) =
      (True, ann @ replicate (ANNOTATION_MAX - length ann) 0, s\<lparr>inp := rest\<rparr>)"
    using read_annotation_ok [of "s\<lparr>inp := ann @ rest\<rparr>" ann rest "of_nat (length ann)"
        "replicate ANNOTATION_MAX 0"] assms(1) l u off
    by (simp add: au_ok_def drop_replicate)
qed

lemma setNewDataSize_offset:
  "setNewDataSize g hp fsz frames = Inr hp' \<Longrightarrow> data_offset hp' = data_offset hp"
  by (auto simp: setNewDataSize_def split: if_splits)

lemma recode_preserve:
  assumes "isPreserve g" "au_ok hp ann" "inp s = header_bytes hp @ ann @ rest" "never_fails s"
    and "setNewDataSize g hp (channels hp * (encoding hp - 1))
           (data_size hp div (channels hp * (encoding hp - 1))) = Inr hp'"
  shows "recode g argv s = Inr (True, recode_data g hp' (data_size hp div (channels hp * (encoding hp - 1)))
    (s\<lparr>inp := rest, out := out s @ header_bytes hp' @ ann\<rparr>))"
proof -
  have l: "length ann \<le> 1024" "data_offset hp = 24 + of_nat (length ann)"
    using assms(2) by (simp_all add: au_ok_def)
  have u: "unat (of_nat (length ann) :: u32) = length ann" using l(1) by (simp add: unat_of_nat)
  show ?thesis
    using read_front [OF assms(2,3)] assms(1,4,5) setNewDataSize_offset [OF assms(5)] l u
    by (simp add: recode_def io_simps)
qed

lemma frame_count:
  assumes "validHeader hp" "unat (data_size hp) = k * (unat (channels hp) * bytes_per_sample hp)"
  shows "data_size hp div (channels hp * (encoding hp - 1)) = of_nat k"
proof -
  note b = valid_bytes [OF assms(1)]
  have "unat (data_size hp div (channels hp * (encoding hp - 1))) = k"
    unfolding unat_div_distrib b(3) assms(2) using b(1,4) by simp
  then show ?thesis by (rule word_eq_of_nat)
qed


subsection \<open>Whole runs\<close>

text \<open>
  The standard input holds a header and annotation that are read back as they are, then exactly as
  many frames as the header's data size says, then anything; the standard output is empty and
  accepts every byte.
\<close>

definition au_input :: "AUDIO_HEADER \<Rightarrow> u8 list \<Rightarrow> u8 list list \<Rightarrow> u8 list \<Rightarrow> io \<Rightarrow> bool" where
  "au_input hp ann fs rest s \<longleftrightarrow> au_ok hp ann \<and> data_raw hp fs \<and> length fs < 2 ^ 31 \<and>
     unat (data_size hp) = length fs * (unat (channels hp) * bytes_per_sample hp) \<and>
     inp s = header_bytes hp @ ann @ concat fs @ rest \<and> out s = [] \<and> never_fails s"

lemma au_inputD:
  assumes "au_input hp ann fs rest s"
  shows "au_ok hp ann" "data_raw hp fs" "inp s = header_bytes hp @ ann @ concat fs @ rest"
    and "out s = []" "never_fails s" "validHeader hp" "length fs < 2 ^ 31"
    and "data_size hp div (channels hp * (encoding hp - 1)) = of_nat (length fs)"
    and "sint (of_nat (length fs) :: i32) = int (length fs)"
  using assms frame_count [of hp "length fs"]
  by (simp_all add: au_input_def au_ok_def sint_of_nat_small)

lemma main_runs_recode:
  assumes "validargs (length argv) argv = (True, g)" "\<not> bit g 63"
  shows "audible_main argv s =
    (case recode g argv s of Inl e \<Rightarrow> Inl e
     | Inr (b, s) \<Rightarrow> Inr (if b then EXIT_SUCCESS else EXIT_FAILURE, s))"
  using assms by (simp add: audible_main_def bit_iff_and_push_bit_not_eq_0 [symmetric] del: push_bit_of_1)

lemma main_preserve:
  assumes "validargs (length argv) argv = (True, g)" "\<not> bit g 63" "isPreserve g"
    and "au_input hp ann fs rest s"
    and "setNewDataSize g hp (channels hp * (encoding hp - 1)) (of_nat (length fs)) = Inr hp'"
  shows "audible_main argv s = Inr (EXIT_SUCCESS, recode_data g hp' (of_nat (length fs))
    (s\<lparr>inp := concat fs @ rest, out := header_bytes hp' @ ann\<rparr>))"
  using recode_preserve [OF assms(3) au_inputD(1,3,5) [OF assms(4)], of hp' argv] assms(5)
    au_inputD [OF assms(4)]
  by (simp add: main_runs_recode [OF assms(1,2)])

lemma crypt_word_readers:
  assumes "list_all cstring opts" "validKeyHelper K"
    and "opts \<in> {[''-k'', K, ''-p''], [''-p'', ''-k'', K]}" "g = crypt_word opts"
  shows "validargs (length (prog # ''-c'' # opts)) (prog # ''-c'' # opts) = (True, g)"
    and "\<not> bit g 63" "isPreserve g" "isCrypt g" "\<not> isSpeedUp g" "\<not> isSlowDown g"
    and "getKey g = word_of_int (hex_val K)"
proof -
  have ok: "crypt_opts_ok opts" and p: "''-p'' \<in> set opts" and K: "cstring K" using assms by auto
  show "validargs (length (prog # ''-c'' # opts)) (prog # ''-c'' # opts) = (True, g)"
    using validargs_crypt [OF assms(1), of prog] ok assms(4) by simp
  show "\<not> bit g 63" "isPreserve g" "isCrypt g" "\<not> isSpeedUp g" "\<not> isSlowDown g"
    using crypt_word_bit [OF ok assms(1)] p by (simp_all add: reader_defs assms(4))
  show "getKey g = word_of_int (hex_val K)"
    using assms(2,3) K unfolding assms(4) crypt_word_def Let_def
    by (auto intro!: getKey_keyRecord simp: preserveRecord_bit bit_push_one simp del: push_bit_of_1)
qed

lemma run_crypt:
  assumes "list_all cstring opts" "validKeyHelper K"
    and "opts \<in> {[''-k'', K, ''-p''], [''-p'', ''-k'', K]}"
    and "au_input hp ann fs rest s"
  shows "audible_main (prog # ''-c'' # opts) s = Inr (EXIT_SUCCESS, s\<lparr>inp := rest,
    out := header_bytes hp @ ann @ xor_bytes (concat fs)
      (fst (ks (length fs * unat (channels hp)) (bytes_per_sample hp) (mysrand (word_of_int (hex_val K)))))\<rparr>)"
proof -
  define g where "g = crypt_word opts"
  note r = crypt_word_readers [OF assms(1-3) g_def]
  have hp: "setNewDataSize g hp (channels hp * (encoding hp - 1)) (of_nat (length fs)) = Inr hp"
    using r by (simp add: setNewDataSize_def)
  note i = au_inputD [OF assms(4)]
  show ?thesis
    using main_preserve [OF r(1) r(2,3) assms(4) hp, of prog] i
      crypt_loop_ok [OF r(4-6) valid_bytes(2) [OF i(6)] refl refl i(2), of
        "s\<lparr>inp := concat fs @ rest, out := header_bytes hp @ ann\<rparr>" rest "int (length fs)" 0 "[]"]
    by (simp add: recode_data_def r(7) never_fails_def)
qed


subsection \<open>Encryption\<close>

lemma data_raw_of_length:
  assumes "validHeader hp" "encoding hp \<noteq> PCM32_ENCODING"
    and "length d = k * (unat (channels hp) * bytes_per_sample hp)"
  obtains fs where "concat fs = d" "length fs = k" "data_raw hp fs"
proof -
  let ?c = "unat (channels hp)" and ?n = "bytes_per_sample hp"
  have n: "0 < ?n" "?n < 4"
    using validHeader_cases [OF assms(1)] assms(2) by (auto simp: bytes_per_sample_def)
  obtain fs where fs: "concat fs = d" "length fs = k" "list_all (\<lambda>ys. length ys = ?c * ?n) fs"
    using chunksE [OF assms(3)] .
  have "raw_many ?c (sample_raw ?n) fb" if l: "length fb = ?c * ?n" for fb
  proof -
    obtain bss where b: "concat bss = fb" "length bss = ?c" "list_all (\<lambda>ys. length ys = ?n) bss"
      using chunksE [OF l] .
    have "list_all (sample_raw ?n) bss"
      using b(3) by (rule list.pred_mono_strong) (use n in \<open>auto simp: sample_raw_def\<close>)
    then show ?thesis using b by (auto simp: raw_many_def)
  qed
  then have "data_raw hp fs"
    using fs(3) unfolding data_raw_def by (auto elim: list.pred_mono_strong)
  with fs show thesis using that by blast
qed

lemma data_raw_length:
  "data_raw hp fs \<Longrightarrow> length (concat fs) = length fs * (unat (channels hp) * bytes_per_sample hp)"
  by (induction fs) (auto simp: data_raw_def raw_many_length)

text \<open>With a key and \<open>-p\<close> a run copies the header and annotation and XORs the audio data with the
  key stream of the key: the big-endian low bytes of successive \<open>myrand32\<close> values, one per sample,
  from the seed that the key's hexadecimal digits denote.\<close>

theorem encrypt_is_stream_cipher:
  assumes "list_all cstring opts" "validKeyHelper K"
    and "opts \<in> {[''-k'', K, ''-p''], [''-p'', ''-k'', K]}"
    and "au_input hp ann fs rest s"
  shows "audible_main (prog # ''-c'' # opts) s = Inr (EXIT_SUCCESS, s\<lparr>inp := rest,
    out := header_bytes hp @ ann @ xor_bytes (concat fs)
      (fst (ks (length fs * unat (channels hp)) (bytes_per_sample hp) (mysrand (word_of_int (hex_val K)))))\<rparr>)"
  by (rule run_crypt [OF assms])

text \<open>A small file: 16-bit mono at 8 kHz, an annotation of eight zeros and two frames.\<close>

definition demo_header :: AUDIO_HEADER where
  "demo_header = \<lparr>magic_number = AUDIO_MAGIC, data_offset = 32, data_size = 4, encoding = 3,
     sample_rate = 8000, channels = 1\<rparr>"

definition demo_io :: io where
  "demo_io = \<lparr>inp = header_bytes demo_header @ replicate 8 0 @ [0, 10, 0, 20], out = [], wfail = \<lambda>_. False\<rparr>"

lemma demo_sizes: "bytes_per_sample demo_header = 2" "unat (channels demo_header) = 1"
  by (simp_all add: demo_header_def bytes_per_sample_def)

lemma demo_input: "au_input demo_header (replicate 8 0) [[0, 10], [0, 20]] [] demo_io"
proof -
  have "raw_many 1 (sample_raw 2) [a, b]" for a b
    unfolding raw_many_def by (rule exI [of _ "[[a, b]]"]) (simp add: sample_raw_def eval_nat_numeral)
  then show ?thesis
    by (simp add: au_input_def au_ok_def data_raw_def demo_header_def demo_io_def validHeader_def
        validMagicNumber_def validDataOffset_def validEncoding_def validChannels_def never_fails_def
        bytes_per_sample_def)
qed

theorem encrypt_is_stream_cipher_witness:
  "\<exists>s'. audible_main [''audible'', ''-c'', ''-k'', ''C0FFEE'', ''-p''] demo_io = Inr (EXIT_SUCCESS, s')
     \<and> out s' = header_bytes demo_header @ replicate 8 0 @
         xor_bytes [0, 10, 0, 20] (fst (ks 2 2 (mysrand 0xC0FFEE)))"
proof -
  have "validKeyHelper ''C0FFEE''" by (simp add: validKeyHelper_def c_char_def)
  moreover have "hex_val ''C0FFEE'' = 0xC0FFEE" by (simp add: hexToInt_def c_char_def)
  ultimately show ?thesis
    using encrypt_is_stream_cipher [of "[''-k'', ''C0FFEE'', ''-p'']" "''C0FFEE''", OF _ _ _ demo_input, of "''audible''"]
    by (simp add: demo_sizes numeral_2_eq_2 [symmetric] del: ks.simps replicate.simps)
qed

text \<open>C5: decryption: running the program on its own output with the same key gives back the input
  file, for 8, 16 and 24 bit samples, with one or two channels.\<close>

theorem encrypt_decrypt:
  assumes "list_all cstring opts" "validKeyHelper K"
    and "opts \<in> {[''-k'', K, ''-p''], [''-p'', ''-k'', K]}"
    and "au_input hp ann fs rest s" "encoding hp \<noteq> PCM32_ENCODING"
    and "audible_main (prog # ''-c'' # opts) s = Inr (e, s')"
    and "inp t = out s'" "out t = []" "never_fails t"
  shows "e = EXIT_SUCCESS \<and> audible_main (prog # ''-c'' # opts) t =
    Inr (EXIT_SUCCESS, t\<lparr>inp := [], out := header_bytes hp @ ann @ concat fs\<rparr>)"
proof -
  let ?K = "fst (ks (length fs * unat (channels hp)) (bytes_per_sample hp) (mysrand (word_of_int (hex_val K))))"
  have r: "e = EXIT_SUCCESS" "out s' = header_bytes hp @ ann @ xor_bytes (concat fs) ?K"
    using assms(6) unfolding run_crypt [OF assms(1-4)] by auto
  note i = au_inputD [OF assms(4)]
  have l: "length (concat fs) = length fs * (unat (channels hp) * bytes_per_sample hp)"
    by (rule data_raw_length [OF i(2)])
  then have "length (xor_bytes (concat fs) ?K) = length fs * (unat (channels hp) * bytes_per_sample hp)"
    by simp
  then obtain fs' where fs': "concat fs' = xor_bytes (concat fs) ?K" "length fs' = length fs" "data_raw hp fs'"
    using data_raw_of_length [OF i(6) assms(5)] by blast
  have "au_input hp ann fs' [] t"
    using assms(4,7-9) r(2) fs' by (simp add: au_input_def)
  from run_crypt [OF assms(1-3) this, of prog] show ?thesis
    using r(1) fs'(1,2) xor_bytes_twice [of "concat fs" ?K] l by simp
qed

theorem encrypt_decrypt_witness:
  "\<exists>s' t'. audible_main [''audible'', ''-c'', ''-p'', ''-k'', ''C0FFEE''] demo_io = Inr (EXIT_SUCCESS, s')
     \<and> audible_main [''audible'', ''-c'', ''-p'', ''-k'', ''C0FFEE''] \<lparr>inp = out s', out = [], wfail = \<lambda>_. False\<rparr>
       = Inr (EXIT_SUCCESS, t') \<and> out t' = inp demo_io"
proof -
  have K: "validKeyHelper ''C0FFEE''" by (simp add: validKeyHelper_def c_char_def)
  have c: "list_all cstring [''-p'', ''-k'', ''C0FFEE'']" by simp
  obtain s' where s': "audible_main [''audible'', ''-c'', ''-p'', ''-k'', ''C0FFEE''] demo_io = Inr (EXIT_SUCCESS, s')"
    using run_crypt [OF c K _ demo_input, of "''audible''"] by simp
  show ?thesis
    using encrypt_decrypt [OF c K _ demo_input _ s', of "\<lparr>inp = out s', out = [], wfail = \<lambda>_. False\<rparr>"] s'
    by (simp add: demo_header_def demo_io_def never_fails_def)
qed


subsection \<open>Speeding up\<close>

text \<open>The frames whose index, counted from \<open>i\<close>, is a multiple of the factor.\<close>

fun every :: "nat \<Rightarrow> nat \<Rightarrow> 'a list \<Rightarrow> 'a list" where
  "every f i [] = []"
| "every f i (x # xs) = (if i mod f = 0 then x # every f (i + 1) xs else every f (i + 1) xs)"

lemma every_append: "every f i (xs @ ys) = every f i xs @ every f (i + length xs) ys"
  by (induction xs arbitrary: i) auto

lemma length_every_0:
  assumes "xs \<noteq> []"
  shows "length (every f 0 xs) = (length xs - 1) div f + 1"
  using assms
proof (induction xs rule: rev_induct)
  case (snoc x xs)
  show ?case
  proof (cases "length xs")
    case (Suc m)
    then have "length (every f 0 xs) = m div f + 1" using snoc.IH by (cases xs) simp_all
    then show ?thesis using Suc by (simp add: every_append div_Suc)
  qed simp
qed simp

lemma speed_word_readers:
  assumes "list_all cstring opts" "m = ''-u'' \<and> k = 62 \<or> m = ''-d'' \<and> k = 61" "validFactorHelper F"
    and "opts \<in> {[''-f'', F, ''-p''], [''-p'', ''-f'', F]}" "g = speed_word k opts"
    and "sint (charToInt F) \<le> 512"
  shows "validargs (length (prog # m # opts)) (prog # m # opts) = (True, g)"
    and "\<not> bit g 63" "isPreserve g" "\<not> isCrypt g" "isSpeedUp g \<longleftrightarrow> k = 62" "isSlowDown g \<longleftrightarrow> k = 61"
    and "getFactor g = charToInt F"
proof -
  have ok: "speed_opts_ok opts" and p: "''-p'' \<in> set opts" using assms(3,4) by auto
  show "validargs (length (prog # m # opts)) (prog # m # opts) = (True, g)"
    using validargs_speed [OF assms(1,2), of prog] ok assms(5) by simp
  show "\<not> bit g 63" "isPreserve g" "\<not> isCrypt g" "isSpeedUp g \<longleftrightarrow> k = 62" "isSlowDown g \<longleftrightarrow> k = 61"
    using speed_word_bit [OF ok, of _ k] p assms(2) by (auto simp: reader_defs assms(5))
  show "getFactor g = charToInt F"
    using assms(2,4,6) unfolding assms(5) speed_word_def Let_def
    by (auto intro!: getFactor_factorRecord [THEN trans] assms(3)
        simp: preserveRecord_bit bit_push_one simp del: push_bit_of_1)
qed

lemma speed_loop_ok:
  assumes "isSpeedUp g" "sint (getFactor g) = int f" "0 < f" "bytes_per_sample hp \<le> 4"
  shows "data_raw hp fs \<Longrightarrow> inp s = concat fs @ rest \<Longrightarrow> never_fails s \<Longrightarrow> frames = int (i + length fs) \<Longrightarrow>
    recode_loop g hp frames (int i) (S, next, s) =
      (S, next, s\<lparr>inp := rest, out := out s @ concat (every f i fs)\<rparr>)"
proof (induction fs arbitrary: s i)
  case Nil
  then show ?case by (subst recode_loop.simps) simp
next
  case (Cons fb fs)
  have raw: "raw_many (unat (channels hp)) (sample_raw (bytes_per_sample hp)) fb" "data_raw hp fs"
    using Cons.prems(1) by (simp_all add: data_raw_def)
  obtain vs where vs: "read_frame (unat (channels hp)) (bytes_per_sample hp) s = (vs, s\<lparr>inp := concat fs @ rest\<rparr>)"
      "concat (map (be_bytes (bytes_per_sample hp)) vs) = fb"
    using read_frame_raw [OF raw(1), of s "concat fs @ rest"] Cons.prems(2) by auto
  let ?s = "s\<lparr>inp := concat fs @ rest, out := out s @ (if i mod f = 0 then fb else [])\<rparr>"
  have m: "int i smod int f = 0 \<longleftrightarrow> i mod f = 0"
    by (simp add: smod_int_alt_def sgn_if zmod_int [symmetric])
  have step: "recode_step g hp frames (int i) (S, next, s) = (S, next, ?s)"
    using Cons.prems(3) assms vs m by (simp add: recode_step_def speedUp_def io_simps)
  have fr: "int i < frames" "frames = int (i + 1 + length fs)" using Cons.prems(4) by simp_all
  have "recode_loop g hp frames (int i) (S, next, s) = recode_loop g hp frames (int (i + 1)) (S, next, ?s)"
    using fr(1) by (subst recode_loop.simps) (simp add: step add.commute)
  also have "\<dots> = (S, next, ?s\<lparr>inp := rest, out := out ?s @ concat (every f (i + 1) fs)\<rparr>)"
    using Cons.prems(3) by (intro Cons.IH [OF raw(2) _ _ fr(2)]) simp_all
  finally show ?case by simp
qed


text \<open>C11: with \<open>-u -f FACTOR -p\<close> and a factor from 1 to 512 the output holds exactly the input frames
  whose index is a multiple of the factor, in order; and the data size written in the header is the
  size of those frames unless the factor divides the number of frames, when it is one frame too
  large.\<close>

theorem speed_up_keeps_multiples:
  assumes "list_all cstring opts" "validFactorHelper F"
    and "opts \<in> {[''-f'', F, ''-p''], [''-p'', ''-f'', F]}"
    and "sint (charToInt F) = int f" "f \<le> 512"
    and "au_input hp ann fs rest s" "fs \<noteq> []"
  shows "\<exists>hp' s'. audible_main (prog # ''-u'' # opts) s = Inr (EXIT_SUCCESS, s') \<and>
    out s' = header_bytes hp' @ ann @ concat (every f 0 fs) \<and>
    hp' = hp\<lparr>data_size := of_nat ((length (every f 0 fs) + (if f dvd length fs then 1 else 0))
             * (unat (channels hp) * bytes_per_sample hp))\<rparr>"
proof -
  define g where "g = speed_word 62 opts"
  have m: "''-u'' = ''-u'' \<and> (62 :: nat) = 62 \<or> ''-u'' = ''-d'' \<and> (62 :: nat) = 61" by simp
  note r = speed_word_readers [OF assms(1) m assms(2,3) g_def, unfolded assms(4)]
  have f: "sint (getFactor g) = int f" "0 < f"
    using r(7) assms(2,4,5) by (auto simp: validFactorHelper_def Let_def split: if_splits)
  note i = au_inputD [OF assms(6)] and v = valid_bytes [OF au_inputD(6) [OF assms(6)]]
  obtain k where k: "length fs = Suc k" using assms(7) by (cases fs) auto
  have "length (every f 0 fs) + (if f dvd length fs then 1 else 0) = length fs div f + 1"
    using length_every_0 [OF assms(7), of f] by (simp add: k div_Suc dvd_eq_mod_eq_0)
  moreover have "getFactor g \<noteq> - 1" using f by auto
  moreover have "sint (of_nat (length fs) :: i32) sdiv sint (getFactor g) = int (length fs div f)"
    unfolding i(9) f(1) by (simp add: signed_divide_int_def sgn_if zdiv_int)
  moreover have "channels hp * (encoding hp - 1) = of_nat (unat (channels hp) * bytes_per_sample hp)"
    by (rule word_eq_of_nat [OF v(3)])
  ultimately obtain hp' where hp': "setNewDataSize g hp (channels hp * (encoding hp - 1)) (of_nat (length fs)) = Inr hp'"
      "hp' = hp\<lparr>data_size := of_nat ((length (every f 0 fs) + (if f dvd length fs then 1 else 0))
             * (unat (channels hp) * bytes_per_sample hp))\<rparr>"
    using r(5,6) assms(5) by (simp add: setNewDataSize_def distrib_right)
  have raw: "data_raw hp' fs" "bytes_per_sample hp' \<le> 4"
    using i(2) v(2) by (simp_all add: hp'(2) data_raw_def bytes_per_sample_def)
  show ?thesis
    using main_preserve [OF r(1) r(2,3) assms(6) hp'(1), of prog] r(5) assms(5) i
      speed_loop_ok [OF _ f raw(2,1), of "s\<lparr>inp := concat fs @ rest, out := header_bytes hp' @ ann\<rparr>"
        rest "int (length fs)" 0 "[]"] hp'(2)
    by (auto simp: recode_data_def never_fails_def)
qed

theorem speed_up_keeps_multiples_witness:
  "\<exists>s'. audible_main [''audible'', ''-u'', ''-f'', ''2'', ''-p''] demo_io = Inr (EXIT_SUCCESS, s') \<and>
     out s' = header_bytes (demo_header\<lparr>data_size := 4\<rparr>) @ replicate 8 0 @ [0, 10]"
proof -
  have e: "charToInt ''2'' = 2" by (simp add: charToInt_def c_char_def)
  have v: "validFactorHelper ''2''" by (simp add: validFactorHelper_def numbersOnly_def e c_char_def)
  show ?thesis
    using speed_up_keeps_multiples [of "[''-f'', ''2'', ''-p'']" "''2''" 2, OF _ _ _ _ _ demo_input, of "''audible''"] v
    by (simp add: e demo_sizes)
qed


subsection \<open>Slowing down\<close>

text \<open>
  The specification: between two frames the \<open>f - 1\<close> interpolated ones, channel by channel. A
  file's data is the bytes of its frames.
\<close>

abbreviation interp :: "nat \<Rightarrow> i32 list \<Rightarrow> i32 list \<Rightarrow> nat \<Rightarrow> i32 list" where
  "interp f S T k \<equiv> map2 (\<lambda>x y. getInterpolation x y (of_nat k) (of_nat f)) S T"

fun slow_frames :: "nat \<Rightarrow> i32 list list \<Rightarrow> i32 list list" where
  "slow_frames f [] = []"
| "slow_frames f [S] = [S]"
| "slow_frames f (S # T # vss) = S # map (interp f S T) [1..<f] @ slow_frames f (T # vss)"

definition frame_bytes :: "nat \<Rightarrow> i32 list \<Rightarrow> u8 list" where
  "frame_bytes n vs = concat (map (be_bytes n) vs)"

definition frames_ok :: "AUDIO_HEADER \<Rightarrow> i32 list list \<Rightarrow> bool" where
  "frames_ok hp vss \<longleftrightarrow> list_all (\<lambda>vs. length vs = unat (channels hp) \<and>
     list_all (sample_ok (bytes_per_sample hp)) vs) vss"

lemma length_slow_frames:
  assumes "vss \<noteq> []" "0 < f"
  shows "length (slow_frames f vss) = length vss + (f - 1) * (length vss - 1)"
proof -
  obtain m where "f = Suc m" using assms(2) gr0_conv_Suc by auto
  then show ?thesis
    using assms(1) by (induction f vss rule: slow_frames.induct) simp_all
qed

lemma slow_frames_channels:
  "list_all (\<lambda>vs. length vs = c) vss \<Longrightarrow> list_all (\<lambda>vs. length vs = c) (slow_frames f vss)"
proof (induction f vss rule: slow_frames.induct)
  case (3 f S T vss)
  have "list_all (\<lambda>vs. length vs = c) (map (interp f S T) [1..<f])"
    using "3.prems" unfolding list.pred_map by (simp add: comp_def list_all_iff del: set_upt)
  with 3 show ?case by simp
qed simp_all

lemma length_frame_bytes: "length (frame_bytes n vs) = length vs * n"
  by (induction vs) (auto simp: frame_bytes_def)

lemma frames_bytes_length:
  "list_all (\<lambda>vs. length vs = c) vss \<Longrightarrow> length (concat (map (frame_bytes n) vss)) = length vss * (c * n)"
  by (induction vss) (auto simp: length_frame_bytes)

lemma frames_ok_raw:
  assumes "frames_ok hp vss"
  shows "data_raw hp (map (frame_bytes (bytes_per_sample hp)) vss)"
proof -
  have "raw_many (unat (channels hp)) (sample_raw (bytes_per_sample hp)) (frame_bytes (bytes_per_sample hp) vs)"
    if "length vs = unat (channels hp)" "list_all (sample_ok (bytes_per_sample hp)) vs" for vs
    unfolding raw_many_def frame_bytes_def
    using that by (intro exI [of _ "map (be_bytes (bytes_per_sample hp)) vs"])
      (auto simp: list_all_iff sample_ok_raw)
  then show ?thesis
    using assms unfolding data_raw_def frames_ok_def by (induction vss) auto
qed

lemma read_frame_samples:
  assumes "list_all (sample_ok n) vs" "inp s = frame_bytes n vs @ rest"
  shows "read_frame (length vs) n s = (vs, s\<lparr>inp := rest\<rparr>)"
  using pcm.dec_many_enc [OF assms(1)] assms(2) by (simp add: read_frame_dec_many frame_bytes_def)

lemma slowDown_loop_ok:
  assumes "n \<le> 4"
  shows "never_fails s \<Longrightarrow> slowDown_loop n S T (int k) (int f) s =
    s\<lparr>out := out s @ concat (map (frame_bytes n) (map (interp f S T) [k..<f]))\<rparr>"
proof (induction "f - k" arbitrary: k s)
  case 0
  then show ?case by (subst slowDown_loop.simps) simp
next
  case (Suc d)
  let ?s = "s\<lparr>out := out s @ frame_bytes n (interp f S T k)\<rparr>"
  have "slowDown_loop n S T (int k) (int f) s = slowDown_loop n S T (int (Suc k)) (int f) ?s"
    using Suc.hyps(2) Suc.prems assms
    by (subst slowDown_loop.simps) (simp add: io_simps frame_bytes_def add.commute)
  also have "\<dots> = ?s\<lparr>out := out ?s @ concat (map (frame_bytes n) (map (interp f S T) [Suc k..<f]))\<rparr>"
    using Suc by (intro Suc.hyps(1)) (simp_all add: never_fails_def)
  finally show ?case
    using Suc.hyps(2) by (simp add: upt_conv_Cons)
qed

lemma slowDown_in_hand:
  assumes "sint (getFactor g) = int f" "bytes_per_sample hp \<le> 4" "never_fails s"
    and "list_all (sample_ok (bytes_per_sample hp)) T" "length T = unat (channels hp)"
    and "i + 1 < frames \<Longrightarrow> inp s = frame_bytes (bytes_per_sample hp) T @ rest"
    and "i = 0 \<Longrightarrow> read_frame (unat (channels hp)) (bytes_per_sample hp) s0 = (S, s)"
    and "i \<noteq> 0 \<Longrightarrow> s0 = s \<and> S0 = S"
  shows "slowDown g hp S0 i frames s0 =
    (if i + 1 < frames
     then (T, s\<lparr>inp := rest, out := out s @
        concat (map (frame_bytes (bytes_per_sample hp)) (S # map (interp f S T) [1..<f]))\<rparr>)
     else (S, s\<lparr>out := out s @ frame_bytes (bytes_per_sample hp) S\<rparr>))"
proof -
  let ?n = "bytes_per_sample hp" and ?c = "unat (channels hp)"
  have S: "(if i = 0 then read_frame ?c ?n s0 else (S0, s0)) = (S, s)" using assms(7,8) by simp
  have w: "write_frame S ?n s = (True, s\<lparr>out := out s @ frame_bytes ?n S\<rparr>)"
    using assms(2,3) by (simp add: io_simps frame_bytes_def)
  show ?thesis
  proof (cases "i + 1 < frames")
    case True
    let ?s = "s\<lparr>inp := rest, out := out s @ frame_bytes ?n S\<rparr>"
    have "read_frame ?c ?n (s\<lparr>out := out s @ frame_bytes ?n S\<rparr>) = (T, ?s)"
      using read_frame_samples [OF assms(4), of "s\<lparr>out := out s @ frame_bytes ?n S\<rparr>" rest]
        assms(5,6) True by simp
    moreover have "never_fails ?s" using assms(3) by (simp add: never_fails_def)
    ultimately show ?thesis
      using True slowDown_loop_ok [OF assms(2), of ?s S T 1 f]
      by (simp add: slowDown_def S w assms(1) copyFrame_def Let_def)
  qed (simp add: slowDown_def S w assms(1) Let_def)
qed


lemma slow_loop_ok:
  assumes "\<not> isSpeedUp g" "isSlowDown g" "sint (getFactor g) = int f" "bytes_per_sample hp \<le> 4"
  shows "frames_ok hp (S # vss) \<Longrightarrow> inp s = concat (map (frame_bytes (bytes_per_sample hp)) vss) @ rest \<Longrightarrow>
    never_fails s \<Longrightarrow> 0 \<le> i \<Longrightarrow> frames = i + 1 + int (length vss) \<Longrightarrow>
    (i = 0 \<Longrightarrow> read_frame (unat (channels hp)) (bytes_per_sample hp) s0 = (S, s)) \<Longrightarrow>
    (i \<noteq> 0 \<Longrightarrow> s0 = s \<and> S0 = S) \<Longrightarrow>
    snd (snd (recode_loop g hp frames i (S0, next, s0))) =
      s\<lparr>inp := rest, out := out s @ concat (map (frame_bytes (bytes_per_sample hp)) (slow_frames f (S # vss)))\<rparr>"
proof (induction vss arbitrary: S s i S0 s0)
  case Nil
  have S: "list_all (sample_ok (bytes_per_sample hp)) S" "length S = unat (channels hp)"
    using Nil.prems(1) by (simp_all add: frames_ok_def)
  have "slowDown g hp S0 i frames s0 = (S, s\<lparr>out := out s @ frame_bytes (bytes_per_sample hp) S\<rparr>)"
    using slowDown_in_hand [OF assms(3,4) Nil.prems(3) S _ Nil.prems(6,7), where frames = frames and rest = rest] Nil.prems(5)
    by simp
  then show ?case
    using Nil.prems(2,5) assms(1,2)
    by (subst recode_loop.simps, subst recode_loop.simps) (simp add: recode_step_def)
next
  case (Cons T vss)
  let ?fb = "frame_bytes (bytes_per_sample hp)"
  have T: "list_all (sample_ok (bytes_per_sample hp)) T" "length T = unat (channels hp)"
    and ok: "frames_ok hp (T # vss)"
    using Cons.prems(1) by (simp_all add: frames_ok_def)
  let ?s = "s\<lparr>inp := concat (map ?fb vss) @ rest,
    out := out s @ concat (map ?fb (S # map (interp f S T) [1..<f]))\<rparr>"
  have "slowDown g hp S0 i frames s0 = (T, ?s)"
    using slowDown_in_hand [OF assms(3,4) Cons.prems(3) T _ Cons.prems(6,7), where frames = frames
        and rest = "concat (map ?fb vss) @ rest"] Cons.prems(2,5)
    by simp
  then have "recode_step g hp frames i (S0, next, s0) = (T, next, ?s)"
    using assms(1,2) by (simp add: recode_step_def)
  then have "recode_loop g hp frames i (S0, next, s0) = recode_loop g hp frames (i + 1) (T, next, ?s)"
    using Cons.prems(5) by (subst recode_loop.simps) simp
  moreover have "snd (snd (recode_loop g hp frames (i + 1) (T, next, ?s))) =
      ?s\<lparr>inp := rest, out := out ?s @ concat (map ?fb (slow_frames f (T # vss)))\<rparr>"
    using Cons.prems(3-5) by (intro Cons.IH [OF ok]) (simp_all add: never_fails_def)
  ultimately show ?case by simp
qed




subsection \<open>Interpolation\<close>

lemma sdiv_between:
  fixes d :: int
  assumes "0 \<le> k" "k \<le> N" "0 < N"
  shows "min 0 d \<le> (d * k) sdiv N \<and> (d * k) sdiv N \<le> max 0 d"
proof -
  have q: "0 \<le> (a * k) div N" "(a * k) div N \<le> a" if "0 \<le> a" for a
  proof -
    have "a * k \<le> a * N" using assms that by (intro mult_left_mono)
    then show "(a * k) div N \<le> a" using assms by (metis less_irrefl nonzero_mult_div_cancel_right zdiv_mono1)
    show "0 \<le> (a * k) div N" using assms that by (simp add: pos_imp_zdiv_nonneg_iff)
  qed
  show ?thesis
  proof (cases "0 \<le> d")
    case True
    then show ?thesis using q [OF True] assms by (auto simp: signed_divide_int_def sgn_if zero_less_mult_iff)
  next
    case False
    then show ?thesis
      using q [of "- d"] assms by (auto simp: signed_divide_int_def sgn_if zero_less_mult_iff abs_mult mult_less_0_iff)
  qed
qed

lemma getInterpolation_sint:
  assumes "- (2 ^ 15) \<le> sint S" "sint S < 2 ^ 15" "- (2 ^ 15) \<le> sint T" "sint T < 2 ^ 15"
    and "0 \<le> sint k" "sint k \<le> sint N" "0 < sint N" "sint N \<le> 1024"
  shows "sint (getInterpolation S T k N) = sint S + ((sint T - sint S) * sint k) sdiv sint N"
proof -
  have d: "\<bar>sint T - sint S\<bar> \<le> 2 ^ 16" using assms by auto
  have "\<bar>(sint T - sint S) * sint k\<bar> \<le> 2 ^ 16 * 1024"
    unfolding abs_mult using d assms by (intro mult_mono) auto
  then have p: "sint ((T - S) * k) = (sint T - sint S) * sint k"
    using d by (simp add: sint_word_ariths signed_take_bit_int_eq_self)
  have "\<bar>((sint T - sint S) * sint k) sdiv sint N\<bar> \<le> 2 ^ 16"
    using sdiv_between [OF assms(5-7), of "sint T - sint S"] d by auto
  then show ?thesis
    using assms(1,2) unfolding getInterpolation_def p
    by (simp add: sint_word_ariths signed_take_bit_int_eq_self signed_of_int)
qed

text \<open>C28: for 8 and 16 bit samples and the interpolation steps of any legal factor the interpolated
  value is the exact rational interpolation rounded towards \<open>S\<close>, without overflow, and it lies
  between the two samples, so it fits the sample width again.\<close>

theorem interpolation_between:
  assumes "- (2 ^ 15) \<le> sint S" "sint S < 2 ^ 15" "- (2 ^ 15) \<le> sint T" "sint T < 2 ^ 15"
    and "0 < sint k" "sint k < sint N" "sint N \<le> 1024"
  shows "sint (getInterpolation S T k N) = sint S + ((sint T - sint S) * sint k) sdiv sint N \<and>
    min (sint S) (sint T) \<le> sint (getInterpolation S T k N) \<and>
    sint (getInterpolation S T k N) \<le> max (sint S) (sint T)"
  using getInterpolation_sint [OF assms(1-4), of k N] sdiv_between [of "sint k" "sint N" "sint T - sint S"]
    assms(5-7) by (auto simp: min_def max_def split: if_splits)

theorem interpolation_between_witness:
  "sint (getInterpolation (- 32768) 32767 1 2) = - 1"
proof -
  have "(65535 :: int) sdiv 2 = 32767" by (simp add: signed_divide_int_def)
  then show ?thesis using interpolation_between [of "- 32768" 32767 1 2] by simp
qed

text \<open>For 24 bit samples the product overflows: between 0 and the greatest sample, the last of
  the 511 steps of factor 512 gives a negative value.\<close>

theorem interpolation_overflows_24:
  "sint (getInterpolation 0 8388607 511 512) < 0"
  by (simp add: getInterpolation_def signed_divide_int_def)


subsection \<open>Failures\<close>

lemma copyString_ok:
  "cstring cs \<Longrightarrow> k + length cs \<le> length ap \<Longrightarrow>
   copyString ap k cs = Inr (length cs, take k ap @ map of_char cs @ drop (k + length cs) ap)"
proof (induction cs arbitrary: k ap)
  case (Cons c cs)
  then show ?case
    by (simp add: store_byte_def take_Suc_conv_app_nth nth_list_update split: if_splits)
qed simp

lemma getStdinInt_out: "out (snd (getStdinInt n s)) = out s"
proof -
  have "out (snd (getStdinInt_loop n acc s)) = out s" for acc
    by (induction n acc s rule: getStdinInt_loop.induct)
       (auto simp: getchar_def Let_def split: list.splits prod.splits)
  then show ?thesis by (simp add: getStdinInt_def)
qed

lemma read_header_out: "out (snd (snd (read_header s))) = out s"
  unfolding read_header_def Let_def split_def by (simp add: getStdinInt_out)

lemma read_annotation_out: "out (snd (snd (read_annotation ap n s))) = out s"
proof -
  have "out (snd (snd (read_annotation_loop ap i n s))) = out s" for i n
  proof (induction ap i n s rule: read_annotation_loop.induct)
    case (1 ap i n s)
    then show ?case
      by (subst read_annotation_loop.simps)
         (auto simp: getchar_def Let_def split: list.splits)
  qed
  then show ?thesis by (simp add: read_annotation_def)
qed

text \<open>C29: a run whose header is invalid, or whose annotation is too long, of a length that is not a
  multiple of 8 or cut short, ends with \<open>EXIT_FAILURE\<close> and writes nothing; so does a run with a
  command line that is not accepted, which does not even read.\<close>

theorem bad_input_writes_nothing:
  assumes "\<not> fst (validargs (length argv) argv) \<or>
    \<not> bit (snd (validargs (length argv) argv)) 63 \<and>
    (read_header s = (False, hp, s1) \<or> read_header s = (True, hp, s1) \<and>
       \<not> fst (read_annotation (replicate ANNOTATION_MAX 0) (data_offset hp - 24) s1))"
  shows "\<exists>s'. audible_main argv s = Inr (EXIT_FAILURE, s') \<and> out s' = out s"
proof -
  obtain ok g where g: "validargs (length argv) argv = (ok, g)" by fastforce
  show ?thesis
  proof (cases ok)
    case False
    then show ?thesis by (simp add: audible_main_def g)
  next
    case True
    have "out s1 = out s"
      using assms g True read_header_out [of s] by auto
    then have "\<exists>s'. recode g argv s = Inr (False, s') \<and> out s' = out s"
      using assms g True read_annotation_out [of "replicate ANNOTATION_MAX 0" "data_offset hp - 24" s1]
      by (auto simp: recode_def Let_def split: prod.splits)
    then show ?thesis
      using main_runs_recode [of argv g s] assms g True by auto
  qed
qed

theorem bad_input_writes_nothing_witness:
  "\<exists>s'. audible_main [''audible'', ''-x''] demo_io = Inr (EXIT_FAILURE, s') \<and> out s' = []"
proof -
  have "\<not> fst (validargs (length [''audible'', ''-x'']) [''audible'', ''-x''])"
    by (simp add: validargs_def compareFlags_def)
  then show ?thesis
    using bad_input_writes_nothing [of "[''audible'', ''-x'']" demo_io demo_header demo_io]
    by (simp add: demo_io_def)
qed

text \<open>\<open>-u\<close> and \<open>-d\<close> with no further option, a legal command line, always run into the NULL that
  ends \<open>argv\<close>: an absent factor reads as -1, so \<open>getArgC\<close> counts two arguments that are not there.\<close>

theorem missing_factor_null_dereference:
  assumes "m = ''-u'' \<or> m = ''-d''" "cstring prog" "length prog \<le> 1000"
    and "au_ok hp ann" "inp s = header_bytes hp @ ann @ rest"
  shows "audible_main [prog, m] s = Inl NullDeref"
proof -
  obtain k where k: "m = ''-u'' \<and> k = (62 :: nat) \<or> m = ''-d'' \<and> k = 61" using assms(1) by auto
  define g where "g = speed_word k []"
  have v: "validargs (length [prog, m]) [prog, m] = (True, g)"
    using validargs_speed [OF _ k, of "[]" prog] by (simp add: g_def)
  have b: "\<not> bit g 63" "\<not> isPreserve g" "isSpeedUp g \<or> isSlowDown g"
    using speed_word_bit [of "[]" _ k] k by (auto simp: reader_defs g_def)
  have "bit g 57" using k unfolding g_def speed_word_def Let_def by (simp add: factorRecord0_bit)
  then have a: "getArgC g = 4"
    using b by (auto simp: getArgC_def getFactor_def and_one_bit')
  have m: "cstring m" "length m = 2" using assms(1) by auto
  obtain ap where c: "copyString (replicate ANNOTATION_MAX 0) 0 prog = Inr (length prog, ap)"
      "length ap = ANNOTATION_MAX"
    using copyString_ok [OF assms(2), of 0 "replicate ANNOTATION_MAX 0"] assms(3) by simp
  obtain ap2 where c2: "copyString (ap[length prog := of_char CHR '' '']) (length prog + 1) m = Inr (2, ap2)"
      "length ap2 = ANNOTATION_MAX"
    using copyString_ok [OF m(1), of "length prog + 1" "ap[length prog := of_char CHR '' '']"]
      m(2) c(2) assms(3) by simp
  have "annotate_args [prog, m] 4 2 (length prog + 1 + 2 + 1) x = Inl NullDeref" for x
    by (simp add: annotate_args.simps)
  then have "annotate_args [prog, m] 4 1 (length prog + 1) (ap[length prog := of_char CHR '' '']) = Inl NullDeref"
    using c2 assms(3) by (subst annotate_args.simps) (simp add: store_byte_def numeral_2_eq_2)
  then have "annotate_args [prog, m] 4 0 0 (replicate ANNOTATION_MAX 0) = Inl NullDeref"
    using c assms(3) by (subst annotate_args.simps) (simp add: store_byte_def)
  then have "recode g [prog, m] s = Inl NullDeref"
    using read_front [OF assms(4,5)] b(2) by (simp add: recode_def getNewAnnotation_def a)
  then show ?thesis using main_runs_recode [OF v b(1)] by simp
qed

theorem missing_factor_null_dereference_witness:
  "audible_main [''audible'', ''-u''] demo_io = Inl NullDeref"
  using missing_factor_null_dereference [of "''-u''" "''audible''" demo_header "replicate 8 0" demo_io "[0, 10, 0, 20]"]
    demo_input by (simp add: au_input_def demo_io_def)

end
