(* ===== verification/Ring.thy ===== *)
theory Ring
  imports Prelude
begin

section \<open>Circular doubly linked lists with a sentinel\<close>

text \<open>
  The transaction manager of the server store and the free lists of the memory manager both keep
  circular doubly linked lists headed by a sentinel node. The locale \<open>linked\<close> is their common
  interface: reading and writing the two link fields of a node in a state. What the insertions and
  the removal do to the list of nodes is proved once here; the components interpret the locale on
  their own state records.
\<close>

subsection \<open>Chains of links\<close>

fun chain :: "('a \<Rightarrow> 'a) \<Rightarrow> ('a \<Rightarrow> 'a) \<Rightarrow> 'a \<Rightarrow> 'a list \<Rightarrow> 'a \<Rightarrow> bool" where
  "chain nx pv x [] y \<longleftrightarrow> nx x = y \<and> pv y = x"
| "chain nx pv x (z # zs) y \<longleftrightarrow> nx x = z \<and> pv z = x \<and> chain nx pv z zs y"

definition ring :: "('a \<Rightarrow> 'a) \<Rightarrow> ('a \<Rightarrow> 'a) \<Rightarrow> 'a \<Rightarrow> 'a list \<Rightarrow> bool" where
  "ring nx pv h xs \<longleftrightarrow> distinct (h # xs) \<and> chain nx pv h xs h"

lemma chain_append:
  "chain nx pv x (xs @ z # ys) y \<longleftrightarrow> chain nx pv x xs z \<and> chain nx pv z ys y"
  by (induction xs arbitrary: x) auto

lemma chain_cong:
  assumes "chain nx pv x xs y"
    and "\<And>a. a \<in> set (x # xs) \<Longrightarrow> nx' a = nx a" "\<And>a. a \<in> set (xs @ [y]) \<Longrightarrow> pv' a = pv a"
  shows "chain nx' pv' x xs y"
  using assms by (induction xs arbitrary: x) auto

lemma chain_upd_nx: "chain nx pv x xs y \<Longrightarrow> a \<notin> set (x # xs) \<Longrightarrow> chain (nx(a := b)) pv x xs y"
  by (rule chain_cong [of nx pv]) auto

lemma chain_upd_pv: "chain nx pv x xs y \<Longrightarrow> a \<notin> set (xs @ [y]) \<Longrightarrow> chain nx (pv(a := b)) x xs y"
  by (rule chain_cong [of nx pv]) auto

lemma chain_unique:
  "chain nx pv x xs y \<Longrightarrow> chain nx pv x ys y \<Longrightarrow> y \<notin> set xs \<Longrightarrow> y \<notin> set ys \<Longrightarrow> xs = ys"
proof (induction xs arbitrary: x ys)
  case Nil
  then show ?case by (cases ys) auto
next
  case (Cons z zs)
  then show ?case by (cases ys) auto
qed

lemma ring_unique: "ring nx pv h xs \<Longrightarrow> ring nx pv h ys \<Longrightarrow> xs = ys"
  by (auto simp: ring_def intro: chain_unique)

lemma ring_empty: "ring nx pv h [] \<longleftrightarrow> nx h = h \<and> pv h = h"
  by (simp add: ring_def)

lemma ring_first: "ring nx pv h xs \<Longrightarrow> nx h = (case xs of [] \<Rightarrow> h | x # _ \<Rightarrow> x)"
  by (cases xs) (auto simp: ring_def)

lemma ring_last: "ring nx pv h xs \<Longrightarrow> pv h = (if xs = [] then h else last xs)"
  by (cases xs rule: rev_cases) (auto simp: ring_def chain_append)

lemma ring_in: "ring nx pv h (xs @ x # ys) \<Longrightarrow> nx x = (case ys of [] \<Rightarrow> h | y # _ \<Rightarrow> y)"
  by (cases ys) (auto simp: ring_def chain_append)

text \<open>Storing \<open>y\<close> between the sentinel and its successor.\<close>

lemma ring_add_first:
  assumes "ring nx pv h xs" "y \<noteq> h" "y \<notin> set xs"
  shows "ring (nx(y := nx h, h := y)) (pv(y := h, nx h := y)) h (y # xs)"
proof (cases xs)
  case Nil
  then show ?thesis using assms by (auto simp: ring_def)
next
  case (Cons x ys)
  then have c: "chain nx pv x ys h" "h \<notin> set xs" "x \<notin> set ys" "nx h = x"
    using assms(1) by (auto simp: ring_def)
  have "chain (nx(y := x, h := y)) (pv(y := h, x := y)) x ys h"
    using c assms(2,3) Cons by (intro chain_upd_nx chain_upd_pv) auto
  then show ?thesis
    using assms Cons c by (auto simp: ring_def)
qed

text \<open>Storing \<open>y\<close> between the sentinel and its predecessor.\<close>

lemma ring_add_last:
  assumes "ring nx pv h xs" "y \<noteq> h" "y \<notin> set xs"
  shows "ring (nx(y := h, pv h := y)) (pv(y := pv h, h := y)) h (xs @ [y])"
proof (cases xs rule: rev_cases)
  case Nil
  then show ?thesis using assms by (auto simp: ring_def)
next
  case (snoc ys x)
  then have c: "chain nx pv h ys x" "pv h = x" "x \<noteq> h" "x \<notin> set ys" "h \<notin> set ys"
    using assms(1) by (auto simp: ring_def chain_append)
  have "chain (nx(y := h, x := y)) (pv(y := x, h := y)) h ys x"
    using c assms(2,3) snoc by (intro chain_upd_nx chain_upd_pv) auto
  then show ?thesis
    using assms snoc c by (auto simp: ring_def chain_append)
qed

text \<open>Storing \<open>y\<close> before any element, or at the end.\<close>

lemma chain_retarget:
  "chain nx pv x xs y \<Longrightarrow> distinct (x # xs) \<Longrightarrow> z \<notin> set (x # xs) \<Longrightarrow>
     chain (nx(last (x # xs) := z)) (pv(z := last (x # xs))) x xs z \<and> pv y = last (x # xs)"
proof (induction xs arbitrary: x)
  case (Cons u us)
  then show ?case by (cases us) auto
qed simp

lemma ring_insert:
  assumes r: "ring nx pv h (us @ vs)" and y: "y \<notin> set (h # us @ vs)" and c: "c = (case vs of [] \<Rightarrow> h | v # _ \<Rightarrow> v)"
  shows "ring (nx(y := c, pv c := y)) (pv(y := pv c, c := y)) h (us @ y # vs)"
proof (cases vs)
  case Nil
  then show ?thesis using ring_add_last [of nx pv h us y] r y c by simp
next
  case (Cons v ws)
  then have d: "chain nx pv h us v" "chain nx pv v ws h" "distinct (h # us @ v # ws)" "c = v"
    using r c by (auto simp: ring_def chain_append)
  let ?p = "last (h # us)"
  have p: "pv v = ?p" "chain (nx(?p := y)) (pv(y := ?p)) h us y"
    using chain_retarget [OF d(1), of y] d(3) y by auto
  have pin: "?p \<in> set (h # us)" by (rule last_in_set) simp
  have "chain (nx(y := v, ?p := y)) (pv(y := ?p, v := y)) h us y"
    using p(2) d(3) y Cons pin by (auto intro!: chain_cong [OF p(2)])
  moreover have "chain (nx(y := v, ?p := y)) (pv(y := ?p, v := y)) v ws h"
  proof (rule chain_cong [OF d(2)])
    fix a
    assume "a \<in> set (v # ws)"
    moreover have "?p \<notin> set (v # ws)" using pin d(3) by (metis Int_iff append_Cons distinct_append empty_iff)
    ultimately have "a \<noteq> ?p" "a \<noteq> y" using y Cons by auto
    then show "(nx(y := v, ?p := y)) a = nx a" by simp
  qed (use d(3) y Cons in auto)
  moreover have "?p \<noteq> y" using pin y by auto
  moreover have "h \<noteq> y" using y by auto
  ultimately show ?thesis using Cons d(3,4) p(1) y by (simp add: ring_def chain_append)
qed

text \<open>Taking \<open>y\<close> out.\<close>

lemma ring_remove:
  assumes "ring nx pv h (xs @ y # ys)"
  shows "ring (nx(pv y := nx y)) (pv(nx y := pv y)) h (xs @ ys)"
proof -
  have c: "chain nx pv h xs y" "chain nx pv y ys h" and d: "distinct (h # xs @ y # ys)"
    using assms by (auto simp: ring_def chain_append)
  obtain p where p: "pv y = p" "p \<in> set (h # xs)" by simp (use c(1) in \<open>cases xs rule: rev_cases; auto simp: chain_append\<close>)
  obtain n where n: "nx y = n" "n = (case ys of [] \<Rightarrow> h | z # _ \<Rightarrow> z)" using c(2) by (cases ys) auto
  show ?thesis
  proof (cases xs rule: rev_cases)
    case Nil
    then have "p = h" using p by simp
    then show ?thesis using Nil c d p n chain_upd_nx [of nx "pv(n := p)" n "tl ys" h h n]
      by (cases ys) (auto simp: ring_def intro!: chain_upd_pv chain_upd_nx)
  next
    case (snoc us u)
    then have u: "p = u" "chain nx pv h us u" using c(1) p by (auto simp: chain_append)
    have "chain (nx(u := n)) (pv(n := u)) h us u"
      using u d snoc n by (intro chain_upd_nx chain_upd_pv) (auto split: list.splits)
    then show ?thesis
      using snoc c d u p n
      by (cases ys) (auto simp: ring_def chain_append intro!: chain_upd_pv chain_upd_nx)
  qed
qed

subsection \<open>The interface\<close>

locale linked =
  fixes get_next get_prev :: "'s \<Rightarrow> 'a \<Rightarrow> 'a"
    and set_next set_prev :: "'a \<Rightarrow> 'a \<Rightarrow> 's \<Rightarrow> 's"
  assumes next_set_next [simp]: "get_next (set_next x y s) = (get_next s)(x := y)"
    and prev_set_next [simp]: "get_prev (set_next x y s) = get_prev s"
    and prev_set_prev [simp]: "get_prev (set_prev x y s) = (get_prev s)(x := y)"
    and next_set_prev [simp]: "get_next (set_prev x y s) = get_next s"
begin

definition rep :: "'s \<Rightarrow> 'a \<Rightarrow> 'a list \<Rightarrow> bool" where
  "rep s h xs = ring (get_next s) (get_prev s) h xs"

lemma rep_first: "rep s h xs \<Longrightarrow> get_next s h = (case xs of [] \<Rightarrow> h | x # _ \<Rightarrow> x)"
  unfolding rep_def by (rule ring_first)

lemma rep_in: "rep s h (xs @ x # ys) \<Longrightarrow> get_next s x = (case ys of [] \<Rightarrow> h | y # _ \<Rightarrow> y)"
  unfolding rep_def by (rule ring_in)

lemma rep_distinct: "rep s h xs \<Longrightarrow> distinct (h # xs)"
  by (simp add: rep_def ring_def)

lemma rep_init: "rep (set_prev h h (set_next h h s)) h []"
  by (simp add: rep_def ring_empty)

lemma rep_add_last:
  assumes "rep s h xs" "y \<noteq> h" "y \<notin> set xs"
  shows "rep (let s = set_next y h s; s = set_prev y (get_prev s h) s;
                  s = set_next (get_prev s h) y s in set_prev h y s) h (xs @ [y])"
  using ring_add_last [of "get_next s" "get_prev s" h xs y] assms
  by (simp add: rep_def Let_def)

lemma rep_add_first:
  assumes "rep s h xs" "y \<noteq> h" "y \<notin> set xs"
  shows "rep (let s = set_prev y h s; s = set_next y (get_next s h) s;
                  s = set_prev (get_next s h) y s in set_next h y s) h (y # xs)"
  using ring_add_first [of "get_next s" "get_prev s" h xs y] assms
  by (simp add: rep_def Let_def)

lemma rep_remove:
  assumes "rep s h (xs @ y # ys)"
  shows "rep (let s = set_next (get_prev s y) (get_next s y) s in set_prev (get_next s y) (get_prev s y) s)
    h (xs @ ys)"
  using ring_remove [of "get_next s" "get_prev s" h xs y ys] assms
  by (auto simp: rep_def Let_def ring_def)

end

end
