(* ===== verification/Server_Registry.thy ===== *)
theory Server_Registry
  imports Prelude "HOL-Library.Multiset"
begin

section \<open>Server store: the client registry\<close>

text \<open>
  \<open>Server Store/src/client_registry.c\<close>. The registry is a table of \<open>MAX_CLIENTS\<close> descriptors, -1
  marking a free slot, with a count and a semaphore that every operation holds. The first part
  models the operations as functions of one caller; the second models threads that call them
  concurrently, with a step for the semaphore operations and for every iteration of a loop, and
  shows that the calls are atomic.
\<close>

abbreviation MAX_CLIENTS :: nat where
  "MAX_CLIENTS \<equiv> 1024"

record CLIENT_REGISTRY =
  cr_sem :: nat
  clients :: int
  clientList :: "int list"

text \<open>\<open>sem_wait\<close> on a semaphore of value 0 blocks: \<open>None\<close>.\<close>

definition P :: "nat \<Rightarrow> nat option" where
  "P sem = (if sem = 0 then None else Some (sem - 1))"

definition V :: "nat \<Rightarrow> nat" where
  "V sem = sem + 1"

definition initClientList :: "CLIENT_REGISTRY \<Rightarrow> CLIENT_REGISTRY" where
  "initClientList cr = cr\<lparr>clientList := replicate MAX_CLIENTS (- 1)\<rparr>"

definition creg_init :: CLIENT_REGISTRY where
  "creg_init = initClientList \<lparr>cr_sem = 1, clients = 0, clientList = []\<rparr>"

function register_loop :: "nat \<Rightarrow> int \<Rightarrow> CLIENT_REGISTRY \<Rightarrow> CLIENT_REGISTRY" where
  "register_loop i fd cr =
     (if i < MAX_CLIENTS then
        (if clientList cr ! i = - 1
         then cr\<lparr>clientList := (clientList cr)[i := fd], clients := clients cr + 1\<rparr>
         else register_loop (i + 1) fd cr)
      else cr)"
  by pat_completeness auto
termination by (relation "measure (\<lambda>(i, fd, cr). MAX_CLIENTS - i)") auto

function unregister_loop :: "nat \<Rightarrow> int \<Rightarrow> CLIENT_REGISTRY \<Rightarrow> CLIENT_REGISTRY" where
  "unregister_loop i fd cr =
     (if i < MAX_CLIENTS then
        (if clientList cr ! i = fd
         then cr\<lparr>clientList := (clientList cr)[i := - 1], clients := clients cr - 1\<rparr>
         else unregister_loop (i + 1) fd cr)
      else cr)"
  by pat_completeness auto
termination by (relation "measure (\<lambda>(i, fd, cr). MAX_CLIENTS - i)") auto

definition creg_register :: "CLIENT_REGISTRY \<Rightarrow> int \<Rightarrow> CLIENT_REGISTRY option" where
  "creg_register cr fd =
     (case P (cr_sem cr) of None \<Rightarrow> None
      | Some v \<Rightarrow> (let cr = register_loop 0 fd (cr\<lparr>cr_sem := v\<rparr>) in Some (cr\<lparr>cr_sem := V (cr_sem cr)\<rparr>)))"

definition creg_unregister :: "CLIENT_REGISTRY \<Rightarrow> int \<Rightarrow> CLIENT_REGISTRY option" where
  "creg_unregister cr fd =
     (case P (cr_sem cr) of None \<Rightarrow> None
      | Some v \<Rightarrow> (let cr = unregister_loop 0 fd (cr\<lparr>cr_sem := v\<rparr>) in Some (cr\<lparr>cr_sem := V (cr_sem cr)\<rparr>)))"

text \<open>The descriptors that are shut down, in order.\<close>

fun shutdown_loop :: "int list \<Rightarrow> int list" where
  "shutdown_loop [] = []"
| "shutdown_loop (fd # fds) = (if fd > - 1 then fd # shutdown_loop fds else shutdown_loop fds)"

definition creg_shutdown_all :: "CLIENT_REGISTRY \<Rightarrow> (int list \<times> CLIENT_REGISTRY) option" where
  "creg_shutdown_all cr =
     (case P (cr_sem cr) of None \<Rightarrow> None
      | Some v \<Rightarrow> (let fds = shutdown_loop (clientList cr) in Some (fds, cr\<lparr>cr_sem := V v\<rparr>)))"

text \<open>One round of the waiting loop; \<open>True\<close> when it leaves the loop and returns.\<close>

definition creg_wait_round :: "CLIENT_REGISTRY \<Rightarrow> (bool \<times> CLIENT_REGISTRY) option" where
  "creg_wait_round cr =
     (case P (cr_sem cr) of None \<Rightarrow> None
      | Some v \<Rightarrow> Some (\<not> clients cr > 0, cr\<lparr>cr_sem := V v\<rparr>))"

declare register_loop.simps [simp del] unregister_loop.simps [simp del]

subsection \<open>The contents of the table\<close>

text \<open>The registered descriptors, and the invariant: the count is their number.\<close>

definition fds :: "CLIENT_REGISTRY \<Rightarrow> int list" where
  "fds cr = filter (\<lambda>fd. fd \<noteq> - 1) (clientList cr)"

definition creg_inv :: "CLIENT_REGISTRY \<Rightarrow> bool" where
  "creg_inv cr \<longleftrightarrow> length (clientList cr) = MAX_CLIENTS \<and> clients cr = int (length (fds cr))"

lemma creg_init_inv: "creg_inv creg_init" "fds creg_init = []" "cr_sem creg_init = 1"
  by (simp_all add: creg_init_def initClientList_def creg_inv_def fds_def)

lemma filter_update:
  assumes "i < length xs"
  shows "filter Q (xs[i := y]) = filter Q (take i xs) @ (if Q y then [y] else []) @ filter Q (drop (Suc i) xs)"
    and "filter Q xs = filter Q (take i xs) @ (if Q (xs ! i) then [xs ! i] else []) @ filter Q (drop (Suc i) xs)"
proof -
  show "filter Q (xs[i := y]) = filter Q (take i xs) @ (if Q y then [y] else []) @ filter Q (drop (Suc i) xs)"
    using assms by (simp add: upd_conv_take_nth_drop)
  have "xs = take i xs @ xs ! i # drop (Suc i) xs" using assms by (simp add: id_take_nth_drop)
  then have "filter Q xs = filter Q (take i xs @ xs ! i # drop (Suc i) xs)" by (rule arg_cong)
  then show "filter Q xs = filter Q (take i xs) @ (if Q (xs ! i) then [xs ! i] else []) @ filter Q (drop (Suc i) xs)"
    by simp
qed

lemma register_loop_full:
  "length (clientList cr) = MAX_CLIENTS \<Longrightarrow> \<forall>j. i \<le> j \<longrightarrow> j < MAX_CLIENTS \<longrightarrow> clientList cr ! j \<noteq> - 1 \<Longrightarrow>
   register_loop i fd cr = cr"
  by (induction i fd cr rule: register_loop.induct) (subst register_loop.simps, auto)

lemma register_loop_first:
  "i \<le> k \<Longrightarrow> k < MAX_CLIENTS \<Longrightarrow> clientList cr ! k = - 1 \<Longrightarrow>
   \<exists>k < MAX_CLIENTS. clientList cr ! k = - 1 \<and>
     register_loop i fd cr = cr\<lparr>clientList := (clientList cr)[k := fd], clients := clients cr + 1\<rparr>"
proof (induction i fd cr rule: register_loop.induct)
  case (1 i fd cr)
  show ?case
  proof (cases "clientList cr ! i = - 1")
    case True
    then show ?thesis using "1.prems" by (intro exI [of _ i]) (simp add: register_loop.simps)
  next
    case False
    then have "Suc i \<le> k" using "1.prems" by (metis le_eq_less_or_eq Suc_leI)
    then obtain k' where "k' < MAX_CLIENTS" "clientList cr ! k' = - 1"
        "register_loop (i + 1) fd cr = cr\<lparr>clientList := (clientList cr)[k' := fd], clients := clients cr + 1\<rparr>"
      using 1 False by auto
    then show ?thesis using "1.prems" False by (intro exI [of _ k']) (simp add: register_loop.simps [of i])
  qed
qed

lemma unregister_loop_absent:
  "\<forall>j. i \<le> j \<longrightarrow> j < MAX_CLIENTS \<longrightarrow> clientList cr ! j \<noteq> fd \<Longrightarrow> unregister_loop i fd cr = cr"
  by (induction i fd cr rule: unregister_loop.induct) (subst unregister_loop.simps, auto)

lemma unregister_loop_first:
  "i \<le> k \<Longrightarrow> k < MAX_CLIENTS \<Longrightarrow> clientList cr ! k = fd \<Longrightarrow>
   \<exists>k < MAX_CLIENTS. clientList cr ! k = fd \<and>
     unregister_loop i fd cr = cr\<lparr>clientList := (clientList cr)[k := - 1], clients := clients cr - 1\<rparr>"
proof (induction i fd cr rule: unregister_loop.induct)
  case (1 i fd cr)
  show ?case
  proof (cases "clientList cr ! i = fd")
    case True
    then show ?thesis using "1.prems" by (intro exI [of _ i]) (simp add: unregister_loop.simps)
  next
    case False
    then have "Suc i \<le> k" using "1.prems" by (metis le_eq_less_or_eq Suc_leI)
    then obtain k' where "k' < MAX_CLIENTS" "clientList cr ! k' = fd"
        "unregister_loop (i + 1) fd cr = cr\<lparr>clientList := (clientList cr)[k' := - 1], clients := clients cr - 1\<rparr>"
      using 1 False by auto
    then show ?thesis using "1.prems" False by (intro exI [of _ k']) (simp add: unregister_loop.simps [of i])
  qed
qed


lemma register_loop_spec:
  assumes "creg_inv cr" "fd \<noteq> - 1"
  shows "creg_inv (register_loop 0 fd cr)"
    and "mset (fds (register_loop 0 fd cr)) =
      (if length (fds cr) < MAX_CLIENTS then add_mset fd (mset (fds cr)) else mset (fds cr))"
    and "cr_sem (register_loop 0 fd cr) = cr_sem cr"
proof -
  have l: "length (clientList cr) = MAX_CLIENTS" using assms(1) by (simp add: creg_inv_def)
  have *: "creg_inv (register_loop 0 fd cr) \<and> mset (fds (register_loop 0 fd cr)) =
      (if length (fds cr) < MAX_CLIENTS then add_mset fd (mset (fds cr)) else mset (fds cr)) \<and>
      cr_sem (register_loop 0 fd cr) = cr_sem cr"
  proof (cases "\<exists>k < MAX_CLIENTS. clientList cr ! k = - 1")
    case True
    then obtain k where k: "k < MAX_CLIENTS" "clientList cr ! k = - 1"
        "register_loop 0 fd cr = cr\<lparr>clientList := (clientList cr)[k := fd], clients := clients cr + 1\<rparr>"
      using register_loop_first [of 0 _ cr fd] by blast
    have "clientList cr ! k \<in> set (clientList cr)" using k(1) l by (simp add: nth_mem)
    then have "length (fds cr) < MAX_CLIENTS"
      unfolding fds_def l [symmetric] using k(2) by (intro length_filter_less) auto
    then show ?thesis
      using assms k l filter_update [of k "clientList cr" "\<lambda>fd. fd \<noteq> - 1"]
      by (simp add: creg_inv_def fds_def)
  next
    case False
    then have "fds cr = clientList cr"
      using l by (auto simp: fds_def filter_id_conv in_set_conv_nth)
    then show ?thesis using False register_loop_full [OF l, of 0 fd] assms(1) l by simp
  qed
  then show "creg_inv (register_loop 0 fd cr)" "mset (fds (register_loop 0 fd cr)) =
      (if length (fds cr) < MAX_CLIENTS then add_mset fd (mset (fds cr)) else mset (fds cr))"
      "cr_sem (register_loop 0 fd cr) = cr_sem cr"
    by simp_all
qed

lemma unregister_loop_spec:
  assumes "creg_inv cr" "fd \<noteq> - 1"
  shows "creg_inv (unregister_loop 0 fd cr)"
    and "mset (fds (unregister_loop 0 fd cr)) = mset (fds cr) - {#fd#}"
    and "cr_sem (unregister_loop 0 fd cr) = cr_sem cr"
proof -
  have l: "length (clientList cr) = MAX_CLIENTS" using assms(1) by (simp add: creg_inv_def)
  have *: "creg_inv (unregister_loop 0 fd cr) \<and> mset (fds (unregister_loop 0 fd cr)) = mset (fds cr) - {#fd#}
      \<and> cr_sem (unregister_loop 0 fd cr) = cr_sem cr"
  proof (cases "\<exists>k < MAX_CLIENTS. clientList cr ! k = fd")
    case True
    then obtain k where k: "k < MAX_CLIENTS" "clientList cr ! k = fd"
        "unregister_loop 0 fd cr = cr\<lparr>clientList := (clientList cr)[k := - 1], clients := clients cr - 1\<rparr>"
      using unregister_loop_first [of 0 _ cr fd] by blast
    then show ?thesis
      using assms l filter_update [of k "clientList cr" "\<lambda>fd. fd \<noteq> - 1"]
      by (simp add: creg_inv_def fds_def)
  next
    case False
    then have "fd \<notin># mset (fds cr)" using l by (auto simp: fds_def in_set_conv_nth)
    then show ?thesis
      using False unregister_loop_absent [of 0 cr fd] assms(1) by (simp add: diff_single_trivial)
  qed
  then show "creg_inv (unregister_loop 0 fd cr)"
      "mset (fds (unregister_loop 0 fd cr)) = mset (fds cr) - {#fd#}"
      "cr_sem (unregister_loop 0 fd cr) = cr_sem cr"
    by simp_all
qed

subsection \<open>Concurrent callers\<close>

datatype call = Register int | Unregister int | WaitEmpty | ShutdownAll

text \<open>
  Where a thread is: outside the registry, before \<open>P\<close>, inside the critical section (at a loop index),
  or before the \<open>V\<close> that ends the call.
\<close>

datatype pc = Idle | Before call | Inside call nat | After call

record creg_sys =
  reg :: CLIENT_REGISTRY
  pcs :: "nat \<Rightarrow> pc"

abbreviation goto :: "nat \<Rightarrow> pc \<Rightarrow> creg_sys \<Rightarrow> creg_sys" where
  "goto t p s \<equiv> s\<lparr>pcs := (pcs s)(t := p)\<rparr>"

inductive creg_step :: "creg_sys \<Rightarrow> creg_sys \<Rightarrow> bool" where
  invoke: "pcs s t = Idle \<Longrightarrow> (case c of Register fd \<Rightarrow> fd \<noteq> - 1 | Unregister fd \<Rightarrow> fd \<noteq> - 1 | _ \<Rightarrow> True) \<Longrightarrow>
    creg_step s (goto t (Before c) s)"
| acquire: "pcs s t = Before c \<Longrightarrow> P (cr_sem (reg s)) = Some v \<Longrightarrow>
    creg_step s (goto t (Inside c 0) (s\<lparr>reg := reg s\<lparr>cr_sem := v\<rparr>\<rparr>))"
| register_hit: "pcs s t = Inside (Register fd) i \<Longrightarrow> i < MAX_CLIENTS \<Longrightarrow> clientList (reg s) ! i = - 1 \<Longrightarrow>
    creg_step s (goto t (After (Register fd)) (s\<lparr>reg := reg s
      \<lparr>clientList := (clientList (reg s))[i := fd], clients := clients (reg s) + 1\<rparr>\<rparr>))"
| register_miss: "pcs s t = Inside (Register fd) i \<Longrightarrow> i < MAX_CLIENTS \<Longrightarrow> clientList (reg s) ! i \<noteq> - 1 \<Longrightarrow>
    creg_step s (goto t (Inside (Register fd) (i + 1)) s)"
| register_end: "pcs s t = Inside (Register fd) i \<Longrightarrow> \<not> i < MAX_CLIENTS \<Longrightarrow>
    creg_step s (goto t (After (Register fd)) s)"
| unregister_hit: "pcs s t = Inside (Unregister fd) i \<Longrightarrow> i < MAX_CLIENTS \<Longrightarrow> clientList (reg s) ! i = fd \<Longrightarrow>
    creg_step s (goto t (After (Unregister fd)) (s\<lparr>reg := reg s
      \<lparr>clientList := (clientList (reg s))[i := - 1], clients := clients (reg s) - 1\<rparr>\<rparr>))"
| unregister_miss: "pcs s t = Inside (Unregister fd) i \<Longrightarrow> i < MAX_CLIENTS \<Longrightarrow> clientList (reg s) ! i \<noteq> fd \<Longrightarrow>
    creg_step s (goto t (Inside (Unregister fd) (i + 1)) s)"
| unregister_end: "pcs s t = Inside (Unregister fd) i \<Longrightarrow> \<not> i < MAX_CLIENTS \<Longrightarrow>
    creg_step s (goto t (After (Unregister fd)) s)"
| wait_again: "pcs s t = Inside WaitEmpty i \<Longrightarrow> clients (reg s) > 0 \<Longrightarrow>
    creg_step s (goto t (Before WaitEmpty) (s\<lparr>reg := reg s\<lparr>cr_sem := V (cr_sem (reg s))\<rparr>\<rparr>))"
| wait_over: "pcs s t = Inside WaitEmpty i \<Longrightarrow> \<not> clients (reg s) > 0 \<Longrightarrow>
    creg_step s (goto t (After WaitEmpty) s)"
| shutdown_one: "pcs s t = Inside ShutdownAll i \<Longrightarrow> i < MAX_CLIENTS \<Longrightarrow>
    creg_step s (goto t (Inside ShutdownAll (i + 1)) s)"
| shutdown_end: "pcs s t = Inside ShutdownAll i \<Longrightarrow> \<not> i < MAX_CLIENTS \<Longrightarrow>
    creg_step s (goto t (After ShutdownAll) s)"
| release: "pcs s t = After c \<Longrightarrow>
    creg_step s (goto t Idle (s\<lparr>reg := reg s\<lparr>cr_sem := V (cr_sem (reg s))\<rparr>\<rparr>))"

inductive creg_reach :: "creg_sys \<Rightarrow> bool" where
  start: "creg_reach \<lparr>reg = creg_init, pcs = \<lambda>_. Idle\<rparr>"
| step: "creg_reach s \<Longrightarrow> creg_step s s' \<Longrightarrow> creg_reach s'"

text \<open>What the call in the critical section has still to do.\<close>

fun complete :: "pc \<Rightarrow> CLIENT_REGISTRY \<Rightarrow> CLIENT_REGISTRY" where
  "complete (Inside (Register fd) i) cr = register_loop i fd cr"
| "complete (Inside (Unregister fd) i) cr = unregister_loop i fd cr"
| "complete _ cr = cr"

fun critical :: "pc \<Rightarrow> bool" where
  "critical (Inside _ _) = True"
| "critical (After _) = True"
| "critical _ = False"

fun atomic :: "call \<Rightarrow> CLIENT_REGISTRY \<Rightarrow> CLIENT_REGISTRY" where
  "atomic (Register fd) cr = register_loop 0 fd cr"
| "atomic (Unregister fd) cr = unregister_loop 0 fd cr"
| "atomic _ cr = cr"

abbreviation unlocked :: "CLIENT_REGISTRY \<Rightarrow> CLIENT_REGISTRY" where
  "unlocked cr \<equiv> cr\<lparr>cr_sem := 1\<rparr>"

text \<open>At most one thread is in the critical section, and it holds the semaphore.\<close>

definition exclusive :: "creg_sys \<Rightarrow> bool" where
  "exclusive s \<longleftrightarrow> (cr_sem (reg s) = 1 \<and> (\<forall>t. \<not> critical (pcs s t))) \<or>
     (cr_sem (reg s) = 0 \<and> (\<exists>t. critical (pcs s t) \<and> (\<forall>u. u \<noteq> t \<longrightarrow> \<not> critical (pcs s u))))"

text \<open>The registry the atomic calls have reached.\<close>

definition sim :: "creg_sys \<Rightarrow> CLIENT_REGISTRY \<Rightarrow> bool" where
  "sim s a \<longleftrightarrow> (\<forall>t. critical (pcs s t) \<longrightarrow> a = unlocked (complete (pcs s t) (reg s))) \<and>
     ((\<forall>t. \<not> critical (pcs s t)) \<longrightarrow> a = unlocked (reg s))"


lemma exclusive_critical:
  assumes "exclusive s" "critical (pcs s t)"
  shows "cr_sem (reg s) = 0" "\<And>u. u \<noteq> t \<Longrightarrow> \<not> critical (pcs s u)"
  using assms unfolding exclusive_def by metis+

lemma exclusive_stay:
  assumes "exclusive s" "critical (pcs s t)" "critical p" "cr_sem r = cr_sem (reg s)"
  shows "exclusive (s\<lparr>reg := r, pcs := (pcs s)(t := p)\<rparr>)"
  using exclusive_critical [OF assms(1,2)] assms(3,4) unfolding exclusive_def by auto

lemma exclusive_leave:
  assumes "exclusive s" "critical (pcs s t)" "\<not> critical p" "cr_sem r = V (cr_sem (reg s))"
  shows "exclusive (s\<lparr>reg := r, pcs := (pcs s)(t := p)\<rparr>)"
  using exclusive_critical [OF assms(1,2)] assms(3,4) unfolding exclusive_def by (auto simp: V_def)

lemma exclusive_enter:
  assumes "exclusive s" "\<not> critical (pcs s t)" "critical p" "P (cr_sem (reg s)) = Some (cr_sem r)"
  shows "exclusive (s\<lparr>reg := r, pcs := (pcs s)(t := p)\<rparr>)"
  using assms unfolding exclusive_def by (auto simp: P_def split: if_splits)

lemma reg_same: "(s :: creg_sys)\<lparr>reg := reg s\<rparr> = s"
  by simp

lemma exclusive_step: "creg_step s s' \<Longrightarrow> exclusive s \<Longrightarrow> exclusive s'"
proof (induction rule: creg_step.induct)
  case (invoke s t c)
  have "critical (pcs (goto t (Before c) s) u) \<longleftrightarrow> critical (pcs s u)" for u
    using invoke.hyps(1) by simp
  then show ?case using invoke.prems unfolding exclusive_def by simp
next
  case (acquire s t c v)
  then show ?case using exclusive_enter [of s t "Inside c 0" "reg s\<lparr>cr_sem := v\<rparr>"] by simp
next
  case (register_miss s t fd i)
  then show ?case using exclusive_stay [of s t _ "reg s"] by auto
next
  case (register_end s t fd i)
  then show ?case using exclusive_stay [of s t _ "reg s"] by auto
next
  case (unregister_miss s t fd i)
  then show ?case using exclusive_stay [of s t _ "reg s"] by auto
next
  case (unregister_end s t fd i)
  then show ?case using exclusive_stay [of s t _ "reg s"] by auto
next
  case (wait_over s t i)
  then show ?case using exclusive_stay [of s t _ "reg s"] by auto
next
  case (shutdown_one s t i)
  then show ?case using exclusive_stay [of s t _ "reg s"] by auto
next
  case (shutdown_end s t i)
  then show ?case using exclusive_stay [of s t _ "reg s"] by auto
next
  case (register_hit s t fd i)
  then show ?case by (auto intro: exclusive_stay)
next
  case (unregister_hit s t fd i)
  then show ?case by (auto intro: exclusive_stay)
qed (auto intro: exclusive_leave)

lemma exclusive_reach: "creg_reach s \<Longrightarrow> exclusive s"
proof (induction rule: creg_reach.induct)
  case start
  show ?case by (simp add: exclusive_def creg_init_inv)
qed (blast intro: exclusive_step)

lemma loop_unlocked:
  "register_loop i fd (unlocked cr) = unlocked (register_loop i fd cr)"
  "unregister_loop i fd (unlocked cr) = unlocked (unregister_loop i fd cr)"
proof -
  show "register_loop i fd (unlocked cr) = unlocked (register_loop i fd cr)"
    by (induction i fd cr rule: register_loop.induct)
       (subst (1 2) register_loop.simps, simp)
  show "unregister_loop i fd (unlocked cr) = unlocked (unregister_loop i fd cr)"
    by (induction i fd cr rule: unregister_loop.induct)
       (subst (1 2) unregister_loop.simps, simp)
qed

lemma sim_in:
  assumes "exclusive s" "critical (pcs s t)"
  shows "sim s a \<longleftrightarrow> a = unlocked (complete (pcs s t) (reg s))"
  using exclusive_critical(2) [OF assms] assms(2) unfolding sim_def by metis

lemma sim_out: "(\<And>u. \<not> critical (pcs s u)) \<Longrightarrow> sim s a \<longleftrightarrow> a = unlocked (reg s)"
  unfolding sim_def by blast

lemma sim_stay:
  assumes "exclusive s" "critical (pcs s t)" "critical p" "sim s a"
    and "exclusive (s\<lparr>reg := r, pcs := (pcs s)(t := p)\<rparr>)"
    and "unlocked (complete p r) = unlocked (complete (pcs s t) (reg s))"
  shows "sim (s\<lparr>reg := r, pcs := (pcs s)(t := p)\<rparr>) a"
  using sim_in [OF assms(1,2), of a] sim_in [OF assms(5), of t a] assms(3,4,6) by simp

lemma sim_leave:
  assumes "exclusive s" "critical (pcs s t)" "\<not> critical p" "sim s a"
    and "unlocked r = unlocked (complete (pcs s t) (reg s))"
  shows "sim (s\<lparr>reg := r, pcs := (pcs s)(t := p)\<rparr>) a"
  using sim_in [OF assms(1,2), of a] exclusive_critical(2) [OF assms(1,2)] assms(3-5)
    sim_out [of "s\<lparr>reg := r, pcs := (pcs s)(t := p)\<rparr>" a] by auto

lemma creg_simulation:
  assumes "creg_step s s'" "exclusive s" "sim s a"
  shows "sim s' a \<or> (\<exists>t c. pcs s t = Before c \<and> sim s' (atomic c a))"
  using assms
proof (induction rule: creg_step.induct)
  case (invoke s t c)
  then have "critical (pcs s u) = critical (((pcs s)(t := Before c)) u)" for u by auto
  then show ?case using invoke unfolding sim_def by (auto split: if_splits)
next
  case (acquire s t c v)
  have "\<not> critical (pcs s u)" for u using acquire.hyps(2) acquire.prems(1) exclusive_critical(1) by (auto simp: P_def)
  then have a: "a = unlocked (reg s)" using sim_out acquire.prems(2) by blast
  let ?s = "goto t (Inside c 0) (s\<lparr>reg := reg s\<lparr>cr_sem := v\<rparr>\<rparr>)"
  have "exclusive ?s" using acquire exclusive_enter [of s t "Inside c 0" "reg s\<lparr>cr_sem := v\<rparr>"] by simp
  then have "sim ?s (atomic c a) \<longleftrightarrow> atomic c a = unlocked (complete (Inside c 0) (reg s\<lparr>cr_sem := v\<rparr>))"
    using sim_in [of ?s t] by simp
  moreover have "unlocked (reg s\<lparr>cr_sem := v\<rparr>) = unlocked (reg s)" by simp
  ultimately show ?case
    using acquire.hyps(1) a loop_unlocked [of 0 _ "reg s\<lparr>cr_sem := v\<rparr>"] loop_unlocked [of 0 _ "reg s"]
    by (cases c) (metis atomic.simps complete.simps)+
next
  case (register_hit s t fd i)
  then show ?case
    using sim_stay [of s t "After (Register fd)" a] exclusive_stay [of s t "After (Register fd)"]
    by (auto simp: register_loop.simps [of i])
next
  case (register_miss s t fd i)
  then show ?case
    using sim_stay [of s t "Inside (Register fd) (i + 1)" a "reg s"] exclusive_stay [of s t _ "reg s"]
    by (auto simp: register_loop.simps [of i])
next
  case (register_end s t fd i)
  then show ?case
    using sim_stay [of s t "After (Register fd)" a "reg s"] exclusive_stay [of s t _ "reg s"]
    by (auto simp: register_loop.simps [of i])
next
  case (unregister_hit s t fd i)
  then show ?case
    using sim_stay [of s t "After (Unregister fd)" a] exclusive_stay [of s t "After (Unregister fd)"]
    by (auto simp: unregister_loop.simps [of i])
next
  case (unregister_miss s t fd i)
  then show ?case
    using sim_stay [of s t "Inside (Unregister fd) (i + 1)" a "reg s"] exclusive_stay [of s t _ "reg s"]
    by (auto simp: unregister_loop.simps [of i])
next
  case (unregister_end s t fd i)
  then show ?case
    using sim_stay [of s t "After (Unregister fd)" a "reg s"] exclusive_stay [of s t _ "reg s"]
    by (auto simp: unregister_loop.simps [of i])
next
  case (wait_over s t i)
  then show ?case using sim_stay [of s t _ a "reg s"] exclusive_stay [of s t _ "reg s"] by auto
next
  case (shutdown_one s t i)
  then show ?case using sim_stay [of s t _ a "reg s"] exclusive_stay [of s t _ "reg s"] by auto
next
  case (shutdown_end s t i)
  then show ?case using sim_stay [of s t _ a "reg s"] exclusive_stay [of s t _ "reg s"] by auto
next
  case (wait_again s t i)
  then show ?case using sim_leave [of s t "Before WaitEmpty" a] by auto
next
  case (release s t c)
  then show ?case using sim_leave [of s t Idle a] by auto
qed


text \<open>The registries that sequences of atomic calls, with descriptors other than -1, can reach.\<close>

inductive atomic_runs :: "CLIENT_REGISTRY \<Rightarrow> bool" where
  "atomic_runs creg_init"
| "atomic_runs a \<Longrightarrow> (case c of Register fd \<Rightarrow> fd \<noteq> - 1 | Unregister fd \<Rightarrow> fd \<noteq> - 1 | _ \<Rightarrow> True) \<Longrightarrow>
   atomic_runs (atomic c a)"

lemma atomic_runs_inv: "atomic_runs a \<Longrightarrow> creg_inv a"
proof (induction rule: atomic_runs.induct)
  case (2 a c)
  then show ?case by (cases c) (auto simp: register_loop_spec unregister_loop_spec)
qed (rule creg_init_inv)

lemma before_legal:
  "creg_reach s \<Longrightarrow> pcs s t = Before c \<Longrightarrow>
   (case c of Register fd \<Rightarrow> fd \<noteq> - 1 | Unregister fd \<Rightarrow> fd \<noteq> - 1 | _ \<Rightarrow> True)"
proof (induction arbitrary: t c rule: creg_reach.induct)
  case (step s s')
  from step.hyps(2) step.prems step.IH show ?case
    by cases (auto split: if_splits)
qed simp

lemma reach_sim: "creg_reach s \<Longrightarrow> \<exists>a. atomic_runs a \<and> sim s a"
proof (induction rule: creg_reach.induct)
  case start
  have "unlocked creg_init = creg_init" using creg_init_inv(3) by (cases creg_init) simp
  then show ?case using sim_out [of "\<lparr>reg = creg_init, pcs = \<lambda>_. Idle\<rparr>"] by (auto intro: atomic_runs.intros)
next
  case (step s s')
  then obtain a where a: "atomic_runs a" "sim s a" by blast
  from creg_simulation [OF step.hyps(2) exclusive_reach [OF step.hyps(1)] a(2)]
  show ?case
    using a(1) before_legal [OF step.hyps(1)] by (blast intro: atomic_runs.intros)
qed

lemma creg_inv_unlocked: "creg_inv (unlocked cr) \<longleftrightarrow> creg_inv cr"
  by (simp add: creg_inv_def fds_def)

lemma after_inv:
  assumes "creg_reach s" "pcs s t = After c"
  shows "creg_inv (reg s)"
proof -
  obtain a where a: "atomic_runs a" "sim s a" using reach_sim [OF assms(1)] by blast
  have "critical (pcs s t)" "complete (pcs s t) (reg s) = reg s" using assms(2) by simp_all
  then have "a = unlocked (reg s)" using a(2) unfolding sim_def by metis
  then show ?thesis using atomic_runs_inv [OF a(1)] creg_inv_unlocked by simp
qed

subsection \<open>Properties of the registry\<close>

lemma registry_ops:
  assumes "creg_inv cr" "cr_sem cr = 1" "fd \<noteq> - 1"
  shows "\<exists>cr1 cr2. creg_register cr fd = Some cr1 \<and> creg_inv cr1 \<and> cr_sem cr1 = 1 \<and>
      mset (fds cr1) = (if length (fds cr) < 1024 then add_mset fd (mset (fds cr)) else mset (fds cr)) \<and>
    creg_unregister cr fd = Some cr2 \<and> creg_inv cr2 \<and> cr_sem cr2 = 1 \<and>
      mset (fds cr2) = mset (fds cr) - {#fd#}"
proof -
  have i: "creg_inv (cr\<lparr>cr_sem := x\<rparr>) \<longleftrightarrow> creg_inv cr" "fds (cr\<lparr>cr_sem := x\<rparr>) = fds cr" for cr x
    by (simp_all add: creg_inv_def fds_def)
  have *: "creg_inv (cr\<lparr>cr_sem := 0\<rparr>)" using assms(1) i(1) by blast
  show ?thesis
    using register_loop_spec [OF * assms(3)] unregister_loop_spec [OF * assms(3)] assms(2)
    by (simp add: creg_register_def creg_unregister_def P_def V_def Let_def i)
qed

text \<open>Registering a descriptor adds it to the registered ones when fewer than 1024 clients are
  registered and changes nothing otherwise; unregistering removes one occurrence of it; both keep
  the count equal to the number of registered descriptors and leave the semaphore as it was.\<close>

theorem registry_functional:
  assumes "creg_inv cr" "cr_sem cr = 1" "fd \<noteq> - 1"
  shows "\<exists>cr1 cr2. creg_register cr fd = Some cr1 \<and> creg_inv cr1 \<and> cr_sem cr1 = 1 \<and>
      mset (fds cr1) = (if length (fds cr) < 1024 then add_mset fd (mset (fds cr)) else mset (fds cr)) \<and>
    creg_unregister cr fd = Some cr2 \<and> creg_inv cr2 \<and> cr_sem cr2 = 1 \<and>
      mset (fds cr2) = mset (fds cr) - {#fd#}"
  using registry_ops [OF assms] .

theorem registry_functional_witness:
  "\<exists>cr1. creg_register creg_init 7 = Some cr1 \<and> mset (fds cr1) = {#7#}"
  using registry_functional [of creg_init 7] creg_init_inv by auto

text \<open>C7: the registry is atomic: whatever way threads interleave inside the operations, one step at a
  time, the registry is the one some sequence of whole calls gives, once the call that holds the
  semaphore has finished; and never two threads are in the critical section.\<close>

theorem registry_linearizable:
  assumes "creg_reach s"
  shows "\<exists>a. atomic_runs a \<and> sim s a \<and> creg_inv a \<and>
    (\<forall>t u. critical (pcs s t) \<and> critical (pcs s u) \<longrightarrow> t = u)"
proof -
  have "\<forall>t u. critical (pcs s t) \<and> critical (pcs s u) \<longrightarrow> t = u"
    using exclusive_reach [OF assms] exclusive_critical(2) by blast
  then show ?thesis using reach_sim [OF assms] atomic_runs_inv by blast
qed

theorem registry_linearizable_witness:
  "\<exists>a. atomic_runs a \<and> sim \<lparr>reg = creg_init, pcs = (\<lambda>_. Idle)(3 := Before (Register 5))\<rparr> a"
proof -
  have "creg_reach (goto 3 (Before (Register 5)) \<lparr>reg = creg_init, pcs = \<lambda>_. Idle\<rparr>)"
    by (intro creg_reach.step [OF creg_reach.start] creg_step.invoke) simp_all
  then show ?thesis using registry_linearizable by fastforce
qed

text \<open>A thread that comes out of \<open>creg_wait_for_empty\<close> has seen the registry empty: when it is about
  to release the semaphore for the last time no descriptor is registered.\<close>

theorem wait_for_empty_means_empty:
  assumes "creg_reach s" "pcs s t = After WaitEmpty"
  shows "fds (reg s) = [] \<and> clients (reg s) = 0"
proof -
  have "pcs s t = After WaitEmpty \<Longrightarrow> \<not> clients (reg s) > 0" for t
    using assms(1)
  proof (induction arbitrary: t rule: creg_reach.induct)
    case (step s s')
    have ex: "critical (pcs s t) \<Longrightarrow> critical (pcs s u) \<Longrightarrow> t = u" for t u
      using exclusive_reach [OF step.hyps(1)] exclusive_critical(2) by blast
    from step.hyps(2) step.prems step.IH show ?case
    proof cases
      case (register_hit u fd i)
      then show ?thesis using step.prems ex [of t u] by (auto split: if_splits)
    next
      case (unregister_hit u fd i)
      then show ?thesis using step.prems ex [of t u] by (auto split: if_splits)
    qed (auto split: if_splits)
  qed simp
  with assms(2) have "\<not> clients (reg s) > 0" by blast
  then show ?thesis using after_inv [OF assms] by (auto simp: creg_inv_def)
qed

theorem wait_for_empty_means_empty_witness:
  "\<exists>s. creg_reach s \<and> pcs s 0 = After WaitEmpty \<and> fds (reg s) = []"
proof -
  define s0 :: creg_sys where "s0 = \<lparr>reg = creg_init, pcs = \<lambda>_. Idle\<rparr>"
  define s1 where "s1 = goto 0 (Before WaitEmpty) s0"
  define s2 where "s2 = goto 0 (Inside WaitEmpty 0) (s1\<lparr>reg := reg s1\<lparr>cr_sem := 0\<rparr>\<rparr>)"
  define s3 where "s3 = goto 0 (After WaitEmpty) s2"
  have "creg_reach s1"
    unfolding s1_def
    by (rule creg_reach.step [of s0]) (simp add: s0_def creg_reach.start, rule creg_step.invoke, simp_all add: s0_def)
  then have "creg_reach s2"
    unfolding s2_def by (rule creg_reach.step) (rule creg_step.acquire, simp_all add: s1_def s0_def P_def creg_init_inv)
  then have r: "creg_reach s3"
    unfolding s3_def by (rule creg_reach.step)
      (rule creg_step.wait_over, simp_all add: s2_def s1_def s0_def creg_init_def initClientList_def)
  moreover have "pcs s3 0 = After WaitEmpty" by (simp add: s3_def)
  ultimately show ?thesis using wait_for_empty_means_empty [OF r, of 0] by blast
qed

end
