(* ===== verification/Server_Trans.thy ===== *)
theory Server_Trans
  imports Ring Server_Registry
begin

section \<open>Server store: the transaction manager\<close>

text \<open>
  \<open>Server Store/src/transaction.c\<close>. Transactions are never freed (the code that would is commented
  out in \<open>trans_unref\<close>), so a transaction is named by the order of its allocation: pointer \<open>k + 1\<close> is
  the transaction with id \<open>k\<close>, pointer 0 the sentinel \<open>trans_list\<close>. A call ends by returning, by
  \<open>exit(EXIT_FAILURE)\<close>, or by blocking on a semaphore; \<open>Fuel\<close> marks a recursion of \<open>trans_abort\<close> that
  is deeper than its bound, which is shown not to happen. \<open>malloc\<close> is taken to succeed.
\<close>

datatype TRANS_STATUS = TRANS_PENDING | TRANS_COMMITTED | TRANS_ABORTED

record TRANSACTION =
  t_id :: u32
  t_refcnt :: u32
  t_status :: TRANS_STATUS
  t_depends :: "nat list"
  t_waitcnt :: int
  t_sem :: nat
  t_next :: nat
  t_prev :: nat

record tman =
  heap :: "nat \<Rightarrow> TRANSACTION"
  ntrans :: nat

datatype 'a tres = Ret 'a | Exit | Blocked | Fuel

abbreviation upd :: "nat \<Rightarrow> (TRANSACTION \<Rightarrow> TRANSACTION) \<Rightarrow> tman \<Rightarrow> tman" where
  "upd p f s \<equiv> s\<lparr>heap := (heap s)(p := f (heap s p))\<rparr>"

abbreviation status :: "tman \<Rightarrow> nat \<Rightarrow> TRANS_STATUS" where
  "status s p \<equiv> t_status (heap s p)"

abbreviation depends :: "tman \<Rightarrow> nat \<Rightarrow> nat list" where
  "depends s p \<equiv> t_depends (heap s p)"

subsection \<open>The list of all transactions\<close>

definition set_tnext :: "nat \<Rightarrow> nat \<Rightarrow> tman \<Rightarrow> tman" where
  "set_tnext p q s = upd p (\<lambda>t. t\<lparr>t_next := q\<rparr>) s"

definition set_tprev :: "nat \<Rightarrow> nat \<Rightarrow> tman \<Rightarrow> tman" where
  "set_tprev p q s = upd p (\<lambda>t. t\<lparr>t_prev := q\<rparr>) s"

definition trans_list_next :: "tman \<Rightarrow> nat \<Rightarrow> nat" where
  "trans_list_next s p = t_next (heap s p)"

definition trans_list_prev :: "tman \<Rightarrow> nat \<Rightarrow> nat" where
  "trans_list_prev s p = t_prev (heap s p)"

interpretation tl: linked trans_list_next trans_list_prev set_tnext set_tprev
  by unfold_locales
     (auto simp: trans_list_next_def trans_list_prev_def set_tnext_def set_tprev_def fun_eq_iff)

definition trans_init :: "tman \<Rightarrow> tman" where
  "trans_init s = (let s = set_tnext 0 0 s in set_tprev 0 0 s)"

definition add_trans_list :: "nat \<Rightarrow> tman \<Rightarrow> tman" where
  "add_trans_list tp s =
     (let s = set_tnext tp 0 s;
          s = set_tprev tp (trans_list_prev s 0) s;
          s = set_tnext (trans_list_prev s 0) tp s
      in set_tprev 0 tp s)"

definition remove_trans_list :: "nat \<Rightarrow> tman \<Rightarrow> tman" where
  "remove_trans_list tp s =
     (let s = set_tnext (trans_list_prev s tp) (trans_list_next s tp) s
      in set_tprev (trans_list_next s tp) (trans_list_prev s tp) s)"

subsection \<open>Reference counts, creation and dependencies\<close>

definition trans_ref :: "nat \<Rightarrow> tman \<Rightarrow> tman" where
  "trans_ref tp s = upd tp (\<lambda>t. t\<lparr>t_refcnt := t_refcnt t + 1\<rparr>) s"

definition trans_unref :: "nat \<Rightarrow> tman \<Rightarrow> tman" where
  "trans_unref tp s = upd tp (\<lambda>t. t\<lparr>t_refcnt := t_refcnt t - 1\<rparr>) s"

definition trans_get_status :: "nat \<Rightarrow> tman \<Rightarrow> TRANS_STATUS" where
  "trans_get_status tp s = t_status (heap s tp)"

definition trans_create :: "tman \<Rightarrow> nat \<times> tman" where
  "trans_create s =
     (let tp = ntrans s + 1;
          s = s\<lparr>heap := (heap s)(tp := \<lparr>t_id = of_nat (ntrans s), t_refcnt = 0, t_status = TRANS_PENDING,
                t_depends = [], t_waitcnt = 0, t_sem = 1, t_next = 0, t_prev = 0\<rparr>)\<rparr>;
          s = add_trans_list tp s;
          s = trans_ref tp s
      in (tp, s\<lparr>ntrans := ntrans s + 1\<rparr>))"

text \<open>A dependency node, its link still NULL.\<close>

definition dependency_create :: "nat \<Rightarrow> nat list" where
  "dependency_create tp = [tp]"

definition trans_add_dependency :: "nat \<Rightarrow> nat \<Rightarrow> tman \<Rightarrow> tman tres" where
  "trans_add_dependency tp dtp s =
     (case P (t_sem (heap s tp)) of None \<Rightarrow> Blocked
      | Some v \<Rightarrow>
          (let s = upd tp (\<lambda>t. t\<lparr>t_sem := v\<rparr>) s;
               s = upd tp (\<lambda>t. t\<lparr>t_depends := dependency_create dtp @ t_depends t\<rparr>) s;
               s = trans_ref dtp s
           in Ret (upd tp (\<lambda>t. t\<lparr>t_sem := V (t_sem t)\<rparr>) s)))"

function release_loop :: "TRANSACTION \<Rightarrow> TRANSACTION" where
  "release_loop t =
     (if t_waitcnt t > 0 then release_loop (t\<lparr>t_waitcnt := t_waitcnt t - 1, t_sem := V (t_sem t)\<rparr>) else t)"
  by pat_completeness auto
termination by (relation "measure (\<lambda>t. nat (t_waitcnt t))") auto

definition releaseDependents :: "nat \<Rightarrow> tman \<Rightarrow> tman" where
  "releaseDependents tp s = upd tp release_loop s"

subsection \<open>Commit\<close>

text \<open>
  The loop over the dependencies stops at a pending one: the thread then spins until that one's
  status changes, and \<open>commit_wake\<close> is what it does next.
\<close>

datatype commit_state = Done TRANS_STATUS | Waits nat "nat list" TRANS_STATUS

fun commit_loop :: "nat list \<Rightarrow> TRANS_STATUS \<Rightarrow> tman \<Rightarrow> commit_state \<times> tman" where
  "commit_loop [] st s = (Done st, s)"
| "commit_loop (d # ds) st s =
     (if trans_get_status d s = TRANS_ABORTED then (Done TRANS_ABORTED, s)
      else if trans_get_status d s = TRANS_PENDING
      then (Waits d ds st, upd d (\<lambda>t. t\<lparr>t_waitcnt := t_waitcnt t + 1\<rparr>) s)
      else commit_loop ds st s)"

definition commit_begin :: "nat \<Rightarrow> tman \<Rightarrow> (commit_state \<times> tman) option" where
  "commit_begin tp s =
     (case P (t_sem (heap s tp)) of None \<Rightarrow> None
      | Some v \<Rightarrow> (let s = upd tp (\<lambda>t. t\<lparr>t_sem := v\<rparr>) s in Some (commit_loop (depends s tp) TRANS_COMMITTED s)))"

definition commit_wake :: "nat \<Rightarrow> nat list \<Rightarrow> TRANS_STATUS \<Rightarrow> tman \<Rightarrow> commit_state \<times> tman" where
  "commit_wake d ds st s =
     (if trans_get_status d s = TRANS_PENDING then (Waits d ds st, s)
      else commit_loop ds (if trans_get_status d s = TRANS_ABORTED then TRANS_ABORTED else st) s)"

definition commit_end :: "nat \<Rightarrow> TRANS_STATUS \<Rightarrow> tman \<Rightarrow> tman" where
  "commit_end tp st s =
     (let s = upd tp (\<lambda>t. t\<lparr>t_status := st\<rparr>) s;
          s = releaseDependents tp s;
          s = trans_unref tp s
      in upd tp (\<lambda>t. t\<lparr>t_sem := V (t_sem t)\<rparr>) s)"

text \<open>The whole call when no other thread runs: a pending dependency then blocks it for ever.\<close>

definition trans_commit :: "nat \<Rightarrow> tman \<Rightarrow> (TRANS_STATUS \<times> tman) tres" where
  "trans_commit tp s =
     (case commit_begin tp s of None \<Rightarrow> Blocked
      | Some (Waits d ds st, s) \<Rightarrow> Blocked
      | Some (Done st, s) \<Rightarrow> (let s = commit_end tp st s in Ret (status s tp, s)))"

subsection \<open>Abort and shutdown\<close>

fun abort_rec :: "nat \<Rightarrow> nat \<Rightarrow> tman \<Rightarrow> tman tres"
  and abort_deps :: "nat \<Rightarrow> nat list \<Rightarrow> tman \<Rightarrow> tman tres" where
  "abort_rec 0 tp s = Fuel"
| "abort_rec (Suc n) tp s =
     (if trans_get_status tp s = TRANS_COMMITTED then Exit
      else if trans_get_status tp s = TRANS_PENDING then
        (case P (t_sem (heap s tp)) of None \<Rightarrow> Blocked
         | Some v \<Rightarrow>
            (let s = upd tp (\<lambda>t. t\<lparr>t_sem := v\<rparr>) s;
                 s = upd tp (\<lambda>t. t\<lparr>t_status := TRANS_ABORTED\<rparr>) s
             in case abort_deps n (depends s tp) s of
                  Ret s \<Rightarrow>
                    (let s = trans_unref tp s;
                         s = releaseDependents tp s
                     in Ret (upd tp (\<lambda>t. t\<lparr>t_sem := V (t_sem t)\<rparr>) s))
                | r \<Rightarrow> r))
      else Ret s)"
| "abort_deps n [] s = Ret s"
| "abort_deps n (d # ds) s =
     (case abort_rec n d s of Ret s \<Rightarrow> abort_deps n ds s | r \<Rightarrow> r)"

definition trans_abort :: "nat \<Rightarrow> tman \<Rightarrow> tman tres" where
  "trans_abort tp s = abort_rec (ntrans s + 1) tp s"

fun fini_loop :: "nat \<Rightarrow> nat \<Rightarrow> tman \<Rightarrow> tman tres" where
  "fini_loop 0 tp s = Fuel"
| "fini_loop (Suc k) tp s =
     (if tp = 0 then Ret s
      else case trans_abort tp s of Ret s \<Rightarrow> fini_loop k (trans_list_next s tp) s | r \<Rightarrow> r)"

definition trans_fini :: "tman \<Rightarrow> tman tres" where
  "trans_fini s = fini_loop (ntrans s + 1) (trans_list_next s 0) s"

declare release_loop.simps [simp del]


subsection \<open>The list holds the transactions in the order of their creation\<close>

lemma release_loop_eq:
  "release_loop t = t\<lparr>t_waitcnt := min (t_waitcnt t) 0, t_sem := t_sem t + nat (t_waitcnt t)\<rparr>"
proof (induction t rule: release_loop.induct)
  case (1 t)
  show ?case
  proof (cases "t_waitcnt t > 0")
    case True
    then show ?thesis using 1 by (subst release_loop.simps) (simp add: V_def nat_diff_distrib)
  qed (cases t, simp add: release_loop.simps)
qed

lemma links_upd:
  assumes "\<And>t. t_next (f t) = t_next t" "\<And>t. t_prev (f t) = t_prev t"
  shows "tl.rep (upd p f s) h xs = tl.rep s h xs"
proof -
  have "trans_list_next (upd p f s) = trans_list_next s" "trans_list_prev (upd p f s) = trans_list_prev s"
    using assms by (simp_all add: fun_eq_iff trans_list_next_def trans_list_prev_def)
  then show ?thesis by (simp only: tl.rep_def)
qed

lemma links_ntrans: "tl.rep (s\<lparr>ntrans := n\<rparr>) h xs = tl.rep s h xs"
proof -
  have "trans_list_next (s\<lparr>ntrans := n\<rparr>) = trans_list_next s" "trans_list_prev (s\<lparr>ntrans := n\<rparr>) = trans_list_prev s"
    by (simp_all add: fun_eq_iff trans_list_next_def trans_list_prev_def)
  then show ?thesis by (simp only: tl.rep_def)
qed

definition tman_inv :: "tman \<Rightarrow> bool" where
  "tman_inv s \<longleftrightarrow> tl.rep s 0 [1..<ntrans s + 1] \<and>
     (\<forall>p \<in> {1..ntrans s}. set (depends s p) \<subseteq> {1..ntrans s})"

definition tman_empty :: tman where
  "tman_empty = trans_init \<lparr>heap = \<lambda>_. \<lparr>t_id = 0, t_refcnt = 0, t_status = TRANS_PENDING, t_depends = [],
     t_waitcnt = 0, t_sem = 0, t_next = 0, t_prev = 0\<rparr>, ntrans = 0\<rparr>"

lemma tman_empty_inv: "tman_inv tman_empty" "ntrans tman_empty = 0"
proof -
  show n: "ntrans tman_empty = 0" by (simp add: tman_empty_def trans_init_def set_tnext_def set_tprev_def)
  show "tman_inv tman_empty"
    using tl.rep_init unfolding tman_inv_def n by (simp add: tman_empty_def trans_init_def)
qed

lemma trans_create_inv:
  assumes "tman_inv s" "trans_create s = (tp, s')"
  shows "tman_inv s'" "tp = ntrans s + 1" "ntrans s' = ntrans s + 1"
    and "status s' tp = TRANS_PENDING" "depends s' tp = []" "t_sem (heap s' tp) = 1" "t_refcnt (heap s' tp) = 1"
    and "\<And>p. p \<noteq> tp \<Longrightarrow> status s' p = status s p" "\<And>p. p \<noteq> tp \<Longrightarrow> depends s' p = depends s p"
    and "\<And>p. p \<noteq> tp \<Longrightarrow> t_sem (heap s' p) = t_sem (heap s p)"
proof -
  let ?t = "\<lparr>t_id = of_nat (ntrans s), t_refcnt = 0, t_status = TRANS_PENDING,
                t_depends = [], t_waitcnt = 0, t_sem = 1, t_next = 0, t_prev = 0\<rparr>"
  let ?s = "s\<lparr>heap := (heap s)(tp := ?t)\<rparr>"
  show tp: "tp = ntrans s + 1" using assms(2) by (auto simp: trans_create_def Let_def)
  have s': "s' = (trans_ref tp (add_trans_list tp ?s))\<lparr>ntrans := ntrans s + 1\<rparr>"
    using assms(2) by (auto simp: trans_create_def Let_def trans_ref_def add_trans_list_def set_tnext_def set_tprev_def)
  show n: "ntrans s' = ntrans s + 1" by (simp add: s')
  have f: "status s' p = status ?s p" "depends s' p = depends ?s p" "t_sem (heap s' p) = t_sem (heap ?s p)" for p
    by (simp_all add: s' add_trans_list_def trans_ref_def set_tnext_def set_tprev_def Let_def)
  show "status s' tp = TRANS_PENDING" "depends s' tp = []" "t_sem (heap s' tp) = 1" by (simp_all add: f)
  show "t_refcnt (heap s' tp) = 1"
    using tp by (simp add: s' trans_ref_def add_trans_list_def set_tnext_def set_tprev_def Let_def)
  show "\<And>p. p \<noteq> tp \<Longrightarrow> status s' p = status s p" "\<And>p. p \<noteq> tp \<Longrightarrow> depends s' p = depends s p"
    "\<And>p. p \<noteq> tp \<Longrightarrow> t_sem (heap s' p) = t_sem (heap s p)"
    by (simp_all add: f)
  have "ring (trans_list_next s) (trans_list_prev s) 0 [1..<tp]"
    using assms(1) by (simp add: tman_inv_def tl.rep_def tp)
  then have "chain (trans_list_next s) (trans_list_prev s) 0 [1..<tp] 0" unfolding ring_def by blast
  then have "chain (trans_list_next ?s) (trans_list_prev ?s) 0 [1..<tp] 0"
    by (rule chain_cong) (auto simp: trans_list_next_def trans_list_prev_def tp)
  then have "tl.rep ?s 0 [1..<tp]" by (simp add: tl.rep_def ring_def)
  then have "tl.rep (add_trans_list tp ?s) 0 ([1..<tp] @ [tp])"
    unfolding add_trans_list_def by (rule tl.rep_add_last) (simp_all add: tp)
  then have "tl.rep (trans_ref tp (add_trans_list tp ?s)) 0 ([1..<tp] @ [tp])"
    unfolding trans_ref_def by (subst links_upd) simp_all
  then have "tl.rep s' 0 [1..<ntrans s' + 1]" unfolding s' links_ntrans by (simp add: tp)
  moreover have "set (depends s' p) \<subseteq> {1..ntrans s'}" if "p \<in> {1..ntrans s'}" for p
  proof (cases "p = tp")
    case False
    then have "p \<in> {1..ntrans s}" using that by (simp add: n tp)
    then have "set (depends s p) \<subseteq> {1..ntrans s}" using assms(1) by (simp add: tman_inv_def)
    then show ?thesis using False f(2) [of p] n by auto
  qed (simp add: f)
  ultimately show "tman_inv s'" by (simp add: tman_inv_def)
qed


subsection \<open>What an abort changes\<close>

definition dep_rel :: "tman \<Rightarrow> (nat \<times> nat) set" where
  "dep_rel s = {(p, d). d \<in> set (depends s p)}"

text \<open>
  From \<open>s\<close> to \<open>s'\<close> the transactions \<open>rs\<close> have been aborted: nothing but statuses, counts and
  semaphores has changed; a changed status went from pending to aborted, belongs to a transaction
  that some \<open>r\<close> of \<open>rs\<close> depends on, directly or not, and so do those it depends on.
\<close>

definition aborted :: "nat set \<Rightarrow> tman \<Rightarrow> tman \<Rightarrow> bool" where
  "aborted rs s s' \<longleftrightarrow> ntrans s' = ntrans s \<and> (\<forall>h xs. tl.rep s' h xs = tl.rep s h xs) \<and>
     (\<forall>p. depends s' p = depends s p) \<and>
     (\<forall>p. trans_list_next s' p = trans_list_next s p) \<and>
     (\<forall>r \<in> rs. status s' r = TRANS_ABORTED) \<and>
     (\<forall>p. status s' p \<noteq> status s p \<longrightarrow> status s p = TRANS_PENDING \<and> status s' p = TRANS_ABORTED \<and>
        (\<exists>r \<in> rs. (r, p) \<in> (dep_rel s)\<^sup>*) \<and> (\<forall>d \<in> set (depends s p). status s' d = TRANS_ABORTED))"

lemma abortedD:
  assumes "aborted rs s s'"
  shows "ntrans s' = ntrans s" "tl.rep s' h xs = tl.rep s h xs" "depends s' p = depends s p"
    and "trans_list_next s' p = trans_list_next s p"
    and "r \<in> rs \<Longrightarrow> status s' r = TRANS_ABORTED"
    and "status s' p \<noteq> status s p \<Longrightarrow> status s p = TRANS_PENDING"
    and "status s' p \<noteq> status s p \<Longrightarrow> status s' p = TRANS_ABORTED"
    and "status s' p \<noteq> status s p \<Longrightarrow> \<exists>r \<in> rs. (r, p) \<in> (dep_rel s)\<^sup>*"
    and "status s' p \<noteq> status s p \<Longrightarrow> d \<in> set (depends s p) \<Longrightarrow> status s' d = TRANS_ABORTED"
    and "dep_rel s' = dep_rel s"
  using assms unfolding aborted_def dep_rel_def by simp_all

lemma abortedI:
  assumes "ntrans s' = ntrans s" "\<And>h xs. tl.rep s' h xs = tl.rep s h xs" "\<And>p. depends s' p = depends s p"
    and "\<And>p. trans_list_next s' p = trans_list_next s p" "\<And>r. r \<in> rs \<Longrightarrow> status s' r = TRANS_ABORTED"
    and "\<And>p. status s' p \<noteq> status s p \<Longrightarrow> status s p = TRANS_PENDING \<and> status s' p = TRANS_ABORTED \<and>
        (\<exists>r \<in> rs. (r, p) \<in> (dep_rel s)\<^sup>*) \<and> (\<forall>d \<in> set (depends s p). status s' d = TRANS_ABORTED)"
  shows "aborted rs s s'"
  using assms by (simp add: aborted_def)

lemma aborted_stable:
  assumes "aborted rs s s'"
  shows "status s p = TRANS_ABORTED \<Longrightarrow> status s' p = TRANS_ABORTED"
    and "status s' p = TRANS_COMMITTED \<longleftrightarrow> status s p = TRANS_COMMITTED"
  using abortedD(6,7) [OF assms, of p] by force+

lemma aborted_trans:
  assumes "aborted {d} s s1" "aborted rs s1 s2"
  shows "aborted (insert d rs) s s2"
proof -
  note a = abortedD [OF assms(1)] and b = abortedD [OF assms(2)]
  have "status s p = TRANS_PENDING \<and> status s2 p = TRANS_ABORTED \<and>
      (\<exists>r \<in> insert d rs. (r, p) \<in> (dep_rel s)\<^sup>*) \<and> (\<forall>e \<in> set (depends s p). status s2 e = TRANS_ABORTED)"
    if ch: "status s2 p \<noteq> status s p" for p
  proof (cases "status s1 p = status s p")
    case True
    then have "status s2 p \<noteq> status s1 p" using ch by simp
    then show ?thesis using b(6-9) [of p] True a(3,10) by auto
  next
    case False
    then show ?thesis
      using a(6-9) [OF False] aborted_stable(1) [OF assms(2)] by auto
  qed
  moreover have "status s2 r = TRANS_ABORTED" if "r \<in> insert d rs" for r
    using that a(5) b(5) aborted_stable(1) [OF assms(2)] by auto
  ultimately show ?thesis using a(1-4) b(1-4) by (intro abortedI) simp_all
qed

lemma aborted_refl: "aborted {} s s" "status s p = TRANS_ABORTED \<Longrightarrow> aborted {p} s s"
  by (simp_all add: aborted_def)

lemma aborted_finish:
  assumes "aborted rs s s'" "\<And>t. t_next (f t) = t_next t" "\<And>t. t_prev (f t) = t_prev t"
    and "\<And>t. t_status (f t) = t_status t" "\<And>t. t_depends (f t) = t_depends t"
  shows "aborted rs s (upd p f s')"
proof -
  have "status (upd p f s') q = status s' q" "depends (upd p f s') q = depends s' q"
    "trans_list_next (upd p f s') q = trans_list_next s' q" for q
    using assms by (simp_all add: trans_list_next_def)
  moreover have "tl.rep (upd p f s') h xs = tl.rep s' h xs" for h xs
    using assms by (intro links_upd)
  ultimately show ?thesis
    using assms(1) unfolding aborted_def by (simp del: fun_upd_apply)
qed

lemma aborted_mark:
  assumes "status s tp = TRANS_PENDING"
    and "s1 = upd tp (\<lambda>t. t\<lparr>t_status := TRANS_ABORTED\<rparr>) (upd tp (\<lambda>t. t\<lparr>t_sem := v\<rparr>) s)"
    and "aborted (set (depends s tp)) s1 s2"
  shows "aborted {tp} s s2"
proof -
  note b = abortedD [OF assms(3)]
  have s1: "status s1 tp = TRANS_ABORTED" "\<And>q. q \<noteq> tp \<Longrightarrow> status s1 q = status s q"
      "\<And>q. depends s1 q = depends s q" "\<And>q. trans_list_next s1 q = trans_list_next s q" "ntrans s1 = ntrans s"
    unfolding assms(2) by (simp_all add: trans_list_next_def)
  have rep: "tl.rep s1 h xs = tl.rep s h xs" for h xs
    unfolding assms(2) by (rule trans [OF links_upd links_upd]) simp_all
  have d: "dep_rel s1 = dep_rel s" by (simp add: dep_rel_def s1)
  have t2: "status s2 tp = TRANS_ABORTED" using aborted_stable(1) [OF assms(3)] s1(1) by blast
  have "status s p = TRANS_PENDING \<and> status s2 p = TRANS_ABORTED \<and>
      (tp, p) \<in> (dep_rel s)\<^sup>* \<and> (\<forall>e \<in> set (depends s p). status s2 e = TRANS_ABORTED)"
    if ch: "status s2 p \<noteq> status s p" for p
  proof (cases "p = tp")
    case True
    then show ?thesis using assms(1) t2 b(5) by auto
  next
    case False
    then have c: "status s2 p \<noteq> status s1 p" using ch s1(2) by simp
    then obtain r where "r \<in> set (depends s tp)" "(r, p) \<in> (dep_rel s)\<^sup>*" using b(8) d by auto
    then have "(tp, p) \<in> (dep_rel s)\<^sup>*"
      by (auto simp: dep_rel_def intro: converse_rtrancl_into_rtrancl)
    then show ?thesis using b(6,7,9) [OF c] s1(2,3) False by auto
  qed
  then show ?thesis using t2 b(1-4) s1(3-5) rep by (intro abortedI) simp_all
qed

lemma abort_rec_aborted:
  "abort_rec n tp s = Ret s' \<Longrightarrow> aborted {tp} s s'"
  "abort_deps n ds s = Ret s' \<Longrightarrow> aborted (set ds) s s'"
proof (induction n tp s and n ds s arbitrary: s' and s' rule: abort_rec_abort_deps.induct)
  case (2 n tp s)
  show ?case
  proof (cases "status s tp")
    case TRANS_PENDING
    then obtain v where v: "P (t_sem (heap s tp)) = Some v"
      using "2.prems" by (auto simp: trans_get_status_def split: option.splits)
    let ?s1 = "upd tp (\<lambda>t. t\<lparr>t_status := TRANS_ABORTED\<rparr>) (upd tp (\<lambda>t. t\<lparr>t_sem := v\<rparr>) s)"
    obtain s2 where s2: "abort_deps n (depends s tp) ?s1 = Ret s2"
        "s' = upd tp (\<lambda>t. t\<lparr>t_sem := V (t_sem t)\<rparr>) (releaseDependents tp (trans_unref tp s2))"
      using "2.prems" TRANS_PENDING v by (auto simp: trans_get_status_def Let_def split: tres.splits)
    have "aborted (set (depends s tp)) ?s1 s2"
      using "2.IH" [OF _ _ v refl refl, of s2] s2(1) TRANS_PENDING by (simp add: trans_get_status_def)
    from aborted_mark [OF TRANS_PENDING refl this]
    have "aborted {tp} s s2" .
    then show ?thesis
      unfolding s2(2) releaseDependents_def trans_unref_def
      by (intro aborted_finish) (simp_all add: release_loop_eq)
  next
    case TRANS_ABORTED
    then show ?thesis using "2.prems" by (auto simp: trans_get_status_def aborted_refl)
  qed (use "2.prems" in \<open>simp add: trans_get_status_def\<close>)
next
  case (4 n d ds s)
  then obtain s1 where "abort_rec n d s = Ret s1" "abort_deps n ds s1 = Ret s'"
    by (auto split: tres.splits)
  then show ?case using 4 aborted_trans [of d s s1 "set ds" s'] by simp
qed (auto simp: aborted_refl)


subsection \<open>Aborting ends\<close>

definition pend :: "tman \<Rightarrow> nat set" where
  "pend s = {p \<in> {1..ntrans s}. status s p = TRANS_PENDING}"

definition deps_closed :: "tman \<Rightarrow> bool" where
  "deps_closed s \<longleftrightarrow> (\<forall>p \<in> {1..ntrans s}. set (depends s p) \<subseteq> {1..ntrans s})"

lemma tman_inv_closed: "tman_inv s \<Longrightarrow> deps_closed s"
  by (simp add: tman_inv_def deps_closed_def)

lemma aborted_closed: "aborted rs s s' \<Longrightarrow> deps_closed s' \<longleftrightarrow> deps_closed s"
  by (simp add: deps_closed_def abortedD(1,3))

lemma aborted_tman_inv: "aborted rs s s' \<Longrightarrow> tman_inv s' \<longleftrightarrow> tman_inv s"
  by (simp add: tman_inv_def abortedD(1-3))

lemma card_pend_aborted: "aborted rs s s' \<Longrightarrow> card (pend s') \<le> card (pend s)"
  using aborted_stable [of rs s s'] abortedD(1,6) [of rs s s']
  by (intro card_mono) (auto simp: pend_def, metis TRANS_STATUS.distinct(3) abortedD(7))

lemma abort_rec_fuel:
  "deps_closed s \<Longrightarrow> tp \<in> {1..ntrans s} \<Longrightarrow> card (pend s) < n \<Longrightarrow> abort_rec n tp s \<noteq> Fuel"
  "deps_closed s \<Longrightarrow> set ds \<subseteq> {1..ntrans s} \<Longrightarrow> card (pend s) < n \<Longrightarrow> abort_deps n ds s \<noteq> Fuel"
proof (induction n tp s and n ds s rule: abort_rec_abort_deps.induct)
  case (2 n tp s)
  show ?case
  proof (cases "status s tp = TRANS_PENDING \<and> P (t_sem (heap s tp)) \<noteq> None")
    case True
    then obtain v where v: "P (t_sem (heap s tp)) = Some v" by auto
    let ?s1 = "upd tp (\<lambda>t. t\<lparr>t_status := TRANS_ABORTED\<rparr>) (upd tp (\<lambda>t. t\<lparr>t_sem := v\<rparr>) s)"
    have c: "deps_closed ?s1" using "2.prems"(1) by (simp add: deps_closed_def)
    have d: "set (depends s tp) \<subseteq> {1..ntrans ?s1}" using "2.prems"(1,2) by (simp add: deps_closed_def)
    have "pend ?s1 = pend s - {tp}" by (auto simp: pend_def)
    moreover have "tp \<in> pend s" using True "2.prems"(2) by (simp add: pend_def)
    moreover have "finite (pend s)" by (simp add: pend_def)
    ultimately have "card (pend ?s1) < n" using "2.prems"(3) by (metis card_Suc_Diff1 Suc_less_SucD)
    then have "abort_deps n (depends s tp) ?s1 \<noteq> Fuel"
      using "2.IH" [OF _ _ v refl refl] c d True by (simp add: trans_get_status_def)
    then show ?thesis using v by (auto simp: Let_def trans_get_status_def split: tres.splits)
  next
    case False
    then show ?thesis by (auto simp: trans_get_status_def split: option.splits)
  qed
next
  case (4 n d ds s)
  have d: "abort_rec n d s \<noteq> Fuel" using 4 by simp
  show ?case
  proof (cases "abort_rec n d s")
    case (Ret s1)
    note a = abort_rec_aborted(1) [OF Ret]
    have "abort_deps n ds s1 \<noteq> Fuel"
      using "4.IH"(2) [OF Ret] "4.prems" aborted_closed [OF a] abortedD(1) [OF a] card_pend_aborted [OF a] by simp
    then show ?thesis using Ret by simp
  qed (use d in simp_all)
qed simp_all

lemma trans_abort_fuel:
  assumes "tman_inv s" "tp \<in> {1..ntrans s}"
  shows "trans_abort tp s \<noteq> Fuel"
proof -
  have "card (pend s) \<le> card {1..ntrans s}" by (intro card_mono) (auto simp: pend_def)
  then show ?thesis
    unfolding trans_abort_def using assms tman_inv_closed by (intro abort_rec_fuel) auto
qed

lemma trans_abort_aborted: "trans_abort tp s = Ret s' \<Longrightarrow> aborted {tp} s s'"
  unfolding trans_abort_def by (rule abort_rec_aborted)

lemma trans_abort_deps:
  assumes "trans_abort tp s = Ret s'" "status s tp = TRANS_PENDING" "d \<in> set (depends s tp)"
  shows "status s' d = TRANS_ABORTED"
proof -
  note a = abortedD [OF trans_abort_aborted [OF assms(1)]]
  show ?thesis using a(5,9) [of tp] assms(2,3) by simp
qed

subsection \<open>Properties of aborting\<close>


text \<open>Two transactions, the second depending on the first.\<close>

definition demo_trans :: tman where
  "demo_trans = (let (a, s) = trans_create tman_empty; (b, s) = trans_create s
     in case trans_add_dependency b a s of Ret s \<Rightarrow> s | _ \<Rightarrow> s)"

lemma demo_trans_inv:
  "tman_inv demo_trans" "ntrans demo_trans = 2" "depends demo_trans 2 = [1]" "depends demo_trans 1 = []"
  "status demo_trans 1 = TRANS_PENDING" "status demo_trans 2 = TRANS_PENDING"
  "t_sem (heap demo_trans 1) = 1" "t_sem (heap demo_trans 2) = 1"
proof -
  obtain a s1 where a: "trans_create tman_empty = (a, s1)" by fastforce
  obtain b s2 where b: "trans_create s1 = (b, s2)" by fastforce
  note i1 = trans_create_inv [OF tman_empty_inv(1) a]
  note i2 = trans_create_inv [OF i1(1) b]
  have ab: "a = 1" "b = 2" using i1(2,3) i2(2) tman_empty_inv(2) by simp_all
  obtain s3 where s3: "trans_add_dependency b a s2 = Ret s3"
    using i2(6) by (simp add: trans_add_dependency_def P_def Let_def)
  have d: "demo_trans = s3" by (simp add: demo_trans_def a b s3)
  have s3_eq: "s3 = upd b (\<lambda>t. t\<lparr>t_sem := V (t_sem t)\<rparr>) (trans_ref a
      (upd b (\<lambda>t. t\<lparr>t_depends := dependency_create a @ t_depends t\<rparr>) (upd b (\<lambda>t. t\<lparr>t_sem := 0\<rparr>) s2)))"
    using s3 i2(6) by (simp add: trans_add_dependency_def P_def Let_def)
  have rep: "tl.rep s3 h xs = tl.rep s2 h xs" for h xs
    unfolding s3_eq trans_ref_def
    by (rule trans [OF links_upd trans [OF links_upd trans [OF links_upd links_upd]]]) simp_all
  show "ntrans demo_trans = 2" "depends demo_trans 2 = [1]" "depends demo_trans 1 = []"
    "status demo_trans 1 = TRANS_PENDING" "status demo_trans 2 = TRANS_PENDING"
    "t_sem (heap demo_trans 1) = 1" "t_sem (heap demo_trans 2) = 1"
    unfolding d s3_eq
    using i1(3-6) i2 ab tman_empty_inv(2) by (simp_all add: trans_ref_def dependency_create_def V_def)
  then show "tman_inv demo_trans"
    using i2(1) rep i2(3) i1(3) tman_empty_inv(2) unfolding tman_inv_def d
    by (auto simp: numeral_2_eq_2 le_Suc_eq)
qed



text \<open>The transactions that depend on an aborted one are not aborted, although the header says they
  must be: unless the aborted transaction depends on them in turn they stay as they were.\<close>

theorem dependents_not_aborted:
  assumes "trans_abort tp s = Ret s'" "tp \<in> set (depends s u)" "(tp, u) \<notin> (dep_rel s)\<^sup>*"
  shows "status s' u = status s u"
  using abortedD(8) [OF trans_abort_aborted [OF assms(1)], of u] assms(3) by blast

theorem dependents_not_aborted_witness:
  "\<exists>s'. trans_abort 1 demo_trans = Ret s' \<and> status s' 2 = TRANS_PENDING"
proof -
  obtain s' where s': "trans_abort 1 demo_trans = Ret s'"
    using demo_trans_inv(2-)
    by (auto simp: trans_abort_def trans_get_status_def P_def Let_def numeral_3_eq_3)
  have "(1, u) \<in> (dep_rel demo_trans)\<^sup>* \<Longrightarrow> u = 1" for u
    by (erule converse_rtranclE) (use demo_trans_inv in \<open>auto simp: dep_rel_def\<close>)
  then have "(1, 2) \<notin> (dep_rel demo_trans)\<^sup>*" by force
  from dependents_not_aborted [OF s' _ this] show ?thesis using s' demo_trans_inv by simp
qed

text \<open>The same after the first has committed.\<close>

definition demo_committed :: tman where
  "demo_committed = commit_end 1 TRANS_COMMITTED (upd 1 (\<lambda>t. t\<lparr>t_sem := 0\<rparr>) demo_trans)"

lemma demo_committed_inv:
  "trans_commit 1 demo_trans = Ret (TRANS_COMMITTED, demo_committed)" "tman_inv demo_committed"
  "ntrans demo_committed = 2" "depends demo_committed 2 = [1]" "depends demo_committed 1 = []"
  "status demo_committed 1 = TRANS_COMMITTED" "status demo_committed 2 = TRANS_PENDING"
  "t_sem (heap demo_committed 2) = 1"
proof -
  note defs = demo_committed_def commit_end_def trans_unref_def releaseDependents_def release_loop_eq Let_def
  show "trans_commit 1 demo_trans = Ret (TRANS_COMMITTED, demo_committed)"
    using demo_trans_inv by (simp add: trans_commit_def commit_begin_def P_def defs)
  show n: "ntrans demo_committed = 2" "depends demo_committed 2 = [1]" "depends demo_committed 1 = []"
    "status demo_committed 1 = TRANS_COMMITTED" "status demo_committed 2 = TRANS_PENDING"
    "t_sem (heap demo_committed 2) = 1"
    using demo_trans_inv by (simp_all add: defs)
  have "tl.rep demo_committed h xs = tl.rep demo_trans h xs" for h xs
    unfolding demo_committed_def commit_end_def releaseDependents_def trans_unref_def Let_def
    by (rule trans [OF links_upd trans [OF links_upd trans [OF links_upd trans [OF links_upd links_upd]]]])
       (simp_all add: release_loop_eq)
  then show "tman_inv demo_committed"
    using demo_trans_inv(1,2) n unfolding tman_inv_def by (auto simp: numeral_2_eq_2 le_Suc_eq)
qed

text \<open>Aborting a pending transaction one of whose dependencies has committed never returns: the
  recursive call treats the committed dependency as a fatal error and ends the whole server (or the
  call blocks on a semaphore first).\<close>

theorem abort_with_committed_dependency:
  assumes "tman_inv s" "1 \<le> tp" "tp \<le> ntrans s" "status s tp = TRANS_PENDING"
    and "d \<in> set (depends s tp)" "status s d = TRANS_COMMITTED"
  shows "trans_abort tp s = Exit \<or> trans_abort tp s = Blocked"
proof (cases "trans_abort tp s")
  case (Ret s')
  have "status s' d = TRANS_ABORTED" using trans_abort_deps [OF Ret assms(4,5)] .
  then show ?thesis using aborted_stable(2) [OF trans_abort_aborted [OF Ret], of d] assms(6) by simp
qed (use trans_abort_fuel [of s tp] assms(1-3) in simp_all)

theorem abort_with_committed_dependency_witness:
  "trans_commit 1 demo_trans = Ret (TRANS_COMMITTED, demo_committed) \<and> trans_abort 2 demo_committed = Exit"
proof -
  note n = demo_committed_inv
  from abort_with_committed_dependency [OF n(2), of 2 1] n
  have "trans_abort 2 demo_committed = Exit \<or> trans_abort 2 demo_committed = Blocked" by simp
  moreover have "trans_abort 2 demo_committed \<noteq> Blocked"
    using n by (simp add: trans_abort_def trans_get_status_def P_def Let_def numeral_3_eq_3)
  ultimately show ?thesis using n(1) by blast
qed

lemma trans_next:
  assumes "tl.rep s 0 [1..<ntrans s + 1]" "1 \<le> tp" "tp \<le> ntrans s"
  shows "trans_list_next s tp = (if tp < ntrans s then tp + 1 else 0)"
proof -
  have "[1..<ntrans s + 1] = [1..<tp] @ [tp..<ntrans s + 1]"
    using upt_add_eq_append [of 1 tp "ntrans s + 1 - tp"] assms(2,3) by (simp del: upt_Suc)
  moreover have "[tp..<ntrans s + 1] = tp # [tp + 1..<ntrans s + 1]"
    using assms(3) by (simp add: upt_conv_Cons del: upt_Suc)
  ultimately have "tl.rep s 0 ([1..<tp] @ tp # [tp + 1..<ntrans s + 1])" using assms(1) by simp
  then have "trans_list_next s tp = (case [tp + 1..<ntrans s + 1] of [] \<Rightarrow> 0 | y # _ \<Rightarrow> y)"
    by (rule tl.rep_in)
  then show ?thesis using assms(3) by (simp add: upt_conv_Cons del: upt_Suc)
qed

lemma fini_loop_not_ret:
  assumes "tl.rep s 0 [1..<ntrans s + 1]" "1 \<le> tp" "tp \<le> c" "c \<le> ntrans s" "status s c = TRANS_COMMITTED"
  shows "\<exists>s'. fini_loop k tp s = Ret s' \<Longrightarrow> False"
  using assms
proof (induction k tp s rule: fini_loop.induct)
  case (2 k tp s)
  then obtain s1 where s1: "trans_abort tp s = Ret s1" "\<exists>s'. fini_loop k (trans_list_next s1 tp) s1 = Ret s'"
    by (auto split: tres.splits)
  note a = trans_abort_aborted [OF s1(1)]
  have c1: "status s1 c = TRANS_COMMITTED" using aborted_stable(2) [OF a] 2(7) by simp
  moreover have "status s1 tp = TRANS_ABORTED" using abortedD(5) [OF a] by simp
  ultimately have lt: "tp < c" using 2(5) by (metis TRANS_STATUS.distinct(5) le_neq_implies_less)
  have "trans_list_next s tp = tp + 1" using trans_next [OF 2(3,4)] lt 2(6) by simp
  then have nx: "trans_list_next s1 tp = tp + 1" using abortedD(4) [OF a] by simp
  show ?case
  proof (rule "2.IH" [of s1])
    show "tp \<noteq> 0" using 2(4) by simp
    show "trans_abort tp s = Ret s1" by (rule s1)
    show "\<exists>s'. fini_loop k (trans_list_next s1 tp) s1 = Ret s'" by (rule s1)
    show "tl.rep s1 0 [1..<ntrans s1 + 1]" using abortedD(1,2) [OF a] 2(3) by simp
    show "1 \<le> trans_list_next s1 tp" "trans_list_next s1 tp \<le> c" using nx lt by simp_all
    show "c \<le> ntrans s1" using 2(6) abortedD(1) [OF a] by simp
    show "status s1 c = TRANS_COMMITTED" by (rule c1)
  qed
qed simp

text \<open>After any commit the server cannot shut down cleanly: \<open>trans_fini\<close> walks the list of all
  transactions, from which none is ever removed, and aborts each, so it does not return once some
  transaction has committed.\<close>

theorem shutdown_fails_after_commit:
  assumes "tman_inv s" "1 \<le> c" "c \<le> ntrans s" "status s c = TRANS_COMMITTED"
  shows "\<nexists>s'. trans_fini s = Ret s'"
proof -
  have r: "tl.rep s 0 [1..<ntrans s + 1]" using assms(1) by (simp add: tman_inv_def)
  then have "trans_list_next s 0 = 1" using tl.rep_first [OF r] assms(2,3) by (simp add: upt_conv_Cons del: upt_Suc)
  then show ?thesis
    unfolding trans_fini_def using fini_loop_not_ret [OF r _ assms(2-4), of "ntrans s + 1"] by auto
qed


theorem shutdown_fails_after_commit_witness:
  "\<nexists>s'. trans_fini demo_committed = Ret s'"
  using shutdown_fails_after_commit [OF demo_committed_inv(2), of 1] demo_committed_inv by simp


subsection \<open>Transactions of concurrent clients\<close>

text \<open>
  One service thread per transaction. A thread runs its calls to the end or, inside \<open>trans_commit\<close>, up
  to a pending dependency, where it waits while other threads run; calls are interleaved at these
  points. The dependencies come from the store, which may add any; it may also abort any transaction
  and take and drop references.
\<close>

datatype thread = Running | Waiting nat "nat list" TRANS_STATUS | Ended

record csys =
  tm :: tman
  th :: "nat \<Rightarrow> thread"

inductive tstep :: "csys \<Rightarrow> csys \<Rightarrow> bool" where
  create: "trans_create (tm c) = (tp, s) \<Longrightarrow> tstep c \<lparr>tm = s, th = (th c)(tp := Running)\<rparr>"
| depend: "th c p = Running \<Longrightarrow> p \<in> {1..ntrans (tm c)} \<Longrightarrow> d \<in> {1..ntrans (tm c)} \<Longrightarrow>
    trans_add_dependency p d (tm c) = Ret s \<Longrightarrow> tstep c \<lparr>tm = s, th = th c\<rparr>"
| commit_now: "th c p = Running \<Longrightarrow> p \<in> {1..ntrans (tm c)} \<Longrightarrow> commit_begin p (tm c) = Some (Done st, s) \<Longrightarrow>
    tstep c \<lparr>tm = commit_end p st s, th = (th c)(p := Ended)\<rparr>"
| commit_wait: "th c p = Running \<Longrightarrow> p \<in> {1..ntrans (tm c)} \<Longrightarrow> commit_begin p (tm c) = Some (Waits d ds st, s) \<Longrightarrow>
    tstep c \<lparr>tm = s, th = (th c)(p := Waiting d ds st)\<rparr>"
| wake_wait: "th c p = Waiting d ds st \<Longrightarrow> p \<in> {1..ntrans (tm c)} \<Longrightarrow> commit_wake d ds st (tm c) = (Waits d' ds' st', s) \<Longrightarrow>
    tstep c \<lparr>tm = s, th = (th c)(p := Waiting d' ds' st')\<rparr>"
| wake_end: "th c p = Waiting d ds st \<Longrightarrow> p \<in> {1..ntrans (tm c)} \<Longrightarrow> commit_wake d ds st (tm c) = (Done st', s) \<Longrightarrow>
    tstep c \<lparr>tm = commit_end p st' s, th = (th c)(p := Ended)\<rparr>"
| abort: "th c p = Running \<Longrightarrow> p \<in> {1..ntrans (tm c)} \<Longrightarrow> trans_abort p (tm c) = Ret s \<Longrightarrow>
    tstep c \<lparr>tm = s, th = (th c)(p := Ended)\<rparr>"
| abort_other: "trans_abort q (tm c) = Ret s \<Longrightarrow> tstep c \<lparr>tm = s, th = th c\<rparr>"
| count: "tstep c \<lparr>tm = upd q (\<lambda>t. t\<lparr>t_refcnt := r\<rparr>) (tm c), th = th c\<rparr>"

inductive treach :: "csys \<Rightarrow> bool" where
  start: "treach \<lparr>tm = tman_empty, th = \<lambda>_. Ended\<rparr>"
| step: "treach c \<Longrightarrow> tstep c c' \<Longrightarrow> treach c'"

definition same_deps :: "tman \<Rightarrow> tman \<Rightarrow> bool" where
  "same_deps s s' \<longleftrightarrow> ntrans s' = ntrans s \<and> (\<forall>p. status s' p = status s p) \<and> (\<forall>p. depends s' p = depends s p)
     \<and> (\<forall>h xs. tl.rep s' h xs = tl.rep s h xs)"

lemma same_depsD:
  assumes "same_deps s s'"
  shows "ntrans s' = ntrans s" "status s' p = status s p" "depends s' p = depends s p" "tman_inv s' = tman_inv s"
  using assms by (simp_all add: same_deps_def tman_inv_def)

lemma same_deps_refl: "same_deps s s"
  by (simp add: same_deps_def)

lemma same_deps_upd:
  assumes "\<And>t. t_next (f t) = t_next t" "\<And>t. t_prev (f t) = t_prev t"
    and "\<And>t. t_status (f t) = t_status t" "\<And>t. t_depends (f t) = t_depends t"
  shows "same_deps s (upd p f s)"
  using assms links_upd [of f s p] by (simp add: same_deps_def)

lemma commit_loop_same: "commit_loop ds st s = (r, s') \<Longrightarrow> same_deps s s'"
  by (induction ds st s rule: commit_loop.induct)
     (auto intro: same_deps_refl same_deps_upd split: if_splits)

lemma commit_loop_done:
  "commit_loop ds st s = (Done TRANS_COMMITTED, s') \<Longrightarrow>
   st = TRANS_COMMITTED \<and> (\<forall>d \<in> set ds. status s d = TRANS_COMMITTED)"
  by (induction ds st s rule: commit_loop.induct)
     (auto simp: trans_get_status_def split: if_splits intro: TRANS_STATUS.exhaust)

lemma commit_loop_waits:
  "commit_loop ds st s = (Waits d ds' st', s') \<Longrightarrow>
   st' = st \<and> (\<exists>pre. ds = pre @ d # ds' \<and> (\<forall>x \<in> set pre. status s x = TRANS_COMMITTED))"
proof (induction ds st s rule: commit_loop.induct)
  case (2 e ds st s)
  show ?case
  proof (cases "status s e = TRANS_COMMITTED")
    case True
    then obtain pre where "st' = st" "ds = pre @ d # ds'" "\<forall>x \<in> set pre. status s x = TRANS_COMMITTED"
      using 2 by (auto simp: trans_get_status_def)
    then show ?thesis using True by (intro conjI exI [of _ "e # pre"]) auto
  next
    case False
    then show ?thesis
      using "2.prems" by (cases "status s e") (auto simp: trans_get_status_def)
  qed
qed simp

lemma commit_end_fields:
  "status (commit_end p st s) q = (if q = p then st else status s q)"
  "depends (commit_end p st s) q = depends s q" "ntrans (commit_end p st s) = ntrans s"
  by (simp_all add: commit_end_def trans_unref_def releaseDependents_def release_loop_eq Let_def)

lemma commit_end_inv: "tman_inv (commit_end p st s) = tman_inv s"
proof -
  have "tl.rep (commit_end p st s) h xs = tl.rep s h xs" for h xs
    unfolding commit_end_def releaseDependents_def trans_unref_def Let_def
    by (rule trans [OF links_upd trans [OF links_upd trans [OF links_upd links_upd]]])
       (simp_all add: release_loop_eq)
  then show ?thesis by (simp add: tman_inv_def commit_end_fields)
qed

lemma add_dependency_fields:
  assumes "trans_add_dependency p d s = Ret s'"
  shows "status s' q = status s q" "depends s' q = (if q = p then d # depends s p else depends s q)"
    and "ntrans s' = ntrans s"
  using assms by (auto simp: trans_add_dependency_def trans_ref_def dependency_create_def Let_def split: option.splits)

lemma same_deps_trans: "same_deps s s1 \<Longrightarrow> same_deps s1 s2 \<Longrightarrow> same_deps s s2"
  by (simp add: same_deps_def)

lemma commit_begin_fields:
  assumes "commit_begin p s = Some (r, s')"
  shows "same_deps s s'"
    and "r = Done TRANS_COMMITTED \<Longrightarrow> \<forall>d \<in> set (depends s p). status s d = TRANS_COMMITTED"
    and "r = Waits d ds st \<Longrightarrow> \<exists>pre. depends s p = pre @ d # ds \<and> (\<forall>x \<in> set pre. status s x = TRANS_COMMITTED)"
proof -
  obtain v where "P (t_sem (heap s p)) = Some v"
    using assms by (auto simp: commit_begin_def split: option.splits)
  let ?s = "upd p (\<lambda>t. t\<lparr>t_sem := v\<rparr>) s"
  have l: "commit_loop (depends s p) TRANS_COMMITTED ?s = (r, s')"
    using assms \<open>P _ = _\<close> by (simp add: commit_begin_def Let_def)
  have s: "same_deps s ?s" by (rule same_deps_upd) simp_all
  note e = same_depsD(2) [OF s]
  from s show "same_deps s s'" using commit_loop_same [OF l] same_deps_trans by blast
  show "\<forall>d \<in> set (depends s p). status s d = TRANS_COMMITTED" if "r = Done TRANS_COMMITTED"
    using commit_loop_done [OF l [unfolded that]] unfolding e by blast
  show "\<exists>pre. depends s p = pre @ d # ds \<and> (\<forall>x \<in> set pre. status s x = TRANS_COMMITTED)" if "r = Waits d ds st"
    using commit_loop_waits [OF l [unfolded that]] unfolding e by blast
qed

lemma commit_wake_fields:
  assumes "commit_wake d ds st s = (r, s')"
  shows "same_deps s s'"
    and "r = Done TRANS_COMMITTED \<Longrightarrow> st = TRANS_COMMITTED \<and> (\<forall>x \<in> set (d # ds). status s x = TRANS_COMMITTED)"
    and "r = Waits d' ds' st' \<Longrightarrow> \<exists>pre. d # ds = pre @ d' # ds' \<and>
      (st' = TRANS_COMMITTED \<longrightarrow> st = TRANS_COMMITTED \<and> (\<forall>x \<in> set pre. status s x = TRANS_COMMITTED))"
proof -
  show "same_deps s s'"
    using assms commit_loop_same by (auto simp: commit_wake_def same_deps_refl split: if_splits)
  show "st = TRANS_COMMITTED \<and> (\<forall>x \<in> set (d # ds). status s x = TRANS_COMMITTED)" if "r = Done TRANS_COMMITTED"
    using assms that commit_loop_done
    by (cases "status s d") (fastforce simp: commit_wake_def trans_get_status_def split: if_splits)+
  show "\<exists>pre. d # ds = pre @ d' # ds' \<and>
      (st' = TRANS_COMMITTED \<longrightarrow> st = TRANS_COMMITTED \<and> (\<forall>x \<in> set pre. status s x = TRANS_COMMITTED))"
    if r: "r = Waits d' ds' st'"
  proof (cases "status s d = TRANS_PENDING")
    case True
    then show ?thesis using assms r by (intro exI [of _ "[]"]) (simp add: commit_wake_def trans_get_status_def)
  next
    case False
    then have l: "commit_loop ds (if status s d = TRANS_ABORTED then TRANS_ABORTED else st) s = (Waits d' ds' st', s')"
      using assms r by (simp add: commit_wake_def trans_get_status_def)
    obtain pre where "st' = (if status s d = TRANS_ABORTED then TRANS_ABORTED else st)" "ds = pre @ d' # ds'"
        "\<forall>x \<in> set pre. status s x = TRANS_COMMITTED"
      using commit_loop_waits [OF l] by blast
    then show ?thesis
      using False by (intro exI [of _ "d # pre"]) (cases "status s d"; simp)
  qed
qed

definition commit_inv :: "csys \<Rightarrow> bool" where
  "commit_inv c \<longleftrightarrow>
     (\<forall>p. status (tm c) p = TRANS_COMMITTED \<longrightarrow> th c p = Ended \<and> p \<in> {1..ntrans (tm c)} \<and>
        (\<forall>d \<in> set (depends (tm c) p). status (tm c) d = TRANS_COMMITTED)) \<and>
     (\<forall>p d ds st. th c p = Waiting d ds st \<longrightarrow>
        (\<exists>pre. depends (tm c) p = pre @ d # ds \<and>
          (st = TRANS_COMMITTED \<longrightarrow> (\<forall>x \<in> set pre. status (tm c) x = TRANS_COMMITTED))))"

lemma commit_invD:
  assumes "commit_inv c"
  shows "status (tm c) p = TRANS_COMMITTED \<Longrightarrow> th c p = Ended"
    and "status (tm c) p = TRANS_COMMITTED \<Longrightarrow> p \<in> {1..ntrans (tm c)}"
    and "status (tm c) p = TRANS_COMMITTED \<Longrightarrow> d \<in> set (depends (tm c) p) \<Longrightarrow> status (tm c) d = TRANS_COMMITTED"
    and "th c p = Waiting d ds st \<Longrightarrow> \<exists>pre. depends (tm c) p = pre @ d # ds \<and>
          (st = TRANS_COMMITTED \<longrightarrow> (\<forall>x \<in> set pre. status (tm c) x = TRANS_COMMITTED))"
  using assms unfolding commit_inv_def by blast+

text \<open>A step that lets nothing committed change and commits only with all dependencies committed.\<close>

lemma commit_inv_step:
  assumes "commit_inv c"
    and "ntrans (tm c) \<le> ntrans s"
    and "\<And>q. status (tm c) q = TRANS_COMMITTED \<Longrightarrow>
      status s q = TRANS_COMMITTED \<and> t q = Ended \<and> depends s q = depends (tm c) q"
    and "\<And>q. status s q = TRANS_COMMITTED \<Longrightarrow> status (tm c) q \<noteq> TRANS_COMMITTED \<Longrightarrow>
      t q = Ended \<and> q \<in> {1..ntrans s} \<and> (\<forall>d \<in> set (depends s q). status s d = TRANS_COMMITTED)"
    and "\<And>q d ds st. t q = Waiting d ds st \<Longrightarrow>
      (th c q = Waiting d ds st \<and> depends s q = depends (tm c) q) \<or>
      (\<exists>pre. depends s q = pre @ d # ds \<and> (st = TRANS_COMMITTED \<longrightarrow> (\<forall>x \<in> set pre. status s x = TRANS_COMMITTED)))"
  shows "commit_inv \<lparr>tm = s, th = t\<rparr>"
proof -
  note i = commit_invD [OF assms(1)]
  have "t q = Ended \<and> q \<in> {1..ntrans s} \<and> (\<forall>d \<in> set (depends s q). status s d = TRANS_COMMITTED)"
    if q: "status s q = TRANS_COMMITTED" for q
  proof (cases "status (tm c) q = TRANS_COMMITTED")
    case True
    then show ?thesis using assms(2) assms(3) [of q] assms(3) i(2,3) [of q] by auto
  qed (use assms(4) q in blast)
  moreover have "\<exists>pre. depends s q = pre @ d # ds \<and>
      (st = TRANS_COMMITTED \<longrightarrow> (\<forall>x \<in> set pre. status s x = TRANS_COMMITTED))"
    if "t q = Waiting d ds st" for q d ds st
    using assms(5) [OF that] i(4) [of q d ds st] assms(3) by metis
  ultimately show ?thesis unfolding commit_inv_def by simp
qed


lemma commit_inv_end:
  assumes "commit_inv c" "th c p \<noteq> Ended" "p \<in> {1..ntrans (tm c)}" "same_deps (tm c) s"
    and "st = TRANS_COMMITTED \<Longrightarrow> \<forall>d \<in> set (depends (tm c) p). status (tm c) d = TRANS_COMMITTED"
  shows "commit_inv \<lparr>tm = commit_end p st s, th = (th c)(p := Ended)\<rparr>"
proof -
  have np: "status (tm c) p \<noteq> TRANS_COMMITTED" using commit_invD(1) [OF assms(1)] assms(2) by blast
  show ?thesis
    using assms(2,3,5) np commit_invD(1) [OF assms(1)]
    by (intro commit_inv_step [OF assms(1)])
       (auto simp: commit_end_fields same_depsD [OF assms(4)] split: if_splits)
qed

lemma commit_inv_wait:
  assumes "commit_inv c" "th c p \<noteq> Ended" "same_deps (tm c) s"
    and "\<exists>pre. depends (tm c) p = pre @ d # ds \<and>
      (st = TRANS_COMMITTED \<longrightarrow> (\<forall>x \<in> set pre. status (tm c) x = TRANS_COMMITTED))"
  shows "commit_inv \<lparr>tm = s, th = (th c)(p := Waiting d ds st)\<rparr>"
  using assms(2,4) commit_invD(1) [OF assms(1)]
  by (intro commit_inv_step [OF assms(1)]) (auto simp: same_depsD [OF assms(3)] split: if_splits)

lemma commit_inv_create:
  assumes "commit_inv c" "tman_inv (tm c)" "trans_create (tm c) = (tp, s)"
  shows "commit_inv \<lparr>tm = s, th = (th c)(tp := Running)\<rparr>"
proof -
  note f = trans_create_inv [OF assms(2,3)]
  have f': "status s q = (if q = tp then TRANS_PENDING else status (tm c) q)"
      "depends s q = (if q = tp then [] else depends (tm c) q)" for q
    using f by simp_all
  have "status (tm c) tp \<noteq> TRANS_COMMITTED" using commit_invD(2) [OF assms(1), of tp] f(2) by auto
  then show ?thesis
    using commit_invD(1) [OF assms(1)]
    by (intro commit_inv_step [OF assms(1)]) (auto simp: f' f(3) split: if_splits)
qed

lemma commit_inv_depend:
  assumes "commit_inv c" "th c p = Running" "trans_add_dependency p d (tm c) = Ret s"
  shows "commit_inv \<lparr>tm = s, th = th c\<rparr>"
proof -
  have "status (tm c) p \<noteq> TRANS_COMMITTED" using commit_invD(1) [OF assms(1), of p] assms(2) by auto
  then show ?thesis
    using commit_invD(1) [OF assms(1)] assms(2)
    by (intro commit_inv_step [OF assms(1)]) (auto simp: add_dependency_fields [OF assms(3)] split: if_splits)
qed

lemma add_dependency_inv:
  assumes "tman_inv s" "p \<in> {1..ntrans s}" "d \<in> {1..ntrans s}" "trans_add_dependency p d s = Ret s'"
  shows "tman_inv s'"
proof -
  obtain v where s': "s' = upd p (\<lambda>t. t\<lparr>t_sem := V (t_sem t)\<rparr>) (trans_ref d
      (upd p (\<lambda>t. t\<lparr>t_depends := dependency_create d @ t_depends t\<rparr>) (upd p (\<lambda>t. t\<lparr>t_sem := v\<rparr>) s)))"
    using assms(4) by (auto simp: trans_add_dependency_def Let_def split: option.splits)
  have "tl.rep s' h xs = tl.rep s h xs" for h xs
    unfolding s' trans_ref_def
    by (rule trans [OF links_upd trans [OF links_upd trans [OF links_upd links_upd]]]) simp_all
  then show ?thesis using assms(1-3) add_dependency_fields [OF assms(4)] unfolding tman_inv_def by auto
qed

lemma commit_inv_reach: "treach c \<Longrightarrow> commit_inv c \<and> tman_inv (tm c)"
proof (induction rule: treach.induct)
  case start
  have "status tman_empty p = TRANS_PENDING" for p
    by (simp add: tman_empty_def trans_init_def set_tnext_def set_tprev_def Let_def)
  then show ?case by (simp add: commit_inv_def tman_empty_inv)
next
  case (step c c')
  then have inv: "commit_inv c" and t: "tman_inv (tm c)" by simp_all
  from step.hyps(2) show ?case
  proof cases
    case (create tp s)
    then show ?thesis using commit_inv_create [OF inv t] trans_create_inv(1) [OF t] by simp
  next
    case (depend p d s)
    then show ?thesis using commit_inv_depend [OF inv] add_dependency_inv [OF t] by simp
  next
    case (commit_now p st s)
    note f = commit_begin_fields [OF commit_now(4)]
    then show ?thesis
      using commit_inv_end [OF inv _ commit_now(3) f(1)] commit_now(1,2) same_depsD(4) [OF f(1)] t
      by (simp add: commit_end_inv)
  next
    case (commit_wait p d ds st s)
    note f = commit_begin_fields [OF commit_wait(4)]
    then show ?thesis
      using commit_inv_wait [OF inv _ f(1), of p d ds st] commit_wait(1,2) same_depsD(4) [OF f(1)] t by auto
  next
    case (wake_wait p d ds st d' ds' st' s)
    note f = commit_wake_fields [OF wake_wait(4)]
    obtain pre where pre: "depends (tm c) p = pre @ d # ds"
        "st = TRANS_COMMITTED \<longrightarrow> (\<forall>x \<in> set pre. status (tm c) x = TRANS_COMMITTED)"
      using commit_invD(4) [OF inv wake_wait(2)] by blast
    obtain pre' where pre': "d # ds = pre' @ d' # ds'"
        "st' = TRANS_COMMITTED \<longrightarrow> st = TRANS_COMMITTED \<and> (\<forall>x \<in> set pre'. status (tm c) x = TRANS_COMMITTED)"
      using f(3) by blast
    have "\<exists>pre. depends (tm c) p = pre @ d' # ds' \<and>
        (st' = TRANS_COMMITTED \<longrightarrow> (\<forall>x \<in> set pre. status (tm c) x = TRANS_COMMITTED))"
      using pre pre' by (intro exI [of _ "pre @ pre'"]) auto
    then show ?thesis
      using commit_inv_wait [OF inv _ f(1), of p d' ds' st'] wake_wait(1,2) same_depsD(4) [OF f(1)] t by simp
  next
    case (wake_end p d ds st st' s)
    note f = commit_wake_fields [OF wake_end(4)]
    have "\<forall>x \<in> set (depends (tm c) p). status (tm c) x = TRANS_COMMITTED" if "st' = TRANS_COMMITTED"
      using commit_invD(4) [OF inv wake_end(2)] f(2) that by auto
    then show ?thesis
      using commit_inv_end [OF inv _ wake_end(3) f(1)] wake_end(1,2) same_depsD(4) [OF f(1)] t
      by (simp add: commit_end_inv)
  next
    case (abort p s)
    note a = trans_abort_aborted [OF abort(4)]
    have "commit_inv \<lparr>tm = s, th = (th c)(p := Ended)\<rparr>"
      using commit_invD(1) [OF inv] abortedD(1,3) [OF a] aborted_stable(2) [OF a]
      by (intro commit_inv_step [OF inv]) (auto split: if_splits)
    then show ?thesis using aborted_tman_inv [OF a] t abort(1) by simp
  next
    case (abort_other q s)
    note a = trans_abort_aborted [OF abort_other(2)]
    have "commit_inv \<lparr>tm = s, th = th c\<rparr>"
      using commit_invD(1) [OF inv] abortedD(1,3) [OF a] aborted_stable(2) [OF a]
      by (intro commit_inv_step [OF inv]) (auto split: if_splits)
    then show ?thesis using aborted_tman_inv [OF a] t abort_other(1) by simp
  next
    case (count q r)
    have d: "same_deps (tm c) (upd q (\<lambda>t. t\<lparr>t_refcnt := r\<rparr>) (tm c))" by (rule same_deps_upd) simp_all
    then have "commit_inv \<lparr>tm = upd q (\<lambda>t. t\<lparr>t_refcnt := r\<rparr>) (tm c), th = th c\<rparr>"
      using commit_invD(1) [OF inv] by (intro commit_inv_step [OF inv]) (auto simp: same_depsD [OF d])
    then show ?thesis using same_depsD(4) [OF d] t count by simp
  qed
qed

subsection \<open>Properties of committing\<close>

lemma demo_reach: "treach \<lparr>tm = demo_committed, th = (\<lambda>_. Ended)(2 := Running)\<rparr>"
proof -
  obtain a s1 where a: "trans_create tman_empty = (a, s1)" by fastforce
  obtain b s2 where b: "trans_create s1 = (b, s2)" by fastforce
  note i1 = trans_create_inv [OF tman_empty_inv(1) a] and i2 = trans_create_inv [OF trans_create_inv(1) [OF tman_empty_inv(1) a] b]
  have ab: "a = 1" "b = 2" "ntrans s2 = 2" using i1(2,3) i2(2,3) tman_empty_inv(2) by simp_all
  obtain s3 where s3: "trans_add_dependency b a s2 = Ret s3"
    using i2(6) by (simp add: trans_add_dependency_def P_def Let_def)
  have d: "demo_trans = s3" by (simp add: demo_trans_def a b s3)
  let ?t = "(\<lambda>_. Ended)(1 :: nat := Running, 2 := Running)"
  have "treach \<lparr>tm = s1, th = (\<lambda>_. Ended)(1 := Running)\<rparr>"
    using treach.step [OF treach.start tstep.create [of _ a s1]] a by (simp add: ab)
  then have "treach \<lparr>tm = s2, th = ?t\<rparr>"
    using treach.step [OF _ tstep.create [of _ b s2]] b by (fastforce simp: ab)
  then have "treach \<lparr>tm = demo_trans, th = ?t\<rparr>"
    using treach.step [OF _ tstep.depend [of "\<lparr>tm = s2, th = ?t\<rparr>" b a s3]] s3 by (simp add: ab d)
  moreover have "commit_begin 1 demo_trans = Some (Done TRANS_COMMITTED, upd 1 (\<lambda>t. t\<lparr>t_sem := 0\<rparr>) demo_trans)"
    using demo_trans_inv by (simp add: commit_begin_def P_def Let_def)
  ultimately have "treach \<lparr>tm = demo_committed, th = ?t(1 := Ended)\<rparr>"
    using treach.step [OF _ tstep.commit_now [of "\<lparr>tm = demo_trans, th = ?t\<rparr>" 1]] demo_trans_inv(2)
    by (simp add: demo_committed_def)
  moreover have "?t(1 := Ended) = (\<lambda>_. Ended)(2 := Running)" by auto
  ultimately show ?thesis by simp
qed



text \<open>\<open>trans_commit\<close> never looks at the status of its own transaction: a transaction that has been
  aborted commits when its dependencies have, although the header calls an aborted status final.\<close>

theorem aborted_transaction_commits:
  assumes "status s tp = TRANS_ABORTED" "0 < t_sem (heap s tp)"
    and "\<forall>d \<in> set (depends s tp). status s d = TRANS_COMMITTED"
  shows "\<exists>s'. trans_commit tp s = Ret (TRANS_COMMITTED, s') \<and> status s' tp = TRANS_COMMITTED"
proof -
  have "commit_loop ds st s' = (Done st, s')" if "\<forall>d \<in> set ds. status s' d = TRANS_COMMITTED" for ds st s'
    using that by (induction ds) (simp_all add: trans_get_status_def)
  then have "commit_loop (depends s tp) TRANS_COMMITTED (upd tp (\<lambda>t. t\<lparr>t_sem := t_sem (heap s tp) - 1\<rparr>) s) =
      (Done TRANS_COMMITTED, upd tp (\<lambda>t. t\<lparr>t_sem := t_sem (heap s tp) - 1\<rparr>) s)"
    using assms(3) by simp
  then have "commit_begin tp s = Some (Done TRANS_COMMITTED, upd tp (\<lambda>t. t\<lparr>t_sem := t_sem (heap s tp) - 1\<rparr>) s)"
    using assms(2) by (simp add: commit_begin_def P_def Let_def)
  then show ?thesis by (simp add: trans_commit_def commit_end_fields Let_def)
qed


theorem aborted_transaction_commits_witness:
  "\<exists>s s'. trans_abort 2 demo_trans = Ret s \<and> status s 1 = TRANS_ABORTED \<and>
     trans_commit 1 s = Ret (TRANS_COMMITTED, s')"
proof -
  obtain s where s: "trans_abort 2 demo_trans = Ret s" "0 < t_sem (heap s 1)"
    using demo_trans_inv
    by (auto simp: trans_abort_def trans_get_status_def P_def V_def Let_def trans_unref_def
        releaseDependents_def release_loop_eq numeral_3_eq_3)
  have "status s 1 = TRANS_ABORTED" using trans_abort_deps [OF s(1)] demo_trans_inv by simp
  moreover have "depends s 1 = []" using abortedD(3) [OF trans_abort_aborted [OF s(1)]] demo_trans_inv by simp
  ultimately show ?thesis using aborted_transaction_commits [of s 1] s by auto
qed

end
