(* ===== verification/Server_Data.thy ===== *)
theory Server_Data
  imports Server_Trans
begin

section \<open>Server store: blobs, keys and versions\<close>

text \<open>
  \<open>Server Store/src/data.c\<close>. Blobs and versions live in heaps from which \<open>free\<close> removes them; a use of
  a freed object, of NULL or beyond the end of a buffer is a \<open>fault\<close>. A pointer that may be NULL is an option. The mutex of a blob
  protects single operations and is not modelled; \<open>malloc\<close> and \<open>strndup\<close> are taken to succeed.
\<close>

datatype fault = NullPtr | Freed | Overrun

record BLOB =
  b_refcnt :: i32
  b_size :: u64
  b_content :: "string option"
  b_prefix :: "string option"

record KEY =
  k_hash :: i32
  k_blob :: nat

record VERSION =
  v_creator :: nat
  v_blob :: "nat option"
  v_next :: "nat option"
  v_prev :: "nat option"

record dstate =
  tms :: tman
  blobs :: "nat \<rightharpoonup> BLOB"
  nblobs :: nat
  versions :: "nat \<rightharpoonup> VERSION"
  nversions :: nat

subsection \<open>Blobs\<close>

definition strndup :: "string \<Rightarrow> nat \<Rightarrow> string" where
  "strndup content n = takeWhile (\<lambda>c. c \<noteq> NUL) (take n content)"

definition blob_ref :: "nat option \<Rightarrow> dstate \<Rightarrow> fault + dstate" where
  "blob_ref bp s =
     (case bp of None \<Rightarrow> Inr s
      | Some p \<Rightarrow> (case blobs s p of None \<Rightarrow> Inl Freed
          | Some b \<Rightarrow> Inr (s\<lparr>blobs := (blobs s)(p \<mapsto> b\<lparr>b_refcnt := b_refcnt b + 1\<rparr>)\<rparr>)))"

definition blob_unref :: "nat option \<Rightarrow> dstate \<Rightarrow> fault + dstate" where
  "blob_unref bp s =
     (case bp of None \<Rightarrow> Inr s
      | Some p \<Rightarrow> (case blobs s p of None \<Rightarrow> Inl Freed
          | Some b \<Rightarrow>
              (let b = b\<lparr>b_refcnt := b_refcnt b - 1\<rparr>
               in if b_refcnt b = 0 then Inr (s\<lparr>blobs := (blobs s)(p := None)\<rparr>)
                  else Inr (s\<lparr>blobs := (blobs s)(p \<mapsto> b)\<rparr>))))"

definition blob_create :: "string option \<Rightarrow> u64 \<Rightarrow> dstate \<Rightarrow> fault + nat \<times> dstate" where
  "blob_create content n s =
     (let p = nblobs s;
          c = (case content of None \<Rightarrow> None | Some cs \<Rightarrow> Some (strndup cs (unat n)));
          b = \<lparr>b_refcnt = 0, b_size = n, b_content = c, b_prefix = c\<rparr>;
          s = s\<lparr>blobs := (blobs s)(p \<mapsto> b), nblobs := nblobs s + 1\<rparr>
      in case blob_ref (Some p) s of Inl f \<Rightarrow> Inl f | Inr s \<Rightarrow> Inr (p, s))"

text \<open>\<open>strcmp\<close>: the difference of the first two characters that differ, as unsigned values.\<close>

fun strcmp :: "string \<Rightarrow> string \<Rightarrow> int" where
  "strcmp [] [] = 0"
| "strcmp [] (d # ds) = - int (of_char d)"
| "strcmp (c # cs) [] = int (of_char c)"
| "strcmp (c # cs) (d # ds) = (if c = d then strcmp cs ds else int (of_char c) - int (of_char d))"

definition blob_compare :: "nat option \<Rightarrow> nat option \<Rightarrow> dstate \<Rightarrow> fault + i32" where
  "blob_compare bp1 bp2 s =
     (case (bp1, bp2) of
        (Some p1, Some p2) \<Rightarrow>
          (case (blobs s p1, blobs s p2) of
             (Some b1, Some b2) \<Rightarrow>
               (case (b_content b1, b_content b2) of
                  (Some c1, Some c2) \<Rightarrow> Inr (word_of_int (strcmp c1 c2))
                | _ \<Rightarrow> Inl NullPtr)
           | _ \<Rightarrow> Inl Freed)
      | _ \<Rightarrow> Inr (- 1))"

fun hash_loop :: "u64 \<Rightarrow> string \<Rightarrow> u64" where
  "hash_loop hash [] = hash"
| "hash_loop hash (c # cs) =
     (if c = NUL then hash else hash_loop ((push_bit 5 hash + hash) + word_of_int (c_char c)) cs)"

definition blob_hash :: "nat \<Rightarrow> dstate \<Rightarrow> fault + i32" where
  "blob_hash p s =
     (case blobs s p of None \<Rightarrow> Inl Freed
      | Some b \<Rightarrow> (case b_content b of None \<Rightarrow> Inl NullPtr | Some cs \<Rightarrow> Inr (ucast (hash_loop 5381 cs))))"

subsection \<open>Keys\<close>

definition key_create :: "nat \<Rightarrow> dstate \<Rightarrow> fault + KEY" where
  "key_create bp s = (case blob_hash bp s of Inl f \<Rightarrow> Inl f | Inr h \<Rightarrow> Inr \<lparr>k_hash = h, k_blob = bp\<rparr>)"

definition key_dispose :: "KEY \<Rightarrow> dstate \<Rightarrow> fault + dstate" where
  "key_dispose kp s = blob_unref (Some (k_blob kp)) s"

definition key_compare :: "KEY option \<Rightarrow> KEY option \<Rightarrow> dstate \<Rightarrow> fault + i32" where
  "key_compare kp1 kp2 s =
     (case (kp1, kp2) of
        (Some k1, Some k2) \<Rightarrow>
          (let cmp = (let d = k_hash k1 - k_hash k2 in if sint d < 0 then - d else d)
           in case blob_compare (Some (k_blob k1)) (Some (k_blob k2)) s of
                Inl f \<Rightarrow> Inl f | Inr r \<Rightarrow> Inr (cmp + r))
      | _ \<Rightarrow> Inr (- 1))"

subsection \<open>Versions\<close>

definition version_create :: "nat \<Rightarrow> nat option \<Rightarrow> dstate \<Rightarrow> nat \<times> dstate" where
  "version_create tp bp s =
     (let v = nversions s;
          s = s\<lparr>versions := (versions s)(v \<mapsto> \<lparr>v_creator = tp, v_blob = bp, v_next = None, v_prev = None\<rparr>),
                nversions := nversions s + 1\<rparr>
      in (v, s\<lparr>tms := trans_ref tp (tms s)\<rparr>))"

definition version_dispose :: "nat \<Rightarrow> dstate \<Rightarrow> fault + dstate" where
  "version_dispose vp s =
     (case versions s vp of None \<Rightarrow> Inl Freed
      | Some v \<Rightarrow>
          (let s = s\<lparr>tms := trans_unref (v_creator v) (tms s)\<rparr>
           in case blob_unref (v_blob v) s of Inl f \<Rightarrow> Inl f
              | Inr s \<Rightarrow> Inr (s\<lparr>versions := (versions s)(vp := None)\<rparr>)))"

text \<open>
  The loop reads \<open>vp->next\<close> after \<open>version_dispose\<close> has freed \<open>vp\<close>. Every round frees a version that is
  live, so the number of versions allocated bounds the rounds.
\<close>

fun version_dispose_loop :: "nat \<Rightarrow> nat option \<Rightarrow> dstate \<Rightarrow> (fault + dstate) option" where
  "version_dispose_loop 0 vp s = None"
| "version_dispose_loop (Suc n) vp s =
     (case vp of None \<Rightarrow> Some (Inr s)
      | Some v \<Rightarrow>
          (case version_dispose v s of Inl f \<Rightarrow> Some (Inl f)
           | Inr s \<Rightarrow> (case versions s v of None \<Rightarrow> Some (Inl Freed)
               | Some r \<Rightarrow> version_dispose_loop n (v_next r) s)))"

definition version_dispose_all :: "nat option \<Rightarrow> dstate \<Rightarrow> (fault + dstate) option" where
  "version_dispose_all vp s = version_dispose_loop (nversions s + 1) vp s"

subsection \<open>Reference counting\<close>

text \<open>
  The contract of a reference-counted object: the count of a live object goes up and down, and the
  object is freed when it would reach zero. What a sequence of operations does follows from it.
\<close>

datatype refop = Ref | Unref

fun run_ops :: "('p \<Rightarrow> 's \<Rightarrow> 's option) \<Rightarrow> ('p \<Rightarrow> 's \<Rightarrow> 's option) \<Rightarrow> 'p \<Rightarrow> refop list \<Rightarrow> 's \<Rightarrow> 's option" where
  "run_ops ref unref p [] s = Some s"
| "run_ops ref unref p (Ref # ops) s = (case ref p s of None \<Rightarrow> None | Some s \<Rightarrow> run_ops ref unref p ops s)"
| "run_ops ref unref p (Unref # ops) s = (case unref p s of None \<Rightarrow> None | Some s \<Rightarrow> run_ops ref unref p ops s)"

text \<open>The references left after the operations; \<open>None\<close> if one comes after the last reference is gone.\<close>

fun balance :: "nat \<Rightarrow> refop list \<Rightarrow> nat option" where
  "balance n [] = Some n"
| "balance n (Ref # ops) = (if n = 0 then None else balance (n + 1) ops)"
| "balance n (Unref # ops) = (if n = 0 then None else balance (n - 1) ops)"

definition live_count :: "nat \<Rightarrow> nat option" where
  "live_count n = (if n = 0 then None else Some n)"

locale refcounted =
  fixes count :: "'s \<Rightarrow> 'p \<Rightarrow> nat option"
    and ref unref :: "'p \<Rightarrow> 's \<Rightarrow> 's option"
    and bound :: nat
  assumes ref_live: "count s p = Some n \<Longrightarrow> n < bound \<Longrightarrow> \<exists>s'. ref p s = Some s' \<and> count s' = (count s)(p \<mapsto> n + 1)"
    and unref_live: "count s p = Some (Suc (Suc n)) \<Longrightarrow> \<exists>s'. unref p s = Some s' \<and> count s' = (count s)(p \<mapsto> Suc n)"
    and unref_last: "count s p = Some 1 \<Longrightarrow> \<exists>s'. unref p s = Some s' \<and> count s' = (count s)(p := None)"
    and dead: "count s p = None \<Longrightarrow> ref p s = None \<and> unref p s = None"
begin

text \<open>
  The operations succeed exactly while references remain; with none left the object is gone, and
  the next operation fails. No other object is touched.
\<close>

lemma run_balance:
  "count s p = Some n \<Longrightarrow> 0 < n \<Longrightarrow> n + length ops \<le> bound \<Longrightarrow>
   (case balance n ops of None \<Rightarrow> run_ops ref unref p ops s = None
    | Some m \<Rightarrow> \<exists>s'. run_ops ref unref p ops s = Some s' \<and> count s' = (count s)(p := live_count m))"
proof (induction ops arbitrary: n s)
  case Nil
  then show ?case by (auto simp: fun_eq_iff live_count_def)
next
  case (Cons op ops)
  have step: ?case
    if "run_ops ref unref p (op # ops) s = run_ops ref unref p ops s'" "balance n (op # ops) = balance n' ops"
      "count s' = (count s)(p \<mapsto> n')" "0 < n'" "n' + length ops \<le> bound" for s' n'
  proof -
    have "count s' p = Some n'" by (simp add: that(3))
    from Cons.IH [OF this that(4,5)] show ?thesis
      unfolding that(1,2) by (simp only: that(3) fun_upd_upd)
  qed
  show ?case
  proof (cases op)
    case Ref
    obtain s' where s': "ref p s = Some s'" "count s' = (count s)(p \<mapsto> n + 1)"
      using ref_live Cons.prems by fastforce
    show ?thesis by (rule step [OF _ _ s'(2)]) (use Cons.prems Ref s'(1) in simp_all)
  next
    case Unref
    show ?thesis
    proof (cases "n = 1")
      case True
      then obtain s' where s': "unref p s = Some s'" "count s' = (count s)(p := None)"
        using unref_last Cons.prems by blast
      show ?thesis
      proof (cases ops)
        case Nil
        then show ?thesis using True Unref s' by (simp add: live_count_def)
      next
        case (Cons x xs)
        have "ref p s' = None" "unref p s' = None" using dead [of s' p] s'(2) by simp_all
        then show ?thesis using True Unref s'(1) Cons by (cases x) simp_all
      qed
    next
      case False
      then obtain m where m: "n = Suc (Suc m)" using Cons.prems(2) by (cases n; cases "n - 1") auto
      then obtain s' where s': "unref p s = Some s'" "count s' = (count s)(p \<mapsto> Suc m)"
        using unref_live Cons.prems by blast
      show ?thesis by (rule step [OF _ _ s'(2)]) (use Cons.prems Unref s'(1) m in simp_all)
    qed
  qed
qed

end

definition blob_count :: "dstate \<Rightarrow> nat \<Rightarrow> nat option" where
  "blob_count s p = map_option (\<lambda>b. unat (b_refcnt b)) (blobs s p)"

abbreviation succeeds :: "fault + 'a \<Rightarrow> 'a option" where
  "succeeds r \<equiv> (case r of Inl f \<Rightarrow> None | Inr x \<Rightarrow> Some x)"

interpretation blob: refcounted blob_count
  "\<lambda>p s. succeeds (blob_ref (Some p) s)" "\<lambda>p s. succeeds (blob_unref (Some p) s)" "2 ^ 31 - 1"
proof unfold_locales
  fix s p n
  show "\<exists>s'. succeeds (blob_ref (Some p) s) = Some s' \<and> blob_count s' = (blob_count s)(p \<mapsto> n + 1)"
    if c: "blob_count s p = Some n" and n: "n < 2 ^ 31 - 1"
  proof -
    obtain b where b: "blobs s p = Some b" "unat (b_refcnt b) = n" using c by (auto simp: blob_count_def)
    have "unat (b_refcnt b + 1) = n + 1"
      using b(2) n by (simp add: unat_word_ariths)
    then show ?thesis using b(1) by (simp add: blob_ref_def blob_count_def fun_eq_iff)
  qed
  show "\<exists>s'. succeeds (blob_unref (Some p) s) = Some s' \<and> blob_count s' = (blob_count s)(p \<mapsto> Suc n)"
    if c: "blob_count s p = Some (Suc (Suc n))"
  proof -
    obtain b where b: "blobs s p = Some b" "unat (b_refcnt b) = Suc (Suc n)" using c by (auto simp: blob_count_def)
    have "unat (b_refcnt b - 1) = Suc n" using b(2) by (metis diff_Suc_1 unat_minus_one unat_0 nat.distinct(1))
    moreover from this have "b_refcnt b - 1 \<noteq> 0" by auto
    ultimately show ?thesis using b(1) by (simp add: blob_unref_def blob_count_def fun_eq_iff)
  qed
  show "\<exists>s'. succeeds (blob_unref (Some p) s) = Some s' \<and> blob_count s' = (blob_count s)(p := None)"
    if c: "blob_count s p = Some 1"
  proof -
    obtain b where b: "blobs s p = Some b" "unat (b_refcnt b) = 1" using c by (auto simp: blob_count_def)
    then have "b_refcnt b = 1" using word_eq_of_nat [of "b_refcnt b" 1] by simp
    then show ?thesis using b(1) by (simp add: blob_unref_def blob_count_def fun_eq_iff)
  qed
  show "succeeds (blob_ref (Some p) s) = None \<and> succeeds (blob_unref (Some p) s) = None"
    if "blob_count s p = None"
    using that by (simp add: blob_count_def blob_ref_def blob_unref_def)
qed

lemma blob_count_None: "blob_count s p = None \<longleftrightarrow> blobs s p = None"
  by (simp add: blob_count_def)

lemma blob_create_fields:
  assumes "blob_create content n s = Inr (p, s')"
  shows "p = nblobs s" "nblobs s' = nblobs s + 1" "blob_count s' = (blob_count s)(p \<mapsto> 1)"
    and "blobs s' p = Some \<lparr>b_refcnt = 1, b_size = n,
      b_content = map_option (\<lambda>cs. strndup cs (unat n)) content, b_prefix = map_option (\<lambda>cs. strndup cs (unat n)) content\<rparr>"
    and "q \<noteq> p \<Longrightarrow> blobs s' q = blobs s q" "tms s' = tms s" "versions s' = versions s"
  using assms by (auto simp: blob_create_def blob_ref_def blob_count_def fun_eq_iff Let_def split: option.splits)

lemma blob_create_ok: "\<exists>p s'. blob_create content n s = Inr (p, s')"
  by (simp add: blob_create_def blob_ref_def Let_def)

subsection \<open>Properties of blobs and keys\<close>

text \<open>C37: the lifetime of a blob: a new blob has one reference; any sequence of \<open>blob_ref\<close> and
  \<open>blob_unref\<close> (fewer than 2^31 - 2) works exactly as long as a reference is left, the blob is freed
  exactly when none is, and no other blob is affected.\<close>

theorem blob_lifetime:
  assumes "blob_create content n s = Inr (p, s1)" "length ops < 2 ^ 31 - 2"
  shows "(case balance 1 ops of
      None \<Rightarrow> run_ops (\<lambda>p s. succeeds (blob_ref (Some p) s)) (\<lambda>p s. succeeds (blob_unref (Some p) s)) p ops s1 = None
    | Some m \<Rightarrow> \<exists>s2. run_ops (\<lambda>p s. succeeds (blob_ref (Some p) s)) (\<lambda>p s. succeeds (blob_unref (Some p) s)) p ops s1
          = Some s2 \<and> blob_count s2 p = (if m = 0 then None else Some m) \<and>
          (blobs s2 p = None \<longleftrightarrow> m = 0) \<and> (\<forall>q. q \<noteq> p \<longrightarrow> blob_count s2 q = blob_count s q))"
proof -
  have c: "blob_count s1 p = Some 1" using blob_create_fields(3) [OF assms(1)] by simp
  have "1 + length ops \<le> 2 ^ 31 - 1" using assms(2) by simp
  from blob.run_balance [OF c _ this] show ?thesis
    using blob_create_fields(3) [OF assms(1)]
    by (auto simp: blob_count_None [symmetric] live_count_def split: option.splits)
qed

theorem blob_lifetime_witness:
  "\<exists>p s1 s2. blob_create (Some ''key'') 3
       \<lparr>tms = tman_empty, blobs = Map.empty, nblobs = 0, versions = Map.empty, nversions = 0\<rparr> = Inr (p, s1) \<and>
     run_ops (\<lambda>p s. succeeds (blob_ref (Some p) s)) (\<lambda>p s. succeeds (blob_unref (Some p) s)) p
       [Ref, Unref, Unref] s1 = Some s2 \<and> blobs s2 p = None"
proof -
  obtain p s1 where c: "blob_create (Some ''key'') 3
       \<lparr>tms = tman_empty, blobs = Map.empty, nblobs = 0, versions = Map.empty, nversions = 0\<rparr> = Inr (p, s1)"
    using blob_create_ok by blast
  show ?thesis using blob_lifetime [OF c, of "[Ref, Unref, Unref]"] c by fastforce
qed


lemma hash_loop_append:
  "cstring cs \<Longrightarrow> hash_loop h (cs @ ds) = hash_loop (hash_loop h cs) ds"
  by (induction h cs rule: hash_loop.induct) auto

lemma strcmp_prefix: "strcmp (s @ cs) (s @ ds) = strcmp cs ds"
  by (induction s) auto

text \<open>\<open>key_compare\<close> confuses keys: it adds the distance of the hashes to the result of the content
  comparison, and for two keys that differ only in their last character, the first one smaller,
  the two cancel, so that the keys compare as equal.\<close>

theorem keys_confused:
  assumes "cstring w" "of_char c < (128 :: nat)" "of_char d < (128 :: nat)" "c \<noteq> NUL" "of_char c < (of_char d :: nat)"
    and "blobs s p = Some b1" "b_content b1 = Some (w @ [c])"
    and "blobs s q = Some b2" "b_content b2 = Some (w @ [d])"
    and "key_create p s = Inr k1" "key_create q s = Inr k2"
  shows "key_compare (Some k1) (Some k2) s = Inr 0"
proof -
  define n where "n = of_char d - (of_char c :: nat)"
  have n: "int (of_char d) = int (of_char c) + int n" "0 < n" "n < 128" using assms(3,5) by (simp_all add: n_def)
  have d0: "d \<noteq> NUL" using assms(5) by auto
  have "of_char c < (128 :: int)" "of_char d < (128 :: int)"
    using assms(2,3) of_nat_of_char [of c, where 'a = int] of_nat_of_char [of d, where 'a = int] by linarith+
  then have cc: "c_char d = c_char c + int n"
    using n(1) by (simp add: c_char_def Let_def of_nat_of_char)
  define h where "h = hash_loop 5381 w"
  have k: "k_hash k1 = ucast (push_bit 5 h + h + word_of_int (c_char c))" "k_blob k1 = p"
    "k_hash k2 = ucast (push_bit 5 h + h + word_of_int (c_char c + int n))" "k_blob k2 = q"
    using assms(4,6-11) hash_loop_append [OF assms(1)] d0 cc
    by (auto simp: key_create_def blob_hash_def h_def)
  have "k_hash k1 - k_hash k2 = - of_nat n"
    unfolding k ucast_plus_32 ucast_word_of_int_32 by simp
  moreover have "sint (- of_nat n :: i32) = - int n"
  proof -
    have "(- of_nat n :: i32) = word_of_int (- int n)" by simp
    then show ?thesis using n(3) by (simp only: signed_of_int) (simp add: signed_take_bit_int_eq_self)
  qed
  moreover have "strcmp (w @ [c]) (w @ [d]) = - int n"
    using n(1,2) by (auto simp: strcmp_prefix)
  ultimately show ?thesis
    using n(2) assms(6-9) k by (simp add: key_compare_def blob_compare_def Let_def)
qed

theorem keys_confused_witness:
  "\<exists>p q s k1 k2. b_content (the (blobs s p)) = Some ''a'' \<and> b_content (the (blobs s q)) = Some ''b'' \<and>
     key_create p s = Inr k1 \<and> key_create q s = Inr k2 \<and> key_compare (Some k1) (Some k2) s = Inr 0"
proof -
  define b where "b c = \<lparr>b_refcnt = 1, b_size = 1, b_content = Some [c], b_prefix = Some [c]\<rparr>" for c
  define s where "s = \<lparr>tms = tman_empty, blobs = [0 \<mapsto> b CHR ''a'', 1 \<mapsto> b CHR ''b''], nblobs = 2,
    versions = Map.empty, nversions = 0\<rparr>"
  obtain k1 k2 where k: "key_create 0 s = Inr k1" "key_create 1 s = Inr k2"
    by (simp add: key_create_def blob_hash_def s_def b_def)
  have s: "blobs s 0 = Some (b CHR ''a'')" "blobs s 1 = Some (b CHR ''b'')" by (simp_all add: s_def)
  have "key_compare (Some k1) (Some k2) s = Inr 0"
    using keys_confused [of "[]" "CHR ''a''" "CHR ''b''" s 0 _ 1, OF _ _ _ _ _ s(1) _ s(2) _ k]
    by (simp add: b_def)
  then show ?thesis using k s by (intro exI [of _ 0] exI [of _ 1] exI [of _ s] exI) (simp add: b_def)
qed

text \<open>\<open>version_dispose_all\<close> on a list with at least one version always reads a version it has just
  freed, whatever the list holds.\<close>

theorem version_dispose_all_use_after_free:
  assumes "versions s v = Some r" "case v_blob r of None \<Rightarrow> True | Some p \<Rightarrow> blobs s p \<noteq> None"
  shows "version_dispose_all (Some v) s = Some (Inl Freed)"
proof -
  have "\<exists>s'. blob_unref (v_blob r) (s\<lparr>tms := trans_unref (v_creator r) (tms s)\<rparr>) = Inr s'"
    using assms(2) by (auto simp: blob_unref_def Let_def split: option.splits)
  then obtain s' where "version_dispose v s = Inr s'" "versions s' v = None"
    using assms(1) by (auto simp: version_dispose_def Let_def)
  then show ?thesis by (simp add: version_dispose_all_def)
qed

theorem version_dispose_all_use_after_free_witness:
  "\<exists>v s. version_create 1 None \<lparr>tms = tman_empty, blobs = Map.empty, nblobs = 0, versions = Map.empty,
       nversions = 0\<rparr> = (v, s) \<and> version_dispose_all (Some v) s = Some (Inl Freed)"
proof -
  let ?s = "\<lparr>tms = tman_empty, blobs = Map.empty, nblobs = 0, versions = Map.empty, nversions = 0\<rparr>"
  obtain v s where c: "version_create 1 None ?s = (v, s)" by fastforce
  then have "versions s v = Some \<lparr>v_creator = 1, v_blob = None, v_next = None, v_prev = None\<rparr>"
    by (auto simp: version_create_def Let_def)
  from version_dispose_all_use_after_free [OF this] c show ?thesis by auto
qed

end
