(* ===== verification/Server_Proto.thy ===== *)
theory Server_Proto
  imports Server_Data
begin

section \<open>Server store: robust I/O and packets\<close>

text \<open>
  \<open>rio_readn\<close> and \<open>rio_writen\<close> of \<open>csapp.c\<close> and \<open>Server Store/src/protocol.c\<close>. What the kernel does with
  the calls of \<open>read\<close> on a connection is a list of events, the end of the list being end of file;
  the same for \<open>write\<close>, where the end of the list means that everything is accepted from then on.
  A packet is a struct of 16 bytes in memory, with a byte of padding after \<open>null\<close>, on a
  little-endian machine.
\<close>

datatype read_event = Chunk u8 "u8 list" | RIntr | RErr

datatype write_event = Accept nat | WIntr | WErr

record conn =
  rx :: "read_event list"
  tx :: "u8 list"
  wx :: "write_event list"

subsection \<open>Robust reading and writing\<close>

text \<open>The bytes that \<open>read(fd, buf, n)\<close> delivers, for \<open>n > 0\<close>: \<open>None\<close> for an error return.\<close>

definition take_chunk :: "nat \<Rightarrow> u8 list \<Rightarrow> read_event list \<Rightarrow> u8 list \<times> read_event list" where
  "take_chunk n bs es = (take n bs, (case drop n bs of [] \<Rightarrow> es | c # cs \<Rightarrow> Chunk c cs # es))"

fun ev_size :: "read_event \<Rightarrow> nat" where
  "ev_size (Chunk b bs) = Suc (length bs)"
| "ev_size RIntr = 1"
| "ev_size RErr = 1"

text \<open>The result is the return value, the bytes stored in the buffer and the events left.\<close>

function rio_readn :: "nat \<Rightarrow> u8 list \<Rightarrow> read_event list \<Rightarrow> int \<times> u8 list \<times> read_event list" where
  "rio_readn nleft got es =
     (if nleft = 0 then (int (length got), got, es)
      else case es of
          [] \<Rightarrow> (int (length got), got, [])
        | RIntr # es \<Rightarrow> rio_readn nleft got es
        | RErr # es \<Rightarrow> (- 1, got, es)
        | Chunk b bs # es \<Rightarrow>
            (let (d, es) = take_chunk nleft (b # bs) es
             in rio_readn (nleft - length d) (got @ d) es))"
  by pat_completeness auto
termination
  by (relation "measure (\<lambda>(n, got, es). sum_list (map ev_size es))")
     (auto simp: take_chunk_def split: list.splits dest!: arg_cong [of _ _ length])

fun rio_writen :: "u8 list \<Rightarrow> write_event list \<Rightarrow> u8 list \<Rightarrow> int \<times> write_event list \<times> u8 list" where
  "rio_writen buf [] out = (int (length buf), [], out @ buf)"
| "rio_writen buf (e # es) out =
     (if buf = [] then (0, e # es, out)
      else case e of
          WIntr \<Rightarrow> rio_writen buf es out
        | WErr \<Rightarrow> (- 1, es, out)
        | Accept k \<Rightarrow>
            (case rio_writen (drop (Suc k) buf) es (out @ take (Suc k) buf) of
               (r, es, out) \<Rightarrow> (if r < 0 then - 1 else int (length buf), es, out)))"

subsection \<open>Packets\<close>

record XACTO_PACKET =
  p_type :: u8
  p_status :: u8
  p_null :: u8
  p_pad :: u8
  p_size :: u32
  p_sec :: u32
  p_nsec :: u32

definition htonl :: "u32 \<Rightarrow> u32" where
  "htonl x = be_val (rev (be_bytes 4 x))"

abbreviation ntohl :: "u32 \<Rightarrow> u32" where
  "ntohl \<equiv> htonl"

definition pkt_bytes :: "XACTO_PACKET \<Rightarrow> u8 list" where
  "pkt_bytes p = [p_type p, p_status p, p_null p, p_pad p] @ rev (be_bytes 4 (p_size p)) @
     rev (be_bytes 4 (p_sec p)) @ rev (be_bytes 4 (p_nsec p))"

definition pkt_of_bytes :: "u8 list \<Rightarrow> XACTO_PACKET" where
  "pkt_of_bytes m = \<lparr>p_type = m ! 0, p_status = m ! 1, p_null = m ! 2, p_pad = m ! 3,
     p_size = be_val (rev (take 4 (drop 4 m))), p_sec = be_val (rev (take 4 (drop 8 m))),
     p_nsec = be_val (rev (take 4 (drop 12 m)))\<rparr>"

text \<open>
  \<open>rio_writen(...) < sizeof(XACTO_PACKET)\<close> compares an \<open>ssize_t\<close> with a \<open>size_t\<close>: -1 is converted to the
  greatest unsigned value. The payload comparison is with an \<open>int\<close> and stays signed. Writing more
  bytes than the payload buffer holds is \<open>Overrun\<close>.
\<close>

definition less_size_t :: "int \<Rightarrow> nat \<Rightarrow> bool" where
  "less_size_t r n \<longleftrightarrow> (word_of_int r :: u64) < of_nat n"

definition proto_send_packet ::
    "XACTO_PACKET option \<Rightarrow> u8 list option \<Rightarrow> conn \<Rightarrow> fault + int \<times> XACTO_PACKET option \<times> conn" where
  "proto_send_packet pkt data c =
     (case pkt of None \<Rightarrow> Inr (- 1, pkt, c)
      | Some p \<Rightarrow>
          (let n = sint (p_size p);
               p = p\<lparr>p_size := htonl (p_size p)\<rparr>;
               p = p\<lparr>p_sec := htonl (p_sec p)\<rparr>;
               p = p\<lparr>p_nsec := htonl (p_nsec p)\<rparr>;
               (r, w, t) = rio_writen (pkt_bytes p) (wx c) (tx c);
               c = c\<lparr>wx := w, tx := t\<rparr>
           in if less_size_t r 16 then Inr (- 1, Some p, c)
              else if n > 0 \<and> data \<noteq> None then
                (let d = the data
                 in if length d < nat n then Inl Overrun
                    else (let (r, w, t) = rio_writen (take (nat n) d) (wx c) (tx c);
                              c = c\<lparr>wx := w, tx := t\<rparr>
                          in if r < n then Inr (- 1, Some p, c) else Inr (0, Some p, c)))
              else Inr (0, Some p, c)))"

text \<open>
  With \<open>datap\<close> the payload is received into a buffer of \<open>pkt->size + 1\<close> bytes, a 32-bit sum: for the
  size 0xffffffff the buffer is empty and the first byte read into it is \<open>Overrun\<close>. The result is
  the return value, the packet, what \<open>*datap\<close> is (\<open>None\<close>: not assigned) and the connection.
\<close>

definition proto_recv_packet ::
    "XACTO_PACKET option \<Rightarrow> bool \<Rightarrow> conn \<Rightarrow> fault + int \<times> XACTO_PACKET option \<times> u8 list option \<times> conn" where
  "proto_recv_packet pkt datap c =
     (case pkt of None \<Rightarrow> Inr (- 1, pkt, None, c)
      | Some p \<Rightarrow>
          (let (r, got, es) = rio_readn 16 [] (rx c);
               c = c\<lparr>rx := es\<rparr>;
               p = pkt_of_bytes (got @ drop (length got) (pkt_bytes p))
           in if less_size_t r 16 then Inr (- 1, Some p, None, c)
              else
                (let p = p\<lparr>p_size := ntohl (p_size p)\<rparr>;
                     p = p\<lparr>p_sec := ntohl (p_sec p)\<rparr>;
                     p = p\<lparr>p_nsec := ntohl (p_nsec p)\<rparr>
                 in if p_size p > 0 \<and> datap then
                      (let (r, got, es) = rio_readn (unat (p_size p)) [] (rx c);
                           c = c\<lparr>rx := es\<rparr>
                       in if length got > unat (p_size p + 1) then Inl Overrun
                          else if r < uint (p_size p) then Inr (- 1, Some p, Some got, c)
                          else Inr (0, Some p, Some got, c))
                    else Inr (0, Some p, None, c))))"

declare rio_readn.simps [simp del]


subsection \<open>What robust I/O delivers\<close>

fun ev_bytes :: "read_event \<Rightarrow> u8 list" where
  "ev_bytes (Chunk b bs) = b # bs"
| "ev_bytes _ = []"

definition stream :: "read_event list \<Rightarrow> u8 list" where
  "stream es = concat (map ev_bytes es)"

lemma stream_simps [simp]:
  "stream [] = []" "stream (RIntr # es) = stream es" "stream (Chunk b bs # es) = b # bs @ stream es"
  by (simp_all add: stream_def)

lemma take_chunk_stream:
  assumes "take_chunk n bs es = (d, es')"
  shows "d @ stream es' = bs @ stream es" "length d = min n (length bs)" "RErr \<in> set es' \<longleftrightarrow> RErr \<in> set es"
proof -
  have "take n bs @ drop n bs = bs" by simp
  then show "d @ stream es' = bs @ stream es"
    using assms by (cases "drop n bs") (auto simp: take_chunk_def simp flip: append_assoc)
  show "length d = min n (length bs)" using assms by (auto simp: take_chunk_def)
  show "RErr \<in> set es' \<longleftrightarrow> RErr \<in> set es"
    using assms by (cases "drop n bs") (auto simp: take_chunk_def)
qed

text \<open>Without an error event the reads are exactly as if the whole stream were there at once.\<close>

lemma rio_readn_ok:
  "RErr \<notin> set es \<Longrightarrow> n \<le> length (stream es) \<Longrightarrow>
   \<exists>es'. rio_readn n got es = (int (length got + n), got @ take n (stream es), es') \<and>
     RErr \<notin> set es' \<and> stream es' = drop n (stream es)"
proof (induction n got es rule: rio_readn.induct)
  case (1 n got es)
  show ?case
  proof (cases "n = 0")
    case True
    then show ?thesis using "1.prems" by (subst rio_readn.simps) simp
  next
    case False
    show ?thesis
    proof (cases es)
      case Nil
      then show ?thesis using "1.prems" False by simp
    next
      case (Cons e r)
      show ?thesis
      proof (cases e)
        case (Chunk b bs)
        obtain d es1 where d: "take_chunk n (b # bs) r = (d, es1)" by fastforce
        note c = take_chunk_stream [OF d]
        have sd: "stream es = d @ stream es1" using c(1) Cons Chunk by simp
        have "RErr \<notin> set es1" "n - length d \<le> length (stream es1)"
          using "1.prems" c(3) Cons sd by auto
        then obtain es' where "rio_readn (n - length d) (got @ d) es1 =
              (int (length (got @ d) + (n - length d)), (got @ d) @ take (n - length d) (stream es1), es')"
            "RErr \<notin> set es'" "stream es' = drop (n - length d) (stream es1)"
          using "1.IH"(1) [OF False Cons Chunk refl d [symmetric]] by auto
        moreover have "length d \<le> n" using c(2) by simp
        ultimately show ?thesis
          using False Cons Chunk d sd by (subst rio_readn.simps) (simp add: Let_def)
      next
        case RIntr
        then show ?thesis using 1 False Cons by (subst rio_readn.simps) simp
      next
        case RErr
        then show ?thesis using "1.prems" Cons by simp
      qed
    qed
  qed
qed

lemma rio_readn_eof:
  "RErr \<notin> set es \<Longrightarrow> length (stream es) < n \<Longrightarrow>
   rio_readn n got es = (int (length got + length (stream es)), got @ stream es, [])"
proof (induction n got es rule: rio_readn.induct)
  case (1 n got es)
  show ?case
  proof (cases es)
    case Nil
    then show ?thesis using "1.prems" by (subst rio_readn.simps) simp
  next
    case (Cons e r)
    have n: "n \<noteq> 0" using "1.prems" by simp
    show ?thesis
    proof (cases e)
      case (Chunk b bs)
      obtain d es1 where d: "take_chunk n (b # bs) r = (d, es1)" by fastforce
      note c = take_chunk_stream [OF d]
      have sd: "stream es = d @ stream es1" using c(1) Cons Chunk by simp
      have "RErr \<notin> set es1" "length (stream es1) < n - length d"
        using "1.prems" c(3) Cons sd by auto
      then have "rio_readn (n - length d) (got @ d) es1 =
          (int (length (got @ d) + length (stream es1)), (got @ d) @ stream es1, [])"
        using "1.IH"(1) [OF n Cons Chunk refl d [symmetric]] by simp
      then show ?thesis using n Cons Chunk d sd by (subst rio_readn.simps) (simp add: Let_def)
    next
      case RIntr
      then show ?thesis using 1 n Cons by (subst rio_readn.simps) simp
    qed (use "1.prems" Cons in simp)
  qed
qed

lemma rio_writen_ok:
  "WErr \<notin> set es \<Longrightarrow>
   \<exists>es'. rio_writen buf es out = (int (length buf), es', out @ buf) \<and> WErr \<notin> set es'"
proof (induction buf es out rule: rio_writen.induct)
  case (2 buf e es out)
  show ?case
  proof (cases e)
    case (Accept k)
    show ?thesis
    proof (cases "buf = []")
      case False
      then obtain es' where "rio_writen (drop (Suc k) buf) es (out @ take (Suc k) buf) =
          (int (length (drop (Suc k) buf)), es', (out @ take (Suc k) buf) @ drop (Suc k) buf)" "WErr \<notin> set es'"
        using 2 Accept by auto
      then show ?thesis using Accept False by simp
    qed (use 2 in simp)
  qed (use 2 in auto)
qed simp

lemma htonl_bytes: "rev (be_bytes 4 (htonl x)) = be_bytes 4 x"
  using be_bytes_be_val [of "rev (be_bytes 4 x)"] by (simp add: htonl_def)

lemma htonl_htonl: "htonl (be_val (rev (be_bytes 4 x))) = x"
proof -
  have "rev (be_bytes 4 (be_val (rev (be_bytes 4 x)))) = be_bytes 4 x"
    using htonl_bytes by (simp add: htonl_def)
  then show ?thesis by (simp add: htonl_def [of "be_val _"] be_val_be_bytes take_bit_word_eq_self)
qed

lemma length_pkt_bytes [simp]: "length (pkt_bytes p) = 16"
  by (simp add: pkt_bytes_def)

lemma pkt_of_wire:
  assumes "m = [p_type p, p_status p, p_null p, p_pad p] @ be_bytes 4 (p_size p) @ be_bytes 4 (p_sec p) @ be_bytes 4 (p_nsec p)"
  shows "pkt_of_bytes m = p\<lparr>p_size := htonl (p_size p), p_sec := htonl (p_sec p), p_nsec := htonl (p_nsec p)\<rparr>"
  unfolding assms by (cases p) (simp add: pkt_of_bytes_def htonl_def eval_nat_numeral)

lemma less_size_t_16: "less_size_t (int n) 16 \<longleftrightarrow> n < 16" if "n < 2 ^ 63"
  using that by (simp add: less_size_t_def word_less_nat_alt unat_of_nat)

lemma less_size_t_error: "\<not> less_size_t (- 1) 16"
  by (simp add: less_size_t_def)


definition wire :: "XACTO_PACKET \<Rightarrow> u8 list" where
  "wire p = [p_type p, p_status p, p_null p, p_pad p] @ be_bytes 4 (p_size p) @ be_bytes 4 (p_sec p) @ be_bytes 4 (p_nsec p)"

lemma length_wire [simp]: "length (wire p) = 16"
  by (simp add: wire_def)

definition net_order :: "XACTO_PACKET \<Rightarrow> XACTO_PACKET" where
  "net_order p = p\<lparr>p_size := htonl (p_size p), p_sec := htonl (p_sec p), p_nsec := htonl (p_nsec p)\<rparr>"

lemma pkt_bytes_net_order: "pkt_bytes (net_order p) = wire p"
  by (simp add: pkt_bytes_def wire_def net_order_def htonl_bytes)

lemma pkt_of_bytes_wire: "pkt_of_bytes (wire p) = net_order p"
  unfolding net_order_def by (rule pkt_of_wire) (simp add: wire_def)

lemma net_order_twice: "net_order (net_order p) = p"
  using htonl_htonl [folded htonl_def] by (cases p) (simp add: net_order_def)

lemma send_ok:
  assumes "WErr \<notin> set (wx c)" "length d = unat (p_size p)" "length d < 2 ^ 31"
  shows "\<exists>w. proto_send_packet (Some p) (Some d) c = Inr (0, Some (net_order p), c\<lparr>wx := w, tx := tx c @ wire p @ d\<rparr>)
    \<and> WErr \<notin> set w"
proof -
  have n: "sint (p_size p) = int (length d)"
    using assms(2,3) by (metis sint_of_nat_small word_eq_of_nat)
  obtain w1 where w1: "rio_writen (wire p) (wx c) (tx c) = (16, w1, tx c @ wire p)" "WErr \<notin> set w1"
    using rio_writen_ok [OF assms(1), of "wire p" "tx c"] by auto
  obtain w2 where w2: "rio_writen d w1 (tx c @ wire p) = (int (length d), w2, (tx c @ wire p) @ d)" "WErr \<notin> set w2"
    using rio_writen_ok [OF w1(2)] by blast
  have no: "p\<lparr>p_size := htonl (p_size p), p_sec := htonl (p_sec p), p_nsec := htonl (p_nsec p)\<rparr> = net_order p"
    by (simp add: net_order_def)
  have l: "\<not> less_size_t 16 16" using less_size_t_16 [of 16] by simp
  show ?thesis
  proof (cases "d = []")
    case True
    then show ?thesis using w1 l n by (auto simp: proto_send_packet_def Let_def no pkt_bytes_net_order)
  next
    case False
    then show ?thesis using w1 w2 l n by (auto simp: proto_send_packet_def Let_def no pkt_bytes_net_order)
  qed
qed

lemma recv_ok:
  assumes "RErr \<notin> set (rx c)" "stream (rx c) = wire p @ d @ rest" "length d = unat (p_size p)" "p_size p \<noteq> - 1"
  shows "\<exists>es. proto_recv_packet (Some q) True c = Inr (0, Some p, (if d = [] then None else Some d), c\<lparr>rx := es\<rparr>)
    \<and> stream es = rest \<and> RErr \<notin> set es"
proof -
  obtain es1 where es1: "rio_readn 16 [] (rx c) = (16, wire p, es1)" "RErr \<notin> set es1" "stream es1 = d @ rest"
    using rio_readn_ok [OF assms(1), of 16 "[]"] assms(2) by auto
  have l: "\<not> less_size_t 16 16" using less_size_t_16 [of 16] by simp
  have no: "(net_order p)\<lparr>p_size := htonl (p_size (net_order p)), p_sec := htonl (p_sec (net_order p)),
      p_nsec := htonl (p_nsec (net_order p))\<rparr> = p"
    using net_order_twice [of p] by (simp add: net_order_def)
  have ns: "htonl (p_size (net_order p)) = p_size p" using arg_cong [OF no, of p_size] by simp
  show ?thesis
  proof (cases "d = []")
    case True
    then have "p_size p = 0" using assms(3) by (simp add: unat_eq_0)
    then show ?thesis
      using es1 l True no by (auto simp: proto_recv_packet_def Let_def pkt_of_bytes_wire ns)
  next
    case False
    then have z: "p_size p \<noteq> 0" using assms(3) by auto
    obtain es2 where es2: "rio_readn (unat (p_size p)) [] es1 = (int (unat (p_size p)), d, es2)" "RErr \<notin> set es2"
        "stream es2 = rest"
      using rio_readn_ok [OF es1(2), of "unat (p_size p)" "[]"] es1(3) assms(3) by auto
    have "1 + p_size p \<noteq> 0" using assms(4) by (simp add: add_eq_0_iff)
    then have "unat (p_size p + 1) = unat (p_size p) + 1" using unatSuc [of "p_size p"] by (simp add: add.commute)
    then show ?thesis
      using es1 es2 l False no z assms(3)
      by (auto simp: proto_recv_packet_def Let_def pkt_of_bytes_wire ns word_gt_0)
  qed
qed

subsection \<open>Properties of the protocol\<close>

text \<open>C13: a packet and its payload, sent and received over a connection that splits the bytes into
  chunks of any sizes and interrupts the system calls anywhere, arrive as they were sent, with the
  multi-byte fields in network order on the wire, and what follows them is left in the stream.\<close>

theorem packet_roundtrip:
  assumes "WErr \<notin> set (wx c)" "tx c = []" "length d = unat (p_size p)" "length d < 2 ^ 31"
    and "proto_send_packet (Some p) (Some d) c = Inr (r, p', c')"
    and "RErr \<notin> set (rx e)" "stream (rx e) = tx c' @ rest"
  shows "r = 0 \<and> (\<exists>e'. proto_recv_packet (Some q) True e =
    Inr (0, Some p, (if d = [] then None else Some d), e') \<and> stream (rx e') = rest)"
proof -
  have s: "r = 0" "tx c' = wire p @ d"
    using send_ok [OF assms(1,3,4)] assms(2,5) by auto
  have "p_size p \<noteq> - 1" using assms(3,4) by (auto simp: unsigned_minus_1_eq_mask mask_eq_exp_minus_1)
  then show ?thesis
    using recv_ok [OF assms(6) _ assms(3), of rest q] assms(7) s by auto
qed

theorem packet_roundtrip_witness:
  "\<exists>c' e'. proto_send_packet (Some \<lparr>p_type = 3, p_status = 0, p_null = 0, p_pad = 0, p_size = 2, p_sec = 5, p_nsec = 7\<rparr>)
       (Some [65, 66]) \<lparr>rx = [], tx = [], wx = [Accept 4, WIntr]\<rparr> = Inr (0, c') \<and>
     proto_recv_packet (Some \<lparr>p_type = 0, p_status = 0, p_null = 0, p_pad = 0, p_size = 0, p_sec = 0, p_nsec = 0\<rparr>) True
       \<lparr>rx = [RIntr, Chunk (hd (tx (snd c'))) (tl (tx (snd c')))], tx = [], wx = []\<rparr> =
     Inr (0, Some \<lparr>p_type = 3, p_status = 0, p_null = 0, p_pad = 0, p_size = 2, p_sec = 5, p_nsec = 7\<rparr>, Some [65, 66], e')"
proof -
  let ?p = "\<lparr>p_type = 3, p_status = 0, p_null = 0, p_pad = 0, p_size = 2, p_sec = 5, p_nsec = 7\<rparr> :: XACTO_PACKET"
  let ?c = "\<lparr>rx = [], tx = [], wx = [Accept 4, WIntr]\<rparr> :: conn"
  obtain w where s: "proto_send_packet (Some ?p) (Some [65, 66]) ?c = Inr (0, Some (net_order ?p), ?c\<lparr>wx := w, tx := wire ?p @ [65, 66]\<rparr>)"
    using send_ok [of ?c "[65, 66]" ?p] by auto
  then show ?thesis
    using packet_roundtrip [OF _ _ _ _ s, of "\<lparr>rx = [RIntr, Chunk (hd (wire ?p @ [65, 66])) (tl (wire ?p @ [65, 66]))], tx = [], wx = []\<rparr>" "[]"
        "\<lparr>p_type = 0, p_status = 0, p_null = 0, p_pad = 0, p_size = 0, p_sec = 0, p_nsec = 0\<rparr>"]
    by (auto simp: wire_def)
qed

text \<open>The checks of the packet header I/O miss errors, since -1 is compared as an unsigned number:
  after a failing \<open>read\<close> \<open>proto_recv_packet\<close> reports a packet received, with stale contents, and
  after a failing \<open>write\<close> \<open>proto_send_packet\<close> reports success without having sent anything.\<close>

theorem header_io_errors_unnoticed:
  "(\<exists>p' c'. proto_recv_packet (Some p) False \<lparr>rx = RErr # es, tx = t, wx = w\<rparr> = Inr (0, Some p', None, c') \<and>
      p_type p' = p_type p) \<and>
   (\<exists>p' c'. proto_send_packet (Some p) None \<lparr>rx = es, tx = t, wx = WErr # w\<rparr> = Inr (0, p', c') \<and> tx c' = t)"
proof
  have "rio_readn 16 [] (RErr # es) = (- 1, [], es)" by (subst rio_readn.simps) simp
  then show "\<exists>p' c'. proto_recv_packet (Some p) False \<lparr>rx = RErr # es, tx = t, wx = w\<rparr> = Inr (0, Some p', None, c') \<and>
      p_type p' = p_type p"
    using less_size_t_error
    by (simp add: proto_recv_packet_def Let_def pkt_of_bytes_def pkt_bytes_def)
  show "\<exists>p' c'. proto_send_packet (Some p) None \<lparr>rx = es, tx = t, wx = WErr # w\<rparr> = Inr (0, p', c') \<and> tx c' = t"
    using less_size_t_error by (simp add: proto_send_packet_def Let_def pkt_bytes_def)
qed

end
