(* ===== verification/Server_Service.thy ===== *)
theory Server_Service
  imports Server_Proto
begin

section \<open>Server store: the client service\<close>

text \<open>
  \<open>Server Store/src/server.c\<close>. The object store itself is linked from a library (the text of
  \<open>store.c\<close> is commented out), so \<open>store_put\<close> and \<open>store_get\<close> are arguments of the definitions; they may
  do anything to the store, the blobs, the versions and the transactions, but have no access to the
  connection and the client registry. The clock is a sequence of readings. A run of the service
  returns, faults, exits the process or blocks; \<open>OutOfFuel\<close> bounds the rounds of its loop.
\<close>

datatype 'a sres = Ok 'a | Fault fault | ExitFail | Block | OutOfFuel

record 'st world =
  ds :: dstate
  cn :: conn
  registry :: CLIENT_REGISTRY
  sto :: 'st
  clock :: "nat \<Rightarrow> u32 \<times> u32"
  ticks :: nat

type_synonym 'st put_fn = "nat \<Rightarrow> KEY \<Rightarrow> nat option \<Rightarrow> dstate \<times> 'st \<Rightarrow> TRANS_STATUS \<times> dstate \<times> 'st"
type_synonym 'st get_fn = "nat \<Rightarrow> KEY \<Rightarrow> dstate \<times> 'st \<Rightarrow> TRANS_STATUS \<times> nat option \<times> dstate \<times> 'st"

abbreviation XACTO_PUT_PKT :: u8 where "XACTO_PUT_PKT \<equiv> 1"
abbreviation XACTO_GET_PKT :: u8 where "XACTO_GET_PKT \<equiv> 2"
abbreviation XACTO_DATA_PKT :: u8 where "XACTO_DATA_PKT \<equiv> 3"
abbreviation XACTO_COMMIT_PKT :: u8 where "XACTO_COMMIT_PKT \<equiv> 4"
abbreviation XACTO_REPLY_PKT :: u8 where "XACTO_REPLY_PKT \<equiv> 5"

fun status_code :: "TRANS_STATUS \<Rightarrow> u8" where
  "status_code TRANS_PENDING = 0"
| "status_code TRANS_COMMITTED = 1"
| "status_code TRANS_ABORTED = 2"

definition packet_create :: "u8 \<Rightarrow> u8 \<Rightarrow> XACTO_PACKET" where
  "packet_create ty st = \<lparr>p_type = ty, p_status = st, p_null = 0, p_pad = 0, p_size = 0, p_sec = 0, p_nsec = 0\<rparr>"

definition set_pkt_time :: "XACTO_PACKET \<Rightarrow> 'st world \<Rightarrow> XACTO_PACKET \<times> 'st world" where
  "set_pkt_time p w =
     (let (s, n) = clock w (ticks w) in (p\<lparr>p_sec := s, p_nsec := n\<rparr>, w\<lparr>ticks := ticks w + 1\<rparr>))"

definition bytes_str :: "u8 list \<Rightarrow> string" where
  "bytes_str bs = map (\<lambda>b. char_of (unat b)) bs"

definition str_bytes :: "string \<Rightarrow> u8 list" where
  "str_bytes s = map of_char s @ [0]"

subsection \<open>Replies\<close>

definition xacto_reply :: "u8 \<Rightarrow> TRANS_STATUS \<Rightarrow> nat option \<Rightarrow> 'st world \<Rightarrow> 'st world sres" where
  "xacto_reply ty st blob w =
     (let response = packet_create XACTO_REPLY_PKT (status_code st);
          (response, w) = set_pkt_time response w
      in case proto_send_packet (Some response) None (cn w) of
           Inl f \<Rightarrow> Fault f
         | Inr (_, response, c) \<Rightarrow>
             (let w = w\<lparr>cn := c\<rparr>
              in if ty = XACTO_GET_PKT then
                   (let response = (the response)\<lparr>p_type := XACTO_DATA_PKT\<rparr>;
                        (response, w) = set_pkt_time response w
                    in case blob of
                         Some p \<Rightarrow>
                           (case blobs (ds w) p of None \<Rightarrow> Fault Freed
                            | Some b \<Rightarrow>
                                (let response = response\<lparr>p_size := ucast (b_size b)\<rparr>
                                 in case proto_send_packet (Some response) (map_option str_bytes (b_content b)) (cn w) of
                                      Inl f \<Rightarrow> Fault f
                                    | Inr (_, _, c) \<Rightarrow> Ok (w\<lparr>cn := c\<rparr>)))
                       | None \<Rightarrow>
                           (let response = response\<lparr>p_null := 1\<rparr>
                            in case proto_send_packet (Some response) None (cn w) of
                                 Inl f \<Rightarrow> Fault f
                               | Inr (_, _, c) \<Rightarrow> Ok (w\<lparr>cn := c\<rparr>)))
                 else Ok w))"

subsection \<open>Requests\<close>

definition xacto_commit :: "nat \<Rightarrow> 'st world \<Rightarrow> (TRANS_STATUS \<times> 'st world) sres" where
  "xacto_commit tp w =
     (case trans_commit tp (tms (ds w)) of
        Ret (st, t) \<Rightarrow> Ok (st, w\<lparr>ds := ds w\<lparr>tms := t\<rparr>\<rparr>)
      | Exit \<Rightarrow> ExitFail | Blocked \<Rightarrow> Block | Fuel \<Rightarrow> OutOfFuel)"

definition make_key :: "u8 list option \<Rightarrow> u32 \<Rightarrow> 'st world \<Rightarrow> (KEY \<times> 'st world) sres" where
  "make_key key n w =
     (case blob_create (map_option bytes_str key) (ucast n) (ds w) of Inl f \<Rightarrow> Fault f
      | Inr (p, d) \<Rightarrow> (case key_create p d of Inl f \<Rightarrow> Fault f | Inr k \<Rightarrow> Ok (k, w\<lparr>ds := d\<rparr>)))"

definition xacto_get :: "'st get_fn \<Rightarrow> nat \<Rightarrow> 'st world \<Rightarrow> (TRANS_STATUS \<times> nat option \<times> 'st world) sres" where
  "xacto_get store_get tp w =
     (case proto_recv_packet (Some (packet_create 0 0)) True (cn w) of Inl f \<Rightarrow> Fault f
      | Inr (r, keyPkt, key, c) \<Rightarrow>
          (let w = w\<lparr>cn := c\<rparr>
           in if r < 0 then Ok (TRANS_ABORTED, None, w)
              else case make_key key (p_size (the keyPkt)) w of
                     Ok (k, w) \<Rightarrow>
                       (let (st, v, d, s) = store_get tp k (ds w, sto w)
                        in Ok (st, v, w\<lparr>ds := d, sto := s\<rparr>))
                   | Fault f \<Rightarrow> Fault f | ExitFail \<Rightarrow> ExitFail | Block \<Rightarrow> Block | OutOfFuel \<Rightarrow> OutOfFuel))"

definition xacto_put :: "'st put_fn \<Rightarrow> nat \<Rightarrow> 'st world \<Rightarrow> (TRANS_STATUS \<times> 'st world) sres" where
  "xacto_put store_put tp w =
     (case proto_recv_packet (Some (packet_create 0 0)) True (cn w) of Inl f \<Rightarrow> Fault f
      | Inr (r, keyPkt, key, c) \<Rightarrow>
          (let w = w\<lparr>cn := c\<rparr>
           in if r < 0 then Ok (TRANS_ABORTED, w)
              else case proto_recv_packet (Some (packet_create 0 0)) True (cn w) of Inl f \<Rightarrow> Fault f
                | Inr (r, valuePkt, val, c) \<Rightarrow>
                   (let w = w\<lparr>cn := c\<rparr>
                    in if r < 0 then Ok (TRANS_ABORTED, w)
                       else case make_key key (p_size (the keyPkt)) w of
                              Ok (k, w) \<Rightarrow>
                                (case blob_create (map_option bytes_str val) (ucast (p_size (the valuePkt))) (ds w) of
                                   Inl f \<Rightarrow> Fault f
                                 | Inr (p, d) \<Rightarrow>
                                     (let (st, d, s) = store_put tp k (Some p) (d, sto w)
                                      in Ok (st, w\<lparr>ds := d, sto := s\<rparr>)))
                            | Fault f \<Rightarrow> Fault f | ExitFail \<Rightarrow> ExitFail | Block \<Rightarrow> Block | OutOfFuel \<Rightarrow> OutOfFuel)))"

subsection \<open>The service thread\<close>

definition abort_trans :: "nat \<Rightarrow> 'st world \<Rightarrow> 'st world sres" where
  "abort_trans tp w =
     (case trans_abort tp (tms (ds w)) of
        Ret t \<Rightarrow> Ok (w\<lparr>ds := ds w\<lparr>tms := t\<rparr>\<rparr>)
      | Exit \<Rightarrow> ExitFail | Blocked \<Rightarrow> Block | Fuel \<Rightarrow> OutOfFuel)"

definition unregister :: "int \<Rightarrow> 'st world \<Rightarrow> 'st world sres" where
  "unregister fd w = (case creg_unregister (registry w) fd of None \<Rightarrow> Block | Some r \<Rightarrow> Ok (w\<lparr>registry := r\<rparr>))"

definition handle :: "'st put_fn \<Rightarrow> 'st get_fn \<Rightarrow> nat \<Rightarrow> u8 \<Rightarrow> TRANS_STATUS \<Rightarrow> 'st world \<Rightarrow>
    (TRANS_STATUS \<times> nat option \<times> 'st world) sres" where
  "handle store_put store_get tp ty st w =
     (if ty = XACTO_PUT_PKT then
        (case xacto_put store_put tp w of Ok (st, w) \<Rightarrow> Ok (st, None, w)
         | Fault f \<Rightarrow> Fault f | ExitFail \<Rightarrow> ExitFail | Block \<Rightarrow> Block | OutOfFuel \<Rightarrow> OutOfFuel)
      else if ty = XACTO_GET_PKT then xacto_get store_get tp w
      else if ty = XACTO_COMMIT_PKT then
        (case xacto_commit tp w of Ok (st, w) \<Rightarrow> Ok (st, None, w)
         | Fault f \<Rightarrow> Fault f | ExitFail \<Rightarrow> ExitFail | Block \<Rightarrow> Block | OutOfFuel \<Rightarrow> OutOfFuel)
      else Ok (st, None, w))"

fun service_loop :: "'st put_fn \<Rightarrow> 'st get_fn \<Rightarrow> nat \<Rightarrow> int \<Rightarrow> nat \<Rightarrow> XACTO_PACKET \<Rightarrow> TRANS_STATUS \<Rightarrow>
    'st world \<Rightarrow> 'st world sres" where
  "service_loop store_put store_get 0 fd tp pkt st w = OutOfFuel"
| "service_loop store_put store_get (Suc n) fd tp pkt st w =
     (case proto_recv_packet (Some pkt) False (cn w) of Inl f \<Rightarrow> Fault f
      | Inr (r, pkt, _, c) \<Rightarrow>
          (let w = w\<lparr>cn := c\<rparr>; pkt = the pkt
           in if r < 0 then
                (case abort_trans tp w of Ok w \<Rightarrow> unregister fd w | e \<Rightarrow> e)
              else
                (case handle store_put store_get tp (p_type pkt) st w of
                   Ok (st, getBlob, w) \<Rightarrow>
                     (case xacto_reply (p_type pkt) st getBlob w of
                        Ok w \<Rightarrow>
                          (if p_type pkt = XACTO_COMMIT_PKT \<or> st = TRANS_ABORTED then
                             (case unregister fd w of
                                Ok w \<Rightarrow> (if st = TRANS_ABORTED then abort_trans tp w else Ok w)
                              | e \<Rightarrow> e)
                           else service_loop store_put store_get n fd tp pkt st w)
                      | e \<Rightarrow> e)
                 | Fault f \<Rightarrow> Fault f | ExitFail \<Rightarrow> ExitFail | Block \<Rightarrow> Block | OutOfFuel \<Rightarrow> OutOfFuel)))"

definition xacto_client_service ::
    "'st put_fn \<Rightarrow> 'st get_fn \<Rightarrow> nat \<Rightarrow> int \<Rightarrow> 'st world \<Rightarrow> (nat \<times> 'st world) sres" where
  "xacto_client_service store_put store_get n fd w =
     (case creg_register (registry w) fd of None \<Rightarrow> Block
      | Some r \<Rightarrow>
          (let w = w\<lparr>registry := r\<rparr>;
               (tp, t) = trans_create (tms (ds w));
               w = w\<lparr>ds := ds w\<lparr>tms := t\<rparr>\<rparr>
           in case service_loop store_put store_get n fd tp (packet_create 0 0) TRANS_PENDING w of
                Ok w \<Rightarrow> Ok (tp, w)
              | Fault f \<Rightarrow> Fault f | ExitFail \<Rightarrow> ExitFail | Block \<Rightarrow> Block | OutOfFuel \<Rightarrow> OutOfFuel))"


subsection \<open>What the operations leave alone\<close>

text \<open>Input is only consumed, and a stream without errors stays one.\<close>

definition consumes :: "conn \<Rightarrow> conn \<Rightarrow> bool" where
  "consumes c c' \<longleftrightarrow> (RErr \<notin> set (rx c) \<longrightarrow>
     RErr \<notin> set (rx c') \<and> length (stream (rx c')) \<le> length (stream (rx c)))"

lemma consumes_refl: "consumes c c" and consumes_trans: "consumes a b \<Longrightarrow> consumes b c \<Longrightarrow> consumes a c"
  by (auto simp: consumes_def)

lemma rio_readn_consumes:
  assumes "rio_readn n [] es = (r, got, es')" "RErr \<notin> set es"
  shows "RErr \<notin> set es'" "length (stream es') \<le> length (stream es)" "r < int n \<or> length (stream es') + n = length (stream es)"
    and "0 \<le> r"
  using assms rio_readn_ok [of es n "[]"] rio_readn_eof [of es n "[]"]
  by (cases "n \<le> length (stream es)"; force)+

lemma recv_consumes:
  assumes "proto_recv_packet (Some p) b c = Inr (r, q, d, c')"
  shows "consumes c c'"
proof -
  obtain r1 got1 es1 where 1: "rio_readn 16 [] (rx c) = (r1, got1, es1)" by (metis prod_cases3)
  have "rx c' = es1 \<or> (\<exists>n r2 got2. rio_readn n [] es1 = (r2, got2, rx c'))"
    using assms 1 by (auto simp: proto_recv_packet_def Let_def split: if_splits prod.splits)
  then show ?thesis
    using rio_readn_consumes(1,2) [OF 1] rio_readn_consumes(1,2) unfolding consumes_def by (meson le_trans)
qed

lemma recv_header_progress:
  assumes "proto_recv_packet (Some p) False c = Inr (r, q, d, c')" "RErr \<notin> set (rx c)" "\<not> r < 0"
  shows "length (stream (rx c')) + 16 = length (stream (rx c))"
proof -
  obtain r1 got1 es1 where 1: "rio_readn 16 [] (rx c) = (r1, got1, es1)" by (metis prod_cases3)
  note k = rio_readn_consumes [OF 1 assms(2)]
  have "rx c' = es1" using assms(1) 1 by (auto simp: proto_recv_packet_def Let_def split: if_splits)
  moreover have "\<not> less_size_t r1 16"
    using assms(1,3) 1 by (auto simp: proto_recv_packet_def Let_def split: if_splits)
  moreover have "less_size_t r1 16" if "r1 < 16" using that k(4) less_size_t_16 [of "nat r1"] by simp
  ultimately show ?thesis using k(3) by auto
qed

lemma send_rx: "proto_send_packet p d c = Inr (r, q, c') \<Longrightarrow> rx c' = rx c"
  by (auto simp: proto_send_packet_def Let_def split: option.splits prod.splits if_splits)

lemma reply_keeps:
  assumes "xacto_reply ty st blob w = Ok w'"
  shows "ds w' = ds w" "registry w' = registry w" "consumes (cn w) (cn w')"
proof -
  have "ds w' = ds w \<and> registry w' = registry w \<and> rx (cn w') = rx (cn w)"
    using assms
    by (auto simp: xacto_reply_def set_pkt_time_def Let_def split: sum.splits prod.splits if_splits option.splits
        dest!: send_rx)
  then show "ds w' = ds w" "registry w' = registry w" "consumes (cn w) (cn w')" by (auto simp: consumes_def)
qed

lemma make_key_keeps:
  assumes "make_key key n w = Ok (k, w')"
  shows "registry w' = registry w" "cn w' = cn w" "tms (ds w') = tms (ds w)"
  using assms by (auto simp: make_key_def blob_create_fields(6) split: sum.splits prod.splits)

lemma xacto_put_keeps:
  assumes "xacto_put store_put tp w = Ok (st, w')"
  shows "registry w' = registry w" "consumes (cn w) (cn w')"
proof -
  obtain r1 kp key c1 where 1: "proto_recv_packet (Some (packet_create 0 0)) True (cn w) = Inr (r1, kp, key, c1)"
    using assms by (auto simp: xacto_put_def split: sum.splits)
  have *: "registry w' = registry w \<and> (cn w' = c1 \<or>
      (\<exists>r vp val. proto_recv_packet (Some (packet_create 0 0)) True c1 = Inr (r, vp, val, cn w')))"
  proof (cases "r1 < 0")
    case True
    then show ?thesis using assms 1 by (auto simp: xacto_put_def Let_def)
  next
    case False
    then obtain r2 vp val c2 where 2: "proto_recv_packet (Some (packet_create 0 0)) True c1 = Inr (r2, vp, val, c2)"
      using assms 1 by (auto simp: xacto_put_def Let_def split: sum.splits)
    have "registry w' = registry w \<and> cn w' = c2"
      using assms 1 2 False
      by (auto simp: xacto_put_def Let_def make_key_keeps split: sum.splits prod.splits if_splits sres.splits)
    then show ?thesis using 2 by auto
  qed
  then show "registry w' = registry w" by simp
  show "consumes (cn w) (cn w')"
    using * recv_consumes [OF 1] recv_consumes consumes_trans by metis
qed

lemma xacto_get_keeps:
  assumes "xacto_get store_get tp w = Ok (st, v, w')"
  shows "registry w' = registry w" "consumes (cn w) (cn w')"
  using assms recv_consumes
  by (auto simp: xacto_get_def Let_def make_key_keeps split: sum.splits prod.splits if_splits sres.splits)

lemma handle_keeps:
  assumes "handle store_put store_get tp ty st w = Ok (st', v, w')"
  shows "registry w' = registry w" "consumes (cn w) (cn w')"
  using assms xacto_put_keeps [of store_put tp w] xacto_get_keeps [of store_get tp w]
  by (auto simp: handle_def xacto_commit_def consumes_refl split: if_splits sres.splits prod.splits tres.splits)

lemma commit_loop_status:
  "commit_loop deps st s = (Done st', s') \<Longrightarrow> st \<noteq> TRANS_PENDING \<Longrightarrow> st' \<noteq> TRANS_PENDING"
  by (induction deps st s rule: commit_loop.induct) (auto split: if_splits)

lemma trans_commit_status:
  assumes "trans_commit tp s = Ret (st, s')"
  shows "status s' tp = st" "st \<noteq> TRANS_PENDING"
  using assms commit_loop_status
  by (auto simp: trans_commit_def commit_begin_def commit_end_fields Let_def
      split: option.splits commit_state.splits prod.splits)


subsection \<open>The service ends\<close>

text \<open>What the service relies on: the store leaves a well-formed transaction manager well-formed.\<close>

definition store_ok :: "'st put_fn \<Rightarrow> 'st get_fn \<Rightarrow> bool" where
  "store_ok store_put store_get \<longleftrightarrow>
     (\<forall>tp k b d s st d' s'. tman_inv (tms d) \<and> store_put tp k b (d, s) = (st, d', s') \<longrightarrow>
        tman_inv (tms d') \<and> ntrans (tms d) \<le> ntrans (tms d')) \<and>
     (\<forall>tp k d s st v d' s'. tman_inv (tms d) \<and> store_get tp k (d, s) = (st, v, d', s') \<longrightarrow>
        tman_inv (tms d') \<and> ntrans (tms d) \<le> ntrans (tms d'))"

lemma trans_commit_inv:
  assumes "trans_commit tp s = Ret (st, s')"
  shows "tman_inv s' = tman_inv s" "ntrans s' = ntrans s"
proof -
  obtain s1 where s1: "commit_begin tp s = Some (Done st, s1)" "s' = commit_end tp st s1"
    using assms by (auto simp: trans_commit_def commit_end_fields Let_def split: option.splits commit_state.splits)
  then show "tman_inv s' = tman_inv s" "ntrans s' = ntrans s"
    using same_depsD(1,4) [OF commit_begin_fields(1) [OF s1(1)]] by (simp_all add: commit_end_inv commit_end_fields)
qed

lemma store_okD:
  assumes "store_ok store_put store_get" "tman_inv (tms d)"
  shows "store_put tp k b (d, s) = (st, d', s') \<Longrightarrow> tman_inv (tms d') \<and> ntrans (tms d) \<le> ntrans (tms d')"
    and "store_get tp k (d, s) = (st, v, d', s') \<Longrightarrow> tman_inv (tms d') \<and> ntrans (tms d) \<le> ntrans (tms d')"
  using assms unfolding store_ok_def by blast+

lemma xacto_put_calls:
  assumes "xacto_put store_put tp w = Ok (st, w')"
  shows "tms (ds w') = tms (ds w) \<or>
    (\<exists>k p d s. tms d = tms (ds w) \<and> store_put tp k (Some p) (d, s) = (st, ds w', sto w'))"
proof -
  obtain r1 kp key c1 where 1: "proto_recv_packet (Some (packet_create 0 0)) True (cn w) = Inr (r1, kp, key, c1)"
    using assms by (auto simp: xacto_put_def split: sum.splits)
  show ?thesis
  proof (cases "r1 < 0")
    case True
    then show ?thesis using assms 1 by (auto simp: xacto_put_def Let_def)
  next
    case False
    then obtain r2 vp val c2 where 2: "proto_recv_packet (Some (packet_create 0 0)) True c1 = Inr (r2, vp, val, c2)"
      using assms 1 by (auto simp: xacto_put_def Let_def split: sum.splits)
    show ?thesis
    proof (cases "r2 < 0")
      case True
      then show ?thesis using assms 1 2 False by (auto simp: xacto_put_def Let_def)
    next
      case nr: False
      obtain k w1 where k: "make_key key (p_size (the kp)) (w\<lparr>cn := c2\<rparr>) = Ok (k, w1)"
        using assms 1 2 False nr by (auto simp: xacto_put_def Let_def split: sres.splits)
      obtain p d where b: "blob_create (map_option bytes_str val) (ucast (p_size (the vp))) (ds w1) = Inr (p, d)"
        using blob_create_ok by blast
      have "tms d = tms (ds w)" using blob_create_fields(6) [OF b] make_key_keeps(3) [OF k] by simp
      moreover have "store_put tp k (Some p) (d, sto w1) = (st, ds w', sto w')"
        using assms 1 2 False nr k b by (auto simp: xacto_put_def Let_def split: prod.splits)
      ultimately show ?thesis by blast
    qed
  qed
qed

lemma xacto_get_calls:
  assumes "xacto_get store_get tp w = Ok (st, v, w')"
  shows "tms (ds w') = tms (ds w) \<or>
    (\<exists>k d s. tms d = tms (ds w) \<and> store_get tp k (d, s) = (st, v, ds w', sto w'))"
proof -
  obtain r1 kp key c1 where 1: "proto_recv_packet (Some (packet_create 0 0)) True (cn w) = Inr (r1, kp, key, c1)"
    using assms by (auto simp: xacto_get_def split: sum.splits)
  show ?thesis
  proof (cases "r1 < 0")
    case True
    then show ?thesis using assms 1 by (auto simp: xacto_get_def Let_def)
  next
    case False
    then obtain k w1 where k: "make_key key (p_size (the kp)) (w\<lparr>cn := c1\<rparr>) = Ok (k, w1)"
      using assms 1 by (auto simp: xacto_get_def Let_def split: sres.splits)
    have "tms (ds w1) = tms (ds w)" using make_key_keeps(3) [OF k] by simp
    moreover have "store_get tp k (ds w1, sto w1) = (st, v, ds w', sto w')"
      using assms 1 False k by (auto simp: xacto_get_def Let_def split: prod.splits)
    ultimately show ?thesis by blast
  qed
qed

lemma handle_tman:
  assumes "store_ok store_put store_get" "tman_inv (tms (ds w))"
    and "handle store_put store_get tp ty st w = Ok (st', v, w')"
  shows "tman_inv (tms (ds w')) \<and> ntrans (tms (ds w)) \<le> ntrans (tms (ds w'))"
proof -
  consider (put) "xacto_put store_put tp w = Ok (st', w')" | (get) "xacto_get store_get tp w = Ok (st', v, w')"
    | (commit) "xacto_commit tp w = Ok (st', w')" | "w' = w"
    using assms(3) by (auto simp: handle_def split: if_splits sres.splits prod.splits)
  then show ?thesis
  proof cases
    case put
    then show ?thesis using xacto_put_calls [OF put] store_okD(1) [OF assms(1)] assms(2) by (metis order_refl)
  next
    case get
    then show ?thesis using xacto_get_calls [OF get] store_okD(2) [OF assms(1)] assms(2) by (metis order_refl)
  next
    case commit
    then obtain t where "trans_commit tp (tms (ds w)) = Ret (st', t)" "tms (ds w') = t"
      by (auto simp: xacto_commit_def split: tres.splits)
    then show ?thesis using trans_commit_inv assms(2) by simp
  qed (use assms(2) in simp)
qed

lemma no_fuel_needed:
  "make_key key n w \<noteq> OutOfFuel" "xacto_put store_put tp w \<noteq> OutOfFuel" "xacto_get store_get tp w \<noteq> OutOfFuel"
  "xacto_commit tp w \<noteq> OutOfFuel" "xacto_reply ty st v w \<noteq> OutOfFuel" "unregister fd w \<noteq> OutOfFuel"
proof -
  show k: "make_key key n w \<noteq> OutOfFuel" for key n and w :: "'a world"
    by (auto simp: make_key_def split: sum.splits prod.splits)
  show "xacto_put store_put tp w \<noteq> OutOfFuel"
    using k by (auto simp: xacto_put_def Let_def split: sum.splits prod.splits if_splits sres.splits)
  show "xacto_get store_get tp w \<noteq> OutOfFuel"
    using k by (auto simp: xacto_get_def Let_def split: sum.splits prod.splits if_splits sres.splits)
  have "trans_commit tp s \<noteq> Fuel" for s
    by (auto simp: trans_commit_def Let_def split: option.splits commit_state.splits)
  then show "xacto_commit tp w \<noteq> OutOfFuel"
    by (auto simp: xacto_commit_def split: tres.splits prod.splits)
  show "xacto_reply ty st v w \<noteq> OutOfFuel"
    by (auto simp: xacto_reply_def set_pkt_time_def Let_def split: sum.splits prod.splits if_splits option.splits)
  show "unregister fd w \<noteq> OutOfFuel" by (auto simp: unregister_def split: option.splits)
qed

lemma handle_no_fuel: "handle store_put store_get tp ty st w \<noteq> OutOfFuel"
  by (auto simp: handle_def no_fuel_needed split: sres.splits prod.splits if_splits)

lemma abort_no_fuel:
  "tman_inv (tms (ds w)) \<Longrightarrow> tp \<in> {1..ntrans (tms (ds w))} \<Longrightarrow> abort_trans tp w \<noteq> OutOfFuel"
  using trans_abort_fuel [of "tms (ds w)" tp] by (auto simp: abort_trans_def split: tres.splits)

lemma unregister_ds: "unregister fd w = Ok w' \<Longrightarrow> ds w' = ds w"
  by (auto simp: unregister_def split: option.splits)

lemma service_loop_fuel:
  assumes "store_ok store_put store_get"
  shows "tman_inv (tms (ds w)) \<Longrightarrow> tp \<in> {1..ntrans (tms (ds w))} \<Longrightarrow> RErr \<notin> set (rx (cn w)) \<Longrightarrow>
    length (stream (rx (cn w))) < 16 * n \<Longrightarrow> service_loop store_put store_get n fd tp pkt st w \<noteq> OutOfFuel"
proof (induction n arbitrary: pkt st w)
  case (Suc n)
  show ?case
  proof (cases "proto_recv_packet (Some pkt) False (cn w)")
    case (Inr x)
    obtain r q d c where x: "proto_recv_packet (Some pkt) False (cn w) = Inr (r, q, d, c)" using Inr by (cases x) auto
    let ?w = "w\<lparr>cn := c\<rparr>"
    have ab: "abort_trans tp ?w \<noteq> OutOfFuel" using abort_no_fuel [of ?w tp] Suc.prems(1,2) by simp
    show ?thesis
    proof (cases "r < 0")
      case True
      then show ?thesis using x ab by (auto simp: Let_def no_fuel_needed split: sres.splits)
    next
      case False
      note pr = recv_header_progress [OF x Suc.prems(3) False] and co = recv_consumes [OF x]
      show ?thesis
      proof (cases "handle store_put store_get tp (p_type (the q)) st ?w")
        case (Ok y)
        obtain st1 v w1 where h: "handle store_put store_get tp (p_type (the q)) st ?w = Ok (st1, v, w1)"
          using Ok by (cases y) auto
        have t1: "tman_inv (tms (ds w1))" "tp \<in> {1..ntrans (tms (ds w1))}"
          using handle_tman [OF assms _ h] Suc.prems(1,2) by auto
        note c1 = handle_keeps(2) [OF h]
        show ?thesis
        proof (cases "xacto_reply (p_type (the q)) st1 v w1")
          case (Ok w2)
          note k = reply_keeps [OF Ok]
          have "RErr \<notin> set (rx (cn w2))" "length (stream (rx (cn w2))) < 16 * n"
            using pr co c1 k(3) Suc.prems(3,4) by (auto simp: consumes_def)
          then have "service_loop store_put store_get n fd tp (the q) st1 w2 \<noteq> OutOfFuel"
            using Suc.IH [of w2] t1 k(1) by simp
          moreover have "abort_trans tp w3 \<noteq> OutOfFuel" if "unregister fd w2 = Ok w3" for w3
            using abort_no_fuel [of w3 tp] unregister_ds [OF that] t1 k(1) by simp
          ultimately show ?thesis
            using x False h Ok by (auto simp: Let_def no_fuel_needed split: sres.splits)
        qed (use x False h in \<open>auto simp: Let_def no_fuel_needed\<close>)
      qed (use x False in \<open>auto simp: Let_def handle_no_fuel\<close>)
    qed
  qed simp
qed simp

subsection \<open>The service cleans up\<close>

lemma abort_trans_status: "abort_trans tp w = Ok w' \<Longrightarrow> status (tms (ds w')) tp = TRANS_ABORTED \<and> registry w' = registry w"
  using abortedD(5) [OF trans_abort_aborted] by (auto simp: abort_trans_def split: tres.splits)

lemma service_loop_end:
  "service_loop store_put store_get n fd tp pkt st w = Ok w' \<Longrightarrow>
   creg_unregister (registry w) fd = Some (registry w') \<and> status (tms (ds w')) tp \<noteq> TRANS_PENDING"
proof (induction n arbitrary: pkt st w)
  case (Suc n)
  obtain r q d c where x: "proto_recv_packet (Some pkt) False (cn w) = Inr (r, q, d, c)"
    using Suc.prems by (auto split: sum.splits)
  let ?w = "w\<lparr>cn := c\<rparr>"
  show ?case
  proof (cases "r < 0")
    case True
    then obtain w1 where "abort_trans tp ?w = Ok w1" "unregister fd w1 = Ok w'"
      using Suc.prems x by (auto simp: Let_def split: sres.splits)
    then show ?thesis
      using abort_trans_status [of tp ?w w1] by (auto simp: unregister_def split: option.splits)
  next
    case False
    then obtain st1 v w1 where h: "handle store_put store_get tp (p_type (the q)) st ?w = Ok (st1, v, w1)"
      using Suc.prems x by (auto simp: Let_def split: sres.splits)
    then obtain w2 where w2: "xacto_reply (p_type (the q)) st1 v w1 = Ok w2"
      using Suc.prems x False by (auto simp: Let_def split: sres.splits)
    have k: "registry w2 = registry w" "ds w2 = ds w1" using handle_keeps(1) [OF h] reply_keeps [OF w2] by simp_all
    show ?thesis
    proof (cases "p_type (the q) = XACTO_COMMIT_PKT \<or> st1 = TRANS_ABORTED")
      case True
      then obtain w3 where w3: "unregister fd w2 = Ok w3"
          "(if st1 = TRANS_ABORTED then abort_trans tp w3 else Ok w3) = Ok w'"
        using Suc.prems x False h w2 by (auto simp: Let_def split: sres.splits)
      have r3: "creg_unregister (registry w) fd = Some (registry w3)"
        using w3(1) k(1) by (auto simp: unregister_def split: option.splits)
      show ?thesis
      proof (cases "st1 = TRANS_ABORTED")
        case True
        then show ?thesis using abort_trans_status [of tp w3 w'] w3(2) r3 by simp
      next
        case na: False
        then have "xacto_commit tp ?w = Ok (st1, w1)"
          using True h by (auto simp: handle_def split: sres.splits)
        then have "status (tms (ds w1)) tp \<noteq> TRANS_PENDING"
          using trans_commit_status by (fastforce simp: xacto_commit_def split: tres.splits)
        then show ?thesis using na w3 r3 k(2) unregister_ds [OF w3(1)] by simp
      qed
    next
      case go: False
      then have "service_loop store_put store_get n fd tp (the q) st1 w2 = Ok w'"
        using Suc.prems x False h w2 by (simp add: Let_def)
      then show ?thesis using Suc.IH [of "the q" st1 w2] k(1) by simp
    qed
  qed
qed simp

lemma service_end:
  assumes "creg_inv (registry w)" "cr_sem (registry w) = 1" "fd \<noteq> - 1" "length (fds (registry w)) < 1024"
    and "xacto_client_service store_put store_get n fd w = Ok (tp, w')"
  shows "status (tms (ds w')) tp \<noteq> TRANS_PENDING \<and> mset (fds (registry w')) = mset (fds (registry w)) \<and>
    clients (registry w') = clients (registry w) \<and> creg_inv (registry w') \<and> cr_sem (registry w') = 1"
proof -
  obtain r where r: "creg_register (registry w) fd = Some r" "creg_inv r" "cr_sem r = 1"
      "mset (fds r) = add_mset fd (mset (fds (registry w)))"
    using registry_ops [OF assms(1-3)] assms(4) by auto
  obtain t where "service_loop store_put store_get n fd tp (packet_create 0 0) TRANS_PENDING
      (w\<lparr>registry := r, ds := ds w\<lparr>tms := t\<rparr>\<rparr>) = Ok w'"
    using assms(5) r(1) by (auto simp: xacto_client_service_def Let_def split: sres.splits prod.splits)
  from service_loop_end [OF this]
  have e: "creg_unregister r fd = Some (registry w')" "status (tms (ds w')) tp \<noteq> TRANS_PENDING" by simp_all
  then have i: "creg_inv (registry w')" "cr_sem (registry w') = 1" "mset (fds (registry w')) = mset (fds r) - {#fd#}"
    using registry_ops [OF r(2,3) assms(3)] by auto
  then have m: "mset (fds (registry w')) = mset (fds (registry w))" using r(4) by simp
  then have "length (fds (registry w')) = length (fds (registry w))" by (metis size_mset)
  then show ?thesis using e(2) i(1,2) m assms(1) by (simp add: creg_inv_def)
qed


subsection \<open>Properties of the service\<close>

text \<open>A store that accepts everything and knows nothing, and a world with one silent client.\<close>

definition null_put :: "unit put_fn" where
  "null_put tp k b x = (TRANS_PENDING, x)"

definition null_get :: "unit get_fn" where
  "null_get tp k x = (TRANS_PENDING, None, x)"

lemma null_store_ok: "store_ok null_put null_get"
  by (simp add: store_ok_def null_put_def null_get_def)

definition demo_world :: "u8 list \<Rightarrow> unit world" where
  "demo_world bs = \<lparr>ds = \<lparr>tms = tman_empty, blobs = Map.empty, nblobs = 0, versions = Map.empty, nversions = 0\<rparr>,
     cn = \<lparr>rx = (case bs of [] \<Rightarrow> [] | c # cs \<Rightarrow> [Chunk c cs]), tx = [], wx = []\<rparr>, registry = creg_init,
     sto = (), clock = \<lambda>_. (0, 0), ticks = 0\<rparr>"

lemma demo_service: "\<exists>tp w'. xacto_client_service null_put null_get 1 7 (demo_world []) = Ok (tp, w')"
proof -
  let ?w = "demo_world []"
  obtain r where r: "creg_register creg_init 7 = Some r" "creg_inv r" "cr_sem r = 1"
    using registry_ops [OF creg_init_inv(1,3), of 7] by auto
  obtain r2 where r2: "creg_unregister r 7 = Some r2" using registry_ops [OF r(2,3), of 7] by auto
  obtain tp t where c: "trans_create tman_empty = (tp, t)" by fastforce
  note i = trans_create_inv [OF tman_empty_inv(1) c]
  obtain t2 where t2: "trans_abort tp t = Ret t2"
    using i(2-6) tman_empty_inv(2) by (auto simp: trans_abort_def trans_get_status_def P_def Let_def)
  have "rio_readn 16 [] [] = (0, [], [])" by (subst rio_readn.simps) simp
  then have recv: "\<exists>q c. proto_recv_packet (Some (packet_create 0 0)) False (cn ?w) = Inr (- 1, Some q, None, c)"
    using less_size_t_16 [of 0] by (simp add: proto_recv_packet_def demo_world_def Let_def)
  have w: "registry ?w = creg_init" "tms (ds ?w) = tman_empty" by (simp_all add: demo_world_def)
  obtain w' where s: "xacto_client_service null_put null_get 1 7 ?w = Ok (tp, w')"
    using recv by (auto simp: xacto_client_service_def w r(1) c Let_def abort_trans_def t2 unregister_def r2)
  then show ?thesis by blast
qed



text \<open>A service thread that returns has cleaned up: its transaction has left the pending state, and
  the client registry is as it was before the client came (it had room for the client).\<close>

theorem service_cleans_up:
  assumes "creg_inv (registry w)" "cr_sem (registry w) = 1" "fd \<noteq> - 1" "length (fds (registry w)) < 1024"
    and "xacto_client_service store_put store_get n fd w = Ok (tp, w')"
  shows "status (tms (ds w')) tp \<noteq> TRANS_PENDING \<and> mset (fds (registry w')) = mset (fds (registry w)) \<and>
    clients (registry w') = clients (registry w)"
  using service_end [OF assms] by blast

theorem service_cleans_up_witness:
  "\<exists>tp w'. xacto_client_service null_put null_get 1 7 (demo_world []) = Ok (tp, w') \<and>
     status (tms (ds w')) tp \<noteq> TRANS_PENDING \<and> fds (registry w') = []"
proof -
  obtain tp w' where s: "xacto_client_service null_put null_get 1 7 (demo_world []) = Ok (tp, w')" using demo_service by blast
  have "registry (demo_world []) = creg_init" by (simp add: demo_world_def)
  then show ?thesis using service_cleans_up [OF _ _ _ _ s] s creg_init_inv by auto
qed

text \<open>C40: a client crashes the server by asking for an empty key: the key's blob then has no content,
  and hashing it dereferences NULL.\<close>

theorem empty_key_crashes_server:
  assumes "RErr \<notin> set (rx (cn w))" "stream (rx (cn w)) = wire p @ rest" "p_size p = 0"
  shows "xacto_get store_get tp w = Fault NullPtr"
proof -
  obtain es where "proto_recv_packet (Some (packet_create 0 0)) True (cn w) = Inr (0, Some p, None, (cn w)\<lparr>rx := es\<rparr>)"
    using recv_ok [OF assms(1), of p "[]" rest "packet_create 0 0"] assms(2,3) by auto
  then show ?thesis
    by (simp add: xacto_get_def make_key_def blob_create_def blob_ref_def key_create_def blob_hash_def Let_def)
qed

theorem empty_key_crashes_server_witness:
  "xacto_get null_get 1 (demo_world (wire (packet_create XACTO_DATA_PKT 0))) = Fault NullPtr"
  by (rule empty_key_crashes_server [of _ "packet_create XACTO_DATA_PKT 0" "[]"])
     (simp_all add: demo_world_def packet_create_def wire_def)

lemma send_header:
  assumes "WErr \<notin> set (wx c)"
  shows "\<exists>w. proto_send_packet (Some q) None c = Inr (0, Some (net_order q), c\<lparr>wx := w, tx := tx c @ wire q\<rparr>) \<and>
    WErr \<notin> set w"
    and "0 < sint (p_size q) \<Longrightarrow> length d < nat (sint (p_size q)) \<Longrightarrow>
      proto_send_packet (Some q) (Some d) c = Inl Overrun"
proof -
  obtain w1 where w1: "rio_writen (wire q) (wx c) (tx c) = (16, w1, tx c @ wire q)" "WErr \<notin> set w1"
    using rio_writen_ok [OF assms, of "wire q" "tx c"] by auto
  have no: "q\<lparr>p_size := htonl (p_size q), p_sec := htonl (p_sec q), p_nsec := htonl (p_nsec q)\<rparr> = net_order q"
    by (simp add: net_order_def)
  have l: "\<not> less_size_t 16 16" using less_size_t_16 [of 16] by simp
  show "\<exists>w. proto_send_packet (Some q) None c = Inr (0, Some (net_order q), c\<lparr>wx := w, tx := tx c @ wire q\<rparr>) \<and>
    WErr \<notin> set w"
    using w1 l by (auto simp: proto_send_packet_def Let_def no pkt_bytes_net_order)
  show "0 < sint (p_size q) \<Longrightarrow> length d < nat (sint (p_size q)) \<Longrightarrow>
      proto_send_packet (Some q) (Some d) c = Inl Overrun"
    using w1 l by (auto simp: proto_send_packet_def Let_def no pkt_bytes_net_order)
qed

lemma takeWhile_NUL: "NUL \<notin> set ys \<Longrightarrow> takeWhile (\<lambda>c. c \<noteq> NUL) (ys @ NUL # zs) = ys"
  by (induction ys) auto

lemma strndup_cut:
  assumes "unat n \<le> length cs" "NUL \<in> set (take (unat n - 1) cs)"
  shows "length (str_bytes (strndup cs (unat n))) < unat n"
proof -
  obtain ys zs where yz: "take (unat n - 1) cs = ys @ NUL # zs" "NUL \<notin> set ys"
    using split_list_first [OF assms(2)] by blast
  have "take (unat n) cs = take (unat n - 1) cs @ drop (unat n - 1) (take (unat n) cs)"
    by (metis append_take_drop_id diff_le_self min.absorb1 take_take)
  then have "strndup cs (unat n) = takeWhile (\<lambda>c. c \<noteq> NUL) (ys @ NUL # zs @ drop (unat n - 1) (take (unat n) cs))"
    using yz(1) by (simp add: strndup_def)
  then have "strndup cs (unat n) = ys" using takeWhile_NUL [OF yz(2)] by metis
  moreover have "length ys + 1 \<le> unat n - 1"
    using arg_cong [OF yz(1), of length] assms(1) by simp
  ultimately show ?thesis by (simp add: str_bytes_def)
qed

text \<open>Answering a GET for a value with a NUL inside reads past the stored copy: \<open>blob_create\<close> keeps
  only the bytes before the NUL but records the full size, and \<open>xacto_reply\<close> sends as many bytes as
  the size says.\<close>

theorem reply_overruns_value:
  assumes "blob_create (Some cs) n d = Inr (p, d')" "unat n \<le> length cs" "unat n < 2 ^ 31"
    and "NUL \<in> set (take (unat n - 1) cs)"
    and "ds w = d'" "WErr \<notin> set (wx (cn w))"
  shows "xacto_reply XACTO_GET_PKT st (Some p) w = Fault Overrun"
proof -
  have b: "blobs d' p = Some \<lparr>b_refcnt = 1, b_size = n, b_content = Some (strndup cs (unat n)),
      b_prefix = Some (strndup cs (unat n))\<rparr>"
    using blob_create_fields(4) [OF assms(1)] by simp
  have "unat (ucast n :: u32) = unat n" using assms(3) by (simp add: unsigned_ucast_eq take_bit_nat_eq_self)
  then have n: "sint (ucast n :: u32) = int (unat n)" using assms(3) by (metis sint_of_nat_small word_eq_of_nat)
  have short: "length (str_bytes (strndup cs (unat n))) < nat (sint (ucast n :: u32))" "0 < sint (ucast n :: u32)"
    using strndup_cut [OF assms(2,4)] unfolding n by linarith+
  obtain r w1 where 1: "set_pkt_time (packet_create XACTO_REPLY_PKT (status_code st)) w = (r, w1)" by fastforce
  have w1: "ds w1 = d'" "cn w1 = cn w" using 1 assms(5) by (auto simp: set_pkt_time_def split: prod.splits)
  obtain x where x: "proto_send_packet (Some r) None (cn w) = Inr (0, Some (net_order r), (cn w)\<lparr>wx := x, tx := tx (cn w) @ wire r\<rparr>)"
      "WErr \<notin> set x"
    using send_header(1) [OF assms(6)] by blast
  let ?w = "w1\<lparr>cn := (cn w)\<lparr>wx := x, tx := tx (cn w) @ wire r\<rparr>\<rparr>"
  obtain r2 w2 where 2: "set_pkt_time ((net_order r)\<lparr>p_type := XACTO_DATA_PKT\<rparr>) ?w = (r2, w2)" by fastforce
  have w2: "ds w2 = d'" "WErr \<notin> set (wx (cn w2))"
    using 2 w1 x(2) by (auto simp: set_pkt_time_def split: prod.splits)
  have "proto_send_packet (Some (r2\<lparr>p_size := ucast n\<rparr>)) (Some (str_bytes (strndup cs (unat n)))) (cn w2) = Inl Overrun"
    using send_header(2) [OF w2(2), of "r2\<lparr>p_size := ucast n\<rparr>"] short by simp
  then show ?thesis
    by (simp add: xacto_reply_def 1 2 x(1) w1(2) w2(1) b Let_def)
qed

theorem reply_overruns_value_witness:
  "\<exists>p d'. blob_create (Some [CHR ''a'', NUL, CHR ''b'', CHR ''c'']) 4 (ds (demo_world [])) = Inr (p, d') \<and>
     xacto_reply XACTO_GET_PKT TRANS_PENDING (Some p) ((demo_world [])\<lparr>ds := d'\<rparr>) = Fault Overrun"
proof -
  obtain p d' where b: "blob_create (Some [CHR ''a'', NUL, CHR ''b'', CHR ''c'']) 4 (ds (demo_world [])) = Inr (p, d')"
    using blob_create_ok by blast
  then show ?thesis
    using reply_overruns_value [OF b, of "(demo_world [])\<lparr>ds := d'\<rparr>" TRANS_PENDING]
    by (simp add: demo_world_def)
qed

end
