(* ===== verification/Server_Main.thy ===== *)
theory Server_Main
  imports Server_Service
begin

section \<open>Server store: main and shutdown\<close>

text \<open>
  \<open>Server Store/src/main.c\<close>. The local \<open>port\<close> of \<open>main\<close> has an indeterminate value unless \<open>-p\<close> sets it: it
  is the argument \<open>garbage\<close>. The clients that \<open>Accept\<close> returns are a list of descriptors with their
  connections; the model runs the schedule in which the thread of a client ends before the next
  client comes. \<open>SIGHUP\<close> then runs \<open>terminate\<close>. The functions of the store are arguments.
\<close>

fun getFlag_loop :: "string \<Rightarrow> int \<Rightarrow> string list \<Rightarrow> int" where
  "getFlag_loop flag i [] = -1"
| "getFlag_loop flag i (a # as) = (if flag = a then i else getFlag_loop flag (i + 1) as)"

definition getFlag :: "string \<Rightarrow> string list \<Rightarrow> int" where
  "getFlag flag argv = getFlag_loop flag 0 argv"

definition port :: "string option \<Rightarrow> string list \<Rightarrow> string option" where
  "port garbage argv =
     (let portIndex = getFlag ''-p'' argv
      in if portIndex > 0 \<and> portIndex < int (length argv) - 1 then Some (argv ! nat (portIndex + 1)) else garbage)"

text \<open>\<open>main\<close> up to its loop: the state before the first client, and \<open>None\<close> when it exits.\<close>

definition server_init :: "'st \<Rightarrow> (nat \<Rightarrow> u32 \<times> u32) \<Rightarrow> string option \<Rightarrow> string list \<Rightarrow> 'st world option" where
  "server_init store_init time garbage argv =
     (case port garbage argv of None \<Rightarrow> None
      | Some _ \<Rightarrow>
          Some \<lparr>ds = \<lparr>tms = tman_empty, blobs = Map.empty, nblobs = 0, versions = Map.empty, nversions = 0\<rparr>,
            cn = \<lparr>rx = [], tx = [], wx = []\<rparr>, registry = creg_init, sto = store_init, clock = time, ticks = 0\<rparr>)"

text \<open>The loop of \<open>main\<close>; a client is given the rounds that are enough for the bytes it sends.\<close>

fun accept_loop :: "'st put_fn \<Rightarrow> 'st get_fn \<Rightarrow> (int \<times> conn) list \<Rightarrow> 'st world \<Rightarrow> 'st world sres" where
  "accept_loop store_put store_get [] w = Ok w"
| "accept_loop store_put store_get ((connfd, c) # cs) w =
     (case xacto_client_service store_put store_get (length (stream (rx c)) div 16 + 1) connfd (w\<lparr>cn := c\<rparr>) of
        Ok (_, w) \<Rightarrow> accept_loop store_put store_get cs w
      | Fault f \<Rightarrow> Fault f | ExitFail \<Rightarrow> ExitFail | Block \<Rightarrow> Block | OutOfFuel \<Rightarrow> OutOfFuel)"

text \<open>
  \<open>Ok\<close> is \<open>exit(EXIT_SUCCESS)\<close>. With a client registered, and no thread left that could unregister it,
  \<open>creg_wait_for_empty\<close> spins for ever.
\<close>

definition terminate :: "('st \<Rightarrow> 'st) \<Rightarrow> 'st world \<Rightarrow> 'st world sres" where
  "terminate store_fini w =
     (case creg_shutdown_all (registry w) of None \<Rightarrow> Block
      | Some (_, r) \<Rightarrow>
          (case creg_wait_round r of
             None \<Rightarrow> Block
           | Some (False, _) \<Rightarrow> Block
           | Some (True, r) \<Rightarrow>
               (case trans_fini (tms (ds w)) of
                  Ret t \<Rightarrow> Ok (w\<lparr>registry := r, ds := ds w\<lparr>tms := t\<rparr>, sto := store_fini (sto w)\<rparr>)
                | Exit \<Rightarrow> ExitFail | Blocked \<Rightarrow> Block | Fuel \<Rightarrow> OutOfFuel)))"

subsection \<open>Shutdown once every transaction has ended\<close>

lemma trans_abort_ended:
  "status s tp = TRANS_ABORTED \<Longrightarrow> trans_abort tp s = Ret s"
  "status s tp = TRANS_COMMITTED \<Longrightarrow> trans_abort tp s = Exit"
  by (simp_all add: trans_abort_def trans_get_status_def)

lemma fini_loop_ended:
  assumes "tl.rep s 0 [1..<ntrans s + 1]" "\<forall>p\<in>{1..ntrans s}. status s p \<noteq> TRANS_PENDING"
  shows "1 \<le> tp \<Longrightarrow> tp \<le> ntrans s + 1 \<Longrightarrow> ntrans s + 1 - tp < k \<Longrightarrow>
    fini_loop k (if tp \<le> ntrans s then tp else 0) s =
      (if \<exists>p\<in>{tp..ntrans s}. status s p = TRANS_COMMITTED then Exit else Ret s)"
proof (induction k arbitrary: tp)
  case (Suc k)
  show ?case
  proof (cases "tp \<le> ntrans s")
    case True
    have split: "(\<exists>p\<in>{tp..ntrans s}. Q p) \<longleftrightarrow> Q tp \<or> (\<exists>p\<in>{tp + 1..ntrans s}. Q p)" for Q
      using True by (metis Suc_eq_plus1 atLeastAtMost_insertL insert_iff)
    have "trans_list_next s tp = (if tp + 1 \<le> ntrans s then tp + 1 else 0)"
      using trans_next [OF assms(1) Suc.prems(1) True] by simp
    moreover have "status s tp = TRANS_ABORTED \<or> status s tp = TRANS_COMMITTED"
      using assms(2) True Suc.prems(1) by (metis TRANS_STATUS.exhaust atLeastAtMost_iff)
    moreover have "fini_loop k (if tp + 1 \<le> ntrans s then tp + 1 else 0) s =
        (if \<exists>p\<in>{tp + 1..ntrans s}. status s p = TRANS_COMMITTED then Exit else Ret s)"
      by (rule Suc.IH) (use Suc.prems True in auto)
    ultimately show ?thesis
      unfolding split using Suc.prems(1) True trans_abort_ended [of s tp] by (elim disjE) simp_all
  qed simp
qed simp

lemma trans_fini_ended:
  assumes "tman_inv s" "\<forall>p\<in>{1..ntrans s}. status s p \<noteq> TRANS_PENDING"
  shows "trans_fini s = (if \<exists>p\<in>{1..ntrans s}. status s p = TRANS_COMMITTED then Exit else Ret s)"
proof -
  have r: "tl.rep s 0 [1..<ntrans s + 1]" using assms(1) by (simp add: tman_inv_def)
  have "trans_list_next s 0 = (if 1 \<le> ntrans s then 1 else 0)"
    using tl.rep_first [OF r] by (cases "ntrans s") (simp_all add: upt_conv_Cons del: upt_Suc)
  then show ?thesis unfolding trans_fini_def using fini_loop_ended [OF r assms(2), of 1 "ntrans s + 1"] by simp
qed

subsection \<open>Ended transactions stay ended\<close>

definition settled :: "tman \<Rightarrow> tman \<Rightarrow> bool" where
  "settled s s' \<longleftrightarrow> ntrans s' = ntrans s \<and> (\<forall>p. status s p \<noteq> TRANS_PENDING \<longrightarrow> status s' p \<noteq> TRANS_PENDING)"

text \<open>What the server relies on: the store makes no transaction, and none pending again.\<close>

definition store_settles :: "'st put_fn \<Rightarrow> 'st get_fn \<Rightarrow> bool" where
  "store_settles store_put store_get \<longleftrightarrow>
     (\<forall>tp k b d s st d' s'. store_put tp k b (d, s) = (st, d', s') \<longrightarrow> settled (tms d) (tms d')) \<and>
     (\<forall>tp k d s st v d' s'. store_get tp k (d, s) = (st, v, d', s') \<longrightarrow> settled (tms d) (tms d'))"

lemma settled_refl [simp]: "settled s s"
  and settled_trans: "settled a b \<Longrightarrow> settled b c \<Longrightarrow> settled a c"
  by (auto simp: settled_def)

lemma settled_abort: "trans_abort tp s = Ret s' \<Longrightarrow> settled s s' \<and> tman_inv s' = tman_inv s"
proof -
  assume "trans_abort tp s = Ret s'"
  then have a: "aborted {tp} s s'" by (rule trans_abort_aborted)
  have "status s' p = status s p" if "status s p \<noteq> TRANS_PENDING" for p using abortedD(6) [OF a] that by blast
  then show ?thesis using abortedD(1) [OF a] aborted_tman_inv [OF a] by (simp add: settled_def)
qed

lemma settled_commit:
  assumes "trans_commit tp s = Ret (st, s')"
  shows "settled s s'"
proof -
  obtain s1 where s1: "commit_begin tp s = Some (Done st, s1)" "s' = commit_end tp st s1"
    using assms by (auto simp: trans_commit_def commit_end_fields Let_def split: option.splits commit_state.splits)
  then show ?thesis
    using same_depsD(1,2) [OF commit_begin_fields(1) [OF s1(1)]] trans_commit_status(2) [OF assms]
    by (simp add: settled_def commit_end_fields)
qed

lemma settled_handle:
  assumes "store_settles store_put store_get" "handle store_put store_get tp ty st w = Ok (st', v, w')"
  shows "settled (tms (ds w)) (tms (ds w'))"
proof -
  consider (put) "xacto_put store_put tp w = Ok (st', w')" | (get) "xacto_get store_get tp w = Ok (st', v, w')"
    | (commit) "xacto_commit tp w = Ok (st', w')" | "w' = w"
    using assms(2) by (auto simp: handle_def split: if_splits sres.splits prod.splits)
  then show ?thesis
  proof cases
    case put
    then show ?thesis using xacto_put_calls [OF put] assms(1) unfolding store_settles_def by (metis settled_refl)
  next
    case get
    then show ?thesis using xacto_get_calls [OF get] assms(1) unfolding store_settles_def by (metis settled_refl)
  next
    case commit
    then show ?thesis using settled_commit by (fastforce simp: xacto_commit_def split: tres.splits)
  qed simp
qed

lemma settled_abort_trans:
  "abort_trans tp w = Ok w' \<Longrightarrow> settled (tms (ds w)) (tms (ds w')) \<and> tman_inv (tms (ds w')) = tman_inv (tms (ds w))"
  using settled_abort by (auto simp: abort_trans_def split: tres.splits)

lemma service_loop_settled:
  assumes "store_ok store_put store_get" "store_settles store_put store_get"
  shows "service_loop store_put store_get n fd tp pkt st w = Ok w' \<Longrightarrow> tman_inv (tms (ds w)) \<Longrightarrow>
    settled (tms (ds w)) (tms (ds w')) \<and> tman_inv (tms (ds w'))"
proof (induction n arbitrary: pkt st w)
  case (Suc n)
  obtain r q d c where x: "proto_recv_packet (Some pkt) False (cn w) = Inr (r, q, d, c)"
    using Suc.prems by (auto split: sum.splits)
  let ?w = "w\<lparr>cn := c\<rparr>"
  show ?case
  proof (cases "r < 0")
    case True
    then obtain w1 where "abort_trans tp ?w = Ok w1" "unregister fd w1 = Ok w'"
      using Suc.prems x by (auto simp: Let_def split: sres.splits)
    then show ?thesis using settled_abort_trans [of tp ?w w1] unregister_ds [of fd w1 w'] Suc.prems(2) by simp
  next
    case False
    then obtain st1 v w1 where h: "handle store_put store_get tp (p_type (the q)) st ?w = Ok (st1, v, w1)"
      using Suc.prems x by (auto simp: Let_def split: sres.splits)
    then obtain w2 where w2: "xacto_reply (p_type (the q)) st1 v w1 = Ok w2"
      using Suc.prems x False by (auto simp: Let_def split: sres.splits)
    have k: "settled (tms (ds w)) (tms (ds w2))" "tman_inv (tms (ds w2))"
      using settled_handle [OF assms(2) h] handle_tman [OF assms(1) _ h] reply_keeps(1) [OF w2] Suc.prems(2) by simp_all
    show ?thesis
    proof (cases "p_type (the q) = XACTO_COMMIT_PKT \<or> st1 = TRANS_ABORTED")
      case True
      then obtain w3 where w3: "unregister fd w2 = Ok w3"
          "(if st1 = TRANS_ABORTED then abort_trans tp w3 else Ok w3) = Ok w'"
        using Suc.prems x False h w2 by (auto simp: Let_def split: sres.splits)
      then show ?thesis
        using settled_abort_trans [of tp w3 w'] unregister_ds [OF w3(1)] k settled_trans by (auto split: if_splits)
    next
      case go: False
      then have "service_loop store_put store_get n fd tp (the q) st1 w2 = Ok w'"
        using Suc.prems x False h w2 by (simp add: Let_def)
      then show ?thesis using Suc.IH k settled_trans by blast
    qed
  qed
qed simp

subsection \<open>The state between clients\<close>

text \<open>No client is registered and no transaction is pending.\<close>

definition quiet :: "'st world \<Rightarrow> bool" where
  "quiet w \<longleftrightarrow> creg_inv (registry w) \<and> cr_sem (registry w) = 1 \<and> fds (registry w) = [] \<and>
     tman_inv (tms (ds w)) \<and> (\<forall>p\<in>{1..ntrans (tms (ds w))}. status (tms (ds w)) p \<noteq> TRANS_PENDING)"

lemma service_quiet:
  assumes ok: "store_ok store_put store_get" "store_settles store_put store_get" and q: "quiet w" and fd: "fd \<noteq> - 1"
    and s: "xacto_client_service store_put store_get n fd w = Ok (tp, w')"
  shows "quiet w'"
proof -
  obtain r t where t: "trans_create (tms (ds w)) = (tp, t)"
      "service_loop store_put store_get n fd tp (packet_create 0 0) TRANS_PENDING (w\<lparr>registry := r, ds := ds w\<lparr>tms := t\<rparr>\<rparr>) = Ok w'"
    using s by (auto simp: xacto_client_service_def Let_def split: option.splits sres.splits prod.splits)
  have inv: "tman_inv (tms (ds w))" using q by (simp add: quiet_def)
  note c = trans_create_inv [OF inv t(1)]
  have l: "settled t (tms (ds w'))" "tman_inv (tms (ds w'))" using service_loop_settled [OF ok t(2)] c(1) by simp_all
  have e: "status (tms (ds w')) tp \<noteq> TRANS_PENDING" "fds (registry w') = []" "creg_inv (registry w')" "cr_sem (registry w') = 1"
    using service_end [OF _ _ fd _ s] q by (auto simp: quiet_def)
  have "status (tms (ds w')) p \<noteq> TRANS_PENDING" if "p \<in> {1..ntrans (tms (ds w'))}" for p
  proof (cases "p = tp")
    case False
    then have "p \<in> {1..ntrans (tms (ds w))}" using that l(1) c(2,3) by (auto simp: settled_def)
    then have "status t p \<noteq> TRANS_PENDING" using q c(8) [OF False] by (simp add: quiet_def)
    then show ?thesis using l(1) by (simp add: settled_def)
  qed (use e(1) in simp)
  then show ?thesis using e l(2) by (simp add: quiet_def)
qed

lemma accept_loop_quiet:
  assumes "store_ok store_put store_get" "store_settles store_put store_get"
  shows "accept_loop store_put store_get cs w = Ok w' \<Longrightarrow> \<forall>(fd, c)\<in>set cs. fd \<noteq> - 1 \<Longrightarrow> quiet w \<Longrightarrow> quiet w'"
proof (induction cs arbitrary: w)
  case (Cons a cs)
  obtain fd c where a: "a = (fd, c)" by force
  obtain tp w1 where w1: "xacto_client_service store_put store_get (length (stream (rx c)) div 16 + 1) fd (w\<lparr>cn := c\<rparr>) = Ok (tp, w1)"
    "accept_loop store_put store_get cs w1 = Ok w'"
    using Cons.prems(1) unfolding a by (auto split: sres.splits)
  have "quiet (w\<lparr>cn := c\<rparr>)" using Cons.prems(3) by (simp add: quiet_def)
  then have "quiet w1" using service_quiet [OF assms _ _ w1(1)] Cons.prems(2) a by simp
  then show ?case using Cons.IH [OF w1(2)] Cons.prems(2) by simp
qed simp

lemma server_init_quiet: "server_init st time garbage argv = Some w \<Longrightarrow> quiet w"
  using creg_init_inv tman_empty_inv by (auto simp: server_init_def quiet_def split: option.splits)

lemma terminate_quiet:
  assumes "quiet w"
  shows "terminate fini w =
    (if \<exists>p\<in>{1..ntrans (tms (ds w))}. status (tms (ds w)) p = TRANS_COMMITTED then ExitFail
     else Ok (w\<lparr>sto := fini (sto w)\<rparr>))"
proof -
  have "clients (registry w) = 0" using assms by (simp add: quiet_def creg_inv_def)
  moreover have "trans_fini (tms (ds w)) =
      (if \<exists>p\<in>{1..ntrans (tms (ds w))}. status (tms (ds w)) p = TRANS_COMMITTED then Exit else Ret (tms (ds w)))"
    using assms by (intro trans_fini_ended) (simp_all add: quiet_def)
  moreover have "(registry w)\<lparr>cr_sem := Suc 0\<rparr> = registry w" using assms by (simp add: quiet_def)
  ultimately show ?thesis
    using assms by (simp add: terminate_def creg_shutdown_all_def creg_wait_round_def P_def V_def quiet_def)
qed

subsection \<open>Properties\<close>

text \<open>When the clients of the server have come and gone, the registry is empty and no transaction is
  pending, so a SIGHUP is not kept waiting; the server then exits with success exactly when no
  client has ever committed, and with failure otherwise.\<close>

theorem server_shutdown:
  assumes "store_ok store_put store_get" "store_settles store_put store_get"
    and "server_init st time garbage argv = Some w0" "accept_loop store_put store_get cs w0 = Ok w"
    and "\<forall>(fd, c)\<in>set cs. fd \<noteq> - 1"
  shows "fds (registry w) = [] \<and> (\<forall>p\<in>{1..ntrans (tms (ds w))}. status (tms (ds w)) p \<noteq> TRANS_PENDING) \<and>
    terminate store_fini w =
      (if \<exists>p\<in>{1..ntrans (tms (ds w))}. status (tms (ds w)) p = TRANS_COMMITTED then ExitFail
       else Ok (w\<lparr>sto := store_fini (sto w)\<rparr>))"
proof -
  have "quiet w" using accept_loop_quiet [OF assms(1,2,4,5)] server_init_quiet [OF assms(3)] .
  then show ?thesis using terminate_quiet [of w store_fini] unfolding quiet_def by blast
qed

lemma null_store_settles: "store_settles null_put null_get"
  by (simp add: store_settles_def null_put_def null_get_def)

text \<open>One client that connects and leaves: the server then shuts down with success.\<close>

theorem server_shutdown_witness:
  "\<exists>w0 w. server_init () (\<lambda>_. (0, 0)) None [''xacto'', ''-p'', ''9999''] = Some w0 \<and>
     accept_loop null_put null_get [(7, \<lparr>rx = [], tx = [], wx = []\<rparr>)] w0 = Ok w \<and> fds (registry w) = [] \<and>
     terminate id w = (if \<exists>p\<in>{1..ntrans (tms (ds w))}. status (tms (ds w)) p = TRANS_COMMITTED then ExitFail else Ok w)"
proof -
  have i: "server_init () (\<lambda>_. (0, 0)) None [''xacto'', ''-p'', ''9999''] = Some (demo_world [])"
    by (simp add: server_init_def port_def getFlag_def demo_world_def Let_def)
  obtain tp w where s: "xacto_client_service null_put null_get 1 7 (demo_world []) = Ok (tp, w)" using demo_service by blast
  have "(demo_world [])\<lparr>cn := \<lparr>rx = [], tx = [], wx = []\<rparr>\<rparr> = demo_world []" by (simp add: demo_world_def)
  then have a: "accept_loop null_put null_get [(7, \<lparr>rx = [], tx = [], wx = []\<rparr>)] (demo_world []) = Ok w"
    using s by simp
  show ?thesis
    using server_shutdown [OF null_store_ok null_store_settles i a, of id] i a by simp
qed

end
