(* ===== verification/Server_Threads.thy ===== *)
theory Server_Threads
  imports Server_Main
begin

section \<open>Server store: the threads of all clients\<close>

text \<open>
  \<open>main\<close> starts a thread per client, and the threads run together. Here a thread is where it is in
  \<open>xacto_client_service\<close>: before the next \<open>proto_recv_packet\<close>, waiting inside \<open>trans_commit\<close>, or returned. A
  step of the server accepts a client or runs one thread for a round of its loop; \<open>trans_commit\<close> is cut
  where it waits for a dependency. Rounds are interleaved in any order, so what is proved holds for
  every schedule of whole rounds; the interleavings inside the operations are those of
  \<open>Server_Registry\<close> and \<open>Server_Trans\<close>. No descriptor of a client is ever closed, so \<open>accept\<close> never returns one
  twice. A fault or an exit of one thread ends the process and is no step.
\<close>

datatype sv_pc = Reading XACTO_PACKET TRANS_STATUS | Committing XACTO_PACKET nat "nat list" TRANS_STATUS | Gone

record sv_thread =
  sv_fd :: int
  sv_cn :: conn
  sv_tp :: nat
  sv_at :: sv_pc

record 'st server =
  wld :: "'st world"
  threads :: "sv_thread list"

fun bind_sres :: "'a sres \<Rightarrow> ('a \<Rightarrow> 'b sres) \<Rightarrow> 'b sres" where
  "bind_sres (Ok x) f = f x"
| "bind_sres (Fault e) f = Fault e"
| "bind_sres ExitFail f = ExitFail"
| "bind_sres Block f = Block"
| "bind_sres OutOfFuel f = OutOfFuel"

abbreviation set_tms :: "tman \<Rightarrow> 'st world \<Rightarrow> 'st world" where
  "set_tms t w \<equiv> w\<lparr>ds := ds w\<lparr>tms := t\<rparr>\<rparr>"

text \<open>The end of a round: the reply, and the return of the thread after a commit or an abort.\<close>

definition end_round ::
    "int \<Rightarrow> nat \<Rightarrow> XACTO_PACKET \<Rightarrow> TRANS_STATUS \<Rightarrow> nat option \<Rightarrow> 'st world \<Rightarrow> (sv_pc \<times> 'st world) sres" where
  "end_round fd tp pkt st getBlob w =
     bind_sres (xacto_reply (p_type pkt) st getBlob w) (\<lambda>w.
       if p_type pkt = XACTO_COMMIT_PKT \<or> st = TRANS_ABORTED then
         bind_sres (unregister fd w) (\<lambda>w.
           bind_sres (if st = TRANS_ABORTED then abort_trans tp w else Ok w) (\<lambda>w. Ok (Gone, w)))
       else Ok (Reading pkt st, w))"

definition commit_round ::
    "int \<Rightarrow> nat \<Rightarrow> XACTO_PACKET \<Rightarrow> commit_state \<times> tman \<Rightarrow> 'st world \<Rightarrow> (sv_pc \<times> 'st world) sres" where
  "commit_round fd tp pkt x w =
     (case x of
        (Waits d rest st, t) \<Rightarrow> Ok (Committing pkt d rest st, set_tms t w)
      | (Done st, t) \<Rightarrow> end_round fd tp pkt st None (set_tms (commit_end tp st t) w))"

definition thread_round ::
    "'st put_fn \<Rightarrow> 'st get_fn \<Rightarrow> int \<Rightarrow> nat \<Rightarrow> sv_pc \<Rightarrow> 'st world \<Rightarrow> (sv_pc \<times> 'st world) sres" where
  "thread_round store_put store_get fd tp pc w =
     (case pc of
        Reading pkt st \<Rightarrow>
          (case proto_recv_packet (Some pkt) False (cn w) of Inl f \<Rightarrow> Fault f
           | Inr (r, pkt, _, c) \<Rightarrow>
               (let w = w\<lparr>cn := c\<rparr>; pkt = the pkt
                in if r < 0 then bind_sres (abort_trans tp w) (\<lambda>w. bind_sres (unregister fd w) (\<lambda>w. Ok (Gone, w)))
                   else if p_type pkt = XACTO_COMMIT_PKT then
                     (case commit_begin tp (tms (ds w)) of None \<Rightarrow> Block | Some x \<Rightarrow> commit_round fd tp pkt x w)
                   else bind_sres (handle store_put store_get tp (p_type pkt) st w)
                     (\<lambda>(st, getBlob, w). end_round fd tp pkt st getBlob w)))
      | Committing pkt d rest st \<Rightarrow> commit_round fd tp pkt (commit_wake d rest st (tms (ds w))) w
      | Gone \<Rightarrow> Block)"

definition run_thread :: "'st put_fn \<Rightarrow> 'st get_fn \<Rightarrow> nat \<Rightarrow> 'st server \<Rightarrow> 'st server sres" where
  "run_thread store_put store_get i s =
     (let t = threads s ! i
      in bind_sres (thread_round store_put store_get (sv_fd t) (sv_tp t) (sv_at t) ((wld s)\<lparr>cn := sv_cn t\<rparr>)) (\<lambda>(pc, w).
           Ok \<lparr>wld = w, threads = (threads s)[i := t\<lparr>sv_at := pc, sv_cn := cn w\<rparr>]\<rparr>))"

text \<open>A new client: the thread runs up to its loop.\<close>

definition accept_client :: "int \<Rightarrow> conn \<Rightarrow> 'st server \<Rightarrow> 'st server sres" where
  "accept_client fd c s =
     (case creg_register (registry (wld s)) fd of None \<Rightarrow> Block
      | Some r \<Rightarrow>
          (let (tp, t) = trans_create (tms (ds (wld s)))
           in Ok \<lparr>wld = set_tms t ((wld s)\<lparr>registry := r\<rparr>),
                threads = threads s @ [\<lparr>sv_fd = fd, sv_cn = c, sv_tp = tp, sv_at = Reading (packet_create 0 0) TRANS_PENDING\<rparr>]\<rparr>))"

inductive server_step :: "'st put_fn \<Rightarrow> 'st get_fn \<Rightarrow> 'st server \<Rightarrow> 'st server \<Rightarrow> bool"
  for store_put store_get where
  accept: "fd \<noteq> - 1 \<Longrightarrow> fd \<notin> sv_fd ` set (threads s) \<Longrightarrow> accept_client fd c s = Ok s' \<Longrightarrow>
    server_step store_put store_get s s'"
| round: "i < length (threads s) \<Longrightarrow> run_thread store_put store_get i s = Ok s' \<Longrightarrow> server_step store_put store_get s s'"

inductive server_reach :: "'st put_fn \<Rightarrow> 'st get_fn \<Rightarrow> 'st world \<Rightarrow> 'st server \<Rightarrow> bool"
  for store_put store_get w0 where
  start: "server_reach store_put store_get w0 \<lparr>wld = w0, threads = []\<rparr>"
| step: "server_reach store_put store_get w0 s \<Longrightarrow> server_step store_put store_get s s' \<Longrightarrow>
    server_reach store_put store_get w0 s'"

inductive_cases server_stepE: "server_step store_put store_get s s'"

subsection \<open>The service thread is its rounds\<close>

lemma bind_sres_Ok: "bind_sres x f = Ok y \<longleftrightarrow> (\<exists>a. x = Ok a \<and> f a = Ok y)"
  by (cases x) simp_all

lemma bind_sres_simps [simp]:
  "bind_sres (bind_sres x f) g = bind_sres x (\<lambda>a. bind_sres (f a) g)" "bind_sres x Ok = x"
  by (cases x; simp)+

lemma handle_commit:
  "handle store_put store_get tp XACTO_COMMIT_PKT st w =
     (case commit_begin tp (tms (ds w)) of None \<Rightarrow> Block
      | Some (Waits d rest st, t) \<Rightarrow> Block
      | Some (Done st, t) \<Rightarrow> Ok (st, None, set_tms (commit_end tp st t) w))"
  by (simp add: handle_def xacto_commit_def trans_commit_def Let_def commit_end_fields
      split: option.splits prod.splits commit_state.splits)

lemma service_loop_rounds:
  "service_loop store_put store_get (Suc n) fd tp pkt st w =
     bind_sres (thread_round store_put store_get fd tp (Reading pkt st) w) (\<lambda>(pc, w).
       case pc of Gone \<Rightarrow> Ok w | Committing _ _ _ _ \<Rightarrow> Block
       | Reading pkt st \<Rightarrow> service_loop store_put store_get n fd tp pkt st w)"
proof (cases "proto_recv_packet (Some pkt) False (cn w)")
  case (Inl f)
  then show ?thesis by (simp add: thread_round_def)
next
  case (Inr y)
  obtain r q e c where y: "y = (r, q, e, c)" by (cases y) auto
  let ?w = "w\<lparr>cn := c\<rparr>"
  consider (eof) "r < 0" | (commit) "\<not> r < 0" "p_type (the q) = XACTO_COMMIT_PKT"
    | (other) "\<not> r < 0" "p_type (the q) \<noteq> XACTO_COMMIT_PKT" by blast
  then show ?thesis
  proof cases
    case eof
    then show ?thesis using Inr y by (cases "abort_trans tp ?w") (auto simp: thread_round_def Let_def)
  next
    case commit
    then show ?thesis
      using Inr y
      by (simp add: thread_round_def Let_def handle_commit commit_round_def end_round_def
          split: option.splits prod.splits commit_state.splits sres.splits)
  next
    case other
    show ?thesis
    proof (cases "handle store_put store_get tp (p_type (the q)) st ?w")
      case (Ok x)
      obtain st1 v w1 where x: "x = (st1, v, w1)" by (cases x) auto
      show ?thesis
        using Inr y other Ok x
        by (cases "xacto_reply (p_type (the q)) st1 v w1")
          (simp_all add: thread_round_def Let_def end_round_def split: sres.splits)
    qed (use Inr y other in \<open>simp_all add: thread_round_def Let_def\<close>)
  qed
qed

subsection \<open>What the server relies on\<close>

text \<open>
  What \<open>store.h\<close> says of the store: for the transaction that performs an operation it adds dependencies
  on transactions with a smaller id, aborts transactions, and holds references to them.
\<close>

inductive store_effect :: "nat \<Rightarrow> tman \<Rightarrow> tman \<Rightarrow> bool" for tp s where
  none: "store_effect tp s s"
| depend: "store_effect tp s t \<Longrightarrow> 1 \<le> d \<Longrightarrow> d < tp \<Longrightarrow> trans_add_dependency tp d t = Ret t' \<Longrightarrow> store_effect tp s t'"
| abort: "store_effect tp s t \<Longrightarrow> trans_abort q t = Ret t' \<Longrightarrow> store_effect tp s t'"
| count: "store_effect tp s t \<Longrightarrow> store_effect tp s (upd q (\<lambda>t. t\<lparr>t_refcnt := r\<rparr>) t)"

definition store_contract :: "'st put_fn \<Rightarrow> 'st get_fn \<Rightarrow> bool" where
  "store_contract store_put store_get \<longleftrightarrow>
     (\<forall>tp k b d s st d' s'. store_put tp k b (d, s) = (st, d', s') \<longrightarrow> store_effect tp (tms d) (tms d')) \<and>
     (\<forall>tp k d s st v d' s'. store_get tp k (d, s) = (st, v, d', s') \<longrightarrow> store_effect tp (tms d) (tms d'))"

lemma null_store_contract: "store_contract null_put null_get"
  by (simp add: store_contract_def null_put_def null_get_def store_effect.none)

subsection \<open>What a round does to the transactions\<close>

inductive round_effect :: "nat \<Rightarrow> sv_pc \<Rightarrow> tman \<Rightarrow> sv_pc \<Rightarrow> tman \<Rightarrow> bool" for tp where
  leave: "trans_abort tp t = Ret t' \<Longrightarrow> round_effect tp (Reading p st) t Gone t'"
| serve: "store_effect tp t t' \<Longrightarrow> round_effect tp (Reading p st) t (Reading p' st') t'"
| fail: "store_effect tp t t1 \<Longrightarrow> trans_abort tp t1 = Ret t' \<Longrightarrow> round_effect tp (Reading p st) t Gone t'"
| commit_wait: "commit_begin tp t = Some (Waits d rest st', t') \<Longrightarrow> p_type p' = XACTO_COMMIT_PKT \<Longrightarrow>
    round_effect tp (Reading p st) t (Committing p' d rest st') t'"
| commit_now: "commit_begin tp t = Some (Done st', t1) \<Longrightarrow> round_effect tp (Reading p st) t Gone (commit_end tp st' t1)"
| wake_wait: "commit_wake d rest st t = (Waits d' rest' st', t') \<Longrightarrow>
    round_effect tp (Committing p d rest st) t (Committing p d' rest' st') t'"
| wake_end: "commit_wake d rest st t = (Done st', t1) \<Longrightarrow> p_type p = XACTO_COMMIT_PKT \<Longrightarrow>
    round_effect tp (Committing p d rest st) t Gone (commit_end tp st' t1)"

lemma handle_effect:
  assumes "store_contract store_put store_get" "handle store_put store_get tp ty st w = Ok (st', v, w')" "ty \<noteq> XACTO_COMMIT_PKT"
  shows "store_effect tp (tms (ds w)) (tms (ds w'))"
proof -
  consider (put) "xacto_put store_put tp w = Ok (st', w')" | (get) "xacto_get store_get tp w = Ok (st', v, w')" | "w' = w"
    using assms(2,3) by (auto simp: handle_def split: if_splits sres.splits prod.splits)
  then show ?thesis
  proof cases
    case put
    then show ?thesis using xacto_put_calls [OF put] assms(1) unfolding store_contract_def by (metis store_effect.none)
  next
    case get
    then show ?thesis using xacto_get_calls [OF get] assms(1) unfolding store_contract_def by (metis store_effect.none)
  qed (simp add: store_effect.none)
qed

lemma end_round_cases:
  assumes "end_round fd tp pkt st v w = Ok (pc, w')"
  shows "(pc = Reading pkt st \<and> st \<noteq> TRANS_ABORTED \<and> p_type pkt \<noteq> XACTO_COMMIT_PKT \<and> tms (ds w') = tms (ds w) \<and> registry w' = registry w) \<or>
    (pc = Gone \<and> (st = TRANS_ABORTED \<or> p_type pkt = XACTO_COMMIT_PKT) \<and> creg_unregister (registry w) fd = Some (registry w') \<and>
     (if st = TRANS_ABORTED then trans_abort tp (tms (ds w)) = Ret (tms (ds w')) else tms (ds w') = tms (ds w)))"
proof -
  obtain w1 where w1: "xacto_reply (p_type pkt) st v w = Ok w1"
    "(if p_type pkt = XACTO_COMMIT_PKT \<or> st = TRANS_ABORTED
      then bind_sres (unregister fd w1) (\<lambda>w. bind_sres (if st = TRANS_ABORTED then abort_trans tp w else Ok w) (\<lambda>w. Ok (Gone, w)))
      else Ok (Reading pkt st, w1)) = Ok (pc, w')"
    using assms unfolding end_round_def bind_sres_Ok by blast
  note k = reply_keeps(1,2) [OF w1(1)]
  show ?thesis
  proof (cases "p_type pkt = XACTO_COMMIT_PKT \<or> st = TRANS_ABORTED")
    case False
    then show ?thesis using w1(2) k by simp
  next
    case True
    then obtain w2 where w2: "unregister fd w1 = Ok w2" "pc = Gone" "(if st = TRANS_ABORTED then abort_trans tp w2 else Ok w2) = Ok w'"
      using w1(2) by (auto simp: bind_sres_Ok)
    have "creg_unregister (registry w) fd = Some (registry w2)" "ds w2 = ds w"
      using w2(1) k by (auto simp: unregister_def split: option.splits)
    then show ?thesis
      using w2(2,3) True by (auto simp: abort_trans_def split: if_splits tres.splits)
  qed
qed

lemma commit_round_effect:
  assumes "commit_round fd tp pkt (cs, t) w = Ok (pc, w')" "p_type pkt = XACTO_COMMIT_PKT"
  shows "(\<exists>d rest st. cs = Waits d rest st \<and> pc = Committing pkt d rest st \<and> tms (ds w') = t \<and> registry w' = registry w) \<or>
    (\<exists>st. cs = Done st \<and> pc = Gone \<and> tms (ds w') = commit_end tp st t \<and> creg_unregister (registry w) fd = Some (registry w'))"
proof (cases cs)
  case (Done st)
  then have e: "end_round fd tp pkt st None (set_tms (commit_end tp st t) w) = Ok (pc, w')" using assms(1) by (simp add: commit_round_def)
  have "trans_abort tp (commit_end tp st t) = Ret (commit_end tp st t)" if "st = TRANS_ABORTED"
    using that by (intro trans_abort_ended(1)) (simp add: commit_end_fields)
  then show ?thesis using end_round_cases [OF e] assms(2) Done by (auto split: if_splits)
qed (use assms in \<open>auto simp: commit_round_def\<close>)

definition pc_ok :: "sv_pc \<Rightarrow> bool" where
  "pc_ok pc \<longleftrightarrow> (case pc of Committing p d rest st \<Rightarrow> p_type p = XACTO_COMMIT_PKT \<and> st \<noteq> TRANS_PENDING | _ \<Rightarrow> True)"

lemma thread_round_effect:
  assumes c: "store_contract store_put store_get" and r: "thread_round store_put store_get fd tp pc w = Ok (pc', w')"
    and p: "pc_ok pc"
  shows "round_effect tp pc (tms (ds w)) pc' (tms (ds w')) \<and>
    (if pc' = Gone then creg_unregister (registry w) fd = Some (registry w') else registry w' = registry w)"
proof (cases pc)
  case (Reading pkt st)
  obtain x q e cc where x: "proto_recv_packet (Some pkt) False (cn w) = Inr (x, q, e, cc)"
    using r Reading by (auto simp: thread_round_def split: sum.splits)
  let ?w = "w\<lparr>cn := cc\<rparr>" and ?p = "the q"
  consider (eof) "x < 0" | (commit) "\<not> x < 0" "p_type ?p = XACTO_COMMIT_PKT" | (other) "\<not> x < 0" "p_type ?p \<noteq> XACTO_COMMIT_PKT" by blast
  then show ?thesis
  proof cases
    case eof
    then obtain w1 where "abort_trans tp ?w = Ok w1" "unregister fd w1 = Ok w'" "pc' = Gone"
      using r Reading x by (auto simp: thread_round_def Let_def bind_sres_Ok)
    then show ?thesis
      using Reading by (auto simp: abort_trans_def unregister_def split: tres.splits option.splits intro: round_effect.leave)
  next
    case commit
    then obtain cs t where b: "commit_begin tp (tms (ds w)) = Some (cs, t)" "commit_round fd tp ?p (cs, t) ?w = Ok (pc', w')"
      using r Reading x by (auto simp: thread_round_def Let_def split: option.splits)
    then show ?thesis
      using commit_round_effect [OF b(2) commit(2)] Reading commit(2) by (auto intro: round_effect.intros)
  next
    case other
    then obtain st1 v w1 where h: "handle store_put store_get tp (p_type ?p) st ?w = Ok (st1, v, w1)" "end_round fd tp ?p st1 v w1 = Ok (pc', w')"
      using r Reading x by (auto simp: thread_round_def Let_def bind_sres_Ok)
    have e: "store_effect tp (tms (ds w)) (tms (ds w1))" using handle_effect [OF c h(1) other(2)] by simp
    have g: "registry w1 = registry w" using handle_keeps(1) [OF h(1)] by simp
    show ?thesis using end_round_cases [OF h(2)] e g Reading other(2) by (auto intro: round_effect.intros split: if_splits)
  qed
next
  case (Committing pkt d rest st)
  obtain cs t where k: "commit_wake d rest st (tms (ds w)) = (cs, t)" by force
  have b: "commit_round fd tp pkt (cs, t) w = Ok (pc', w')" using r Committing k by (simp add: thread_round_def)
  have "p_type pkt = XACTO_COMMIT_PKT" using p Committing by (simp add: pc_ok_def)
  then show ?thesis using commit_round_effect [OF b] Committing k by (auto intro: round_effect.intros)
qed (use r in \<open>simp add: thread_round_def\<close>)

subsection \<open>The server is a system of transactions\<close>

text \<open>Where the thread of a transaction is, for the step relation of \<open>Server_Trans\<close>.\<close>

fun pc_of :: "sv_pc \<Rightarrow> thread" where
  "pc_of (Reading _ _) = Running"
| "pc_of (Committing _ d rest st) = Waiting d rest st"
| "pc_of Gone = Ended"

definition th_of :: "sv_pc list \<Rightarrow> nat \<Rightarrow> thread" where
  "th_of ps p = (if 1 \<le> p \<and> p \<le> length ps then pc_of (ps ! (p - 1)) else Ended)"

definition csys_of :: "'st server \<Rightarrow> csys" where
  "csys_of s = \<lparr>tm = tms (ds (wld s)), th = th_of (map sv_at (threads s))\<rparr>"

lemma th_of_update: "i < length ps \<Longrightarrow> th_of (ps[i := pc]) = (th_of ps)(Suc i := pc_of pc)"
  by (rule ext) (auto simp: th_of_def nth_list_update)

lemma th_of_append: "th_of (ps @ [pc]) = (th_of ps)(Suc (length ps) := pc_of pc)"
proof (rule ext)
  fix p
  consider "p = Suc (length ps)" | q where "p = Suc q" "q < length ps" | "p = 0" | "Suc (length ps) < p"
    using less_Suc_eq not_less_eq by (cases p) (simp_all, metis)
  then show "th_of (ps @ [pc]) p = ((th_of ps)(Suc (length ps) := pc_of pc)) p"
    by cases (simp_all add: th_of_def nth_append)
qed

lemma th_of_nth: "i < length ps \<Longrightarrow> th_of ps (Suc i) = pc_of (ps ! i)"
  by (simp add: th_of_def)

lemma store_effect_ntrans: "store_effect tp s t \<Longrightarrow> ntrans t = ntrans s"
  by (induction rule: store_effect.induct)
    (auto simp: add_dependency_fields abortedD(1) [OF trans_abort_aborted])

lemma store_effect_treach:
  "store_effect tp s t \<Longrightarrow> treach \<lparr>tm = s, th = h\<rparr> \<Longrightarrow> h tp = Running \<Longrightarrow> tp \<in> {1..ntrans s} \<Longrightarrow> treach \<lparr>tm = t, th = h\<rparr>"
proof (induction rule: store_effect.induct)
  case (depend t d t')
  have "tp \<in> {1..ntrans t}" "d \<in> {1..ntrans t}" using depend.hyps(1-3) depend.prems(3) store_effect_ntrans by fastforce+
  then show ?case
    using treach.step [OF depend.IH [OF depend.prems] tstep.depend [of "\<lparr>tm = t, th = h\<rparr>" tp d t']] depend.hyps(4) depend.prems(2) by simp
next
  case (abort t q t')
  then show ?case using treach.step [OF abort.IH [OF abort.prems] tstep.abort_other [of q "\<lparr>tm = t, th = h\<rparr>" t']] by simp
next
  case (count t q r)
  then show ?case using treach.step [OF count.IH [OF count.prems] tstep.count [of "\<lparr>tm = t, th = h\<rparr>" q r]] by simp
qed

lemma round_effect_treach:
  assumes "round_effect tp pc t pc' t'" "treach \<lparr>tm = t, th = h\<rparr>" "h tp = pc_of pc" "tp \<in> {1..ntrans t}"
  shows "treach \<lparr>tm = t', th = h(tp := pc_of pc')\<rparr>"
  using assms(1)
proof cases
  case (leave p st)
  then show ?thesis using treach.step [OF assms(2) tstep.abort [of _ tp t']] assms(3,4) by simp
next
  case (serve p st p' st')
  then have "h(tp := pc_of pc') = h" using assms(3) by auto
  then show ?thesis using store_effect_treach [OF serve(3) assms(2)] serve(1) assms(3,4) by simp
next
  case (fail t1 p st)
  have "treach \<lparr>tm = t1, th = h\<rparr>" using store_effect_treach [OF fail(3) assms(2)] fail(1) assms(3,4) by simp
  then show ?thesis
    using treach.step [OF _ tstep.abort [of "\<lparr>tm = t1, th = h\<rparr>" tp t']] fail(1,2,4) assms(3,4) store_effect_ntrans [OF fail(3)] by simp
next
  case (commit_wait d rest st' p' p st)
  then show ?thesis using treach.step [OF assms(2) tstep.commit_wait [of _ tp]] assms(3,4) by simp
next
  case (commit_now st' t1 p st)
  then show ?thesis using treach.step [OF assms(2) tstep.commit_now [of _ tp]] assms(3,4) by simp
next
  case (wake_wait d rest st d' rest' st' p)
  then show ?thesis using treach.step [OF assms(2) tstep.wake_wait [of _ tp]] assms(3,4) by simp
next
  case (wake_end d rest st st' t1 p)
  then show ?thesis using treach.step [OF assms(2) tstep.wake_end [of _ tp]] assms(3,4) by simp
qed

subsection \<open>The invariant of the server\<close>

lemma commit_wake_status:
  "commit_wake d rest st t = (Waits d' rest' st', t') \<Longrightarrow> st \<noteq> TRANS_PENDING \<Longrightarrow> st' \<noteq> TRANS_PENDING"
  "commit_wake d rest st t = (Done st', t') \<Longrightarrow> st \<noteq> TRANS_PENDING \<Longrightarrow> st' \<noteq> TRANS_PENDING"
  by (auto simp: commit_wake_def dest: commit_loop_waits commit_loop_status split: if_splits)

lemma commit_begin_status:
  "commit_begin p t = Some (Waits d rest st, t') \<Longrightarrow> st \<noteq> TRANS_PENDING" "commit_begin p t = Some (Done st, t') \<Longrightarrow> st \<noteq> TRANS_PENDING"
  by (auto simp: commit_begin_def Let_def dest: commit_loop_waits commit_loop_status split: option.splits)

text \<open>Nothing ends twice, only the thread's own transaction gets dependencies, and those are on earlier ones.\<close>

definition round_keeps :: "nat \<Rightarrow> tman \<Rightarrow> tman \<Rightarrow> bool" where
  "round_keeps tp t t' \<longleftrightarrow> settled t t' \<and> (\<forall>p. set (depends t' p) \<subseteq> set (depends t p) \<union> (if p = tp then {1..<tp} else {}))"

lemma round_keeps_same: "same_deps t t' \<Longrightarrow> round_keeps tp t t'"
  by (auto simp: round_keeps_def settled_def same_deps_def)

lemma round_keeps_trans: "round_keeps tp a b \<Longrightarrow> round_keeps tp b c \<Longrightarrow> round_keeps tp a c"
  unfolding round_keeps_def using settled_trans by blast

lemma round_keeps_abort: "trans_abort q t = Ret t' \<Longrightarrow> round_keeps tp t t'"
  using settled_abort abortedD(3) [OF trans_abort_aborted] by (auto simp: round_keeps_def)

lemma round_keeps_end: "st \<noteq> TRANS_PENDING \<Longrightarrow> round_keeps tp t (commit_end p st t)"
  by (auto simp: round_keeps_def settled_def commit_end_fields)

lemma round_keeps_store: "store_effect tp s t \<Longrightarrow> round_keeps tp s t"
proof (induction rule: store_effect.induct)
  case (depend t d t')
  then have "round_keeps tp t t'" by (auto simp: round_keeps_def settled_def add_dependency_fields)
  then show ?case by (rule round_keeps_trans [OF depend.IH])
next
  case (abort t q t')
  then show ?case using round_keeps_abort round_keeps_trans by blast
next
  case (count t q r)
  have "round_keeps tp t (upd q (\<lambda>t. t\<lparr>t_refcnt := r\<rparr>) t)" by (rule round_keeps_same, rule same_deps_upd) simp_all
  then show ?case by (rule round_keeps_trans [OF count.IH])
qed (simp add: round_keeps_def)

lemma round_effect_keeps:
  assumes "round_effect tp pc t pc' t'" "pc_ok pc"
  shows "pc \<noteq> Gone \<and> pc_ok pc' \<and> round_keeps tp t t' \<and> (pc' = Gone \<longrightarrow> status t' tp \<noteq> TRANS_PENDING)"
  using assms(1)
proof cases
  case (leave p st)
  then show ?thesis using round_keeps_abort abortedD(5) [OF trans_abort_aborted [OF leave(3)]] by (simp add: pc_ok_def)
next
  case (serve p st p' st')
  then show ?thesis using round_keeps_store by (simp add: pc_ok_def)
next
  case (fail t1 p st)
  then show ?thesis
    using round_keeps_trans [OF round_keeps_store round_keeps_abort] abortedD(5) [OF trans_abort_aborted [OF fail(4)]] by (simp add: pc_ok_def)
next
  case (commit_wait d rest st' p' p st)
  then show ?thesis using round_keeps_same commit_begin_fields(1) commit_begin_status(1) by (simp add: pc_ok_def)
next
  case (commit_now st' t1 p st)
  then show ?thesis
    using round_keeps_trans [OF round_keeps_same [OF commit_begin_fields(1)] round_keeps_end] commit_begin_status(2)
    by (auto simp: pc_ok_def commit_end_fields)
next
  case (wake_wait d rest st d' rest' st' p)
  then show ?thesis using round_keeps_same commit_wake_fields(1) commit_wake_status(1) assms(2) by (auto simp: pc_ok_def)
next
  case (wake_end d rest st st' t1 p)
  then show ?thesis
    using round_keeps_trans [OF round_keeps_same [OF commit_wake_fields(1)] round_keeps_end] commit_wake_status(2) assms(2)
    by (auto simp: pc_ok_def commit_end_fields)
qed

definition live :: "sv_thread \<Rightarrow> bool" where
  "live t \<longleftrightarrow> sv_at t \<noteq> Gone"

definition server_inv :: "'st server \<Rightarrow> bool" where
  "server_inv s \<longleftrightarrow>
     treach (csys_of s) \<and> ntrans (tms (ds (wld s))) = length (threads s) \<and>
     (\<forall>i<length (threads s). sv_tp (threads s ! i) = Suc i \<and> pc_ok (sv_at (threads s ! i)) \<and> sv_fd (threads s ! i) \<noteq> - 1 \<and>
        (sv_at (threads s ! i) = Gone \<longrightarrow> status (tms (ds (wld s))) (Suc i) \<noteq> TRANS_PENDING)) \<and>
     (\<forall>p\<in>{1..length (threads s)}. set (depends (tms (ds (wld s))) p) \<subseteq> {1..<p}) \<and>
     creg_inv (registry (wld s)) \<and> cr_sem (registry (wld s)) = 1 \<and>
     (length (threads s) \<le> 1024 \<longrightarrow>
        mset (fds (registry (wld s))) = image_mset sv_fd (filter_mset live (mset (threads s))))"

lemma server_start_inv:
  assumes "server_init st time garbage argv = Some w0"
  shows "server_inv \<lparr>wld = w0, threads = []\<rparr>"
proof -
  have w0: "tms (ds w0) = tman_empty" "registry w0 = creg_init" using assms by (auto simp: server_init_def split: option.splits)
  have "th_of [] = (\<lambda>_. Ended)" by (rule ext) (auto simp: th_of_def)
  then have "csys_of \<lparr>wld = w0, threads = []\<rparr> = \<lparr>tm = tman_empty, th = \<lambda>_. Ended\<rparr>" by (simp add: csys_of_def w0)
  then show ?thesis using treach.start creg_init_inv tman_empty_inv by (simp add: server_inv_def w0)
qed

lemma accept_inv:
  assumes s: "server_inv s" and fd: "fd \<noteq> - 1" and a: "accept_client fd c s = Ok s'"
  shows "server_inv s'"
proof -
  let ?T = "tms (ds (wld s))" and ?n = "length (threads s)"
  obtain tp t where t: "trans_create ?T = (tp, t)" by force
  have r0: "creg_inv (registry (wld s))" "cr_sem (registry (wld s)) = 1" using s by (simp_all add: server_inv_def)
  obtain r where r: "creg_register (registry (wld s)) fd = Some r" "creg_inv r" "cr_sem r = 1"
    "mset (fds r) = (if length (fds (registry (wld s))) < 1024 then add_mset fd (mset (fds (registry (wld s)))) else mset (fds (registry (wld s))))"
    using registry_ops [OF r0 fd] by auto
  have inv: "tman_inv ?T" using s commit_inv_reach by (fastforce simp: server_inv_def csys_of_def)
  note f = trans_create_inv [OF inv t]
  have n: "ntrans ?T = ?n" using s by (simp add: server_inv_def)
  have tp: "tp = Suc ?n" using f(2) n by simp
  let ?t = "\<lparr>sv_fd = fd, sv_cn = c, sv_tp = tp, sv_at = Reading (packet_create 0 0) TRANS_PENDING\<rparr>"
  have s': "s' = \<lparr>wld = set_tms t ((wld s)\<lparr>registry := r\<rparr>), threads = threads s @ [?t]\<rparr>"
    using a r(1) t by (simp add: accept_client_def)
  have "treach \<lparr>tm = t, th = (th (csys_of s))(tp := Running)\<rparr>"
    using s treach.step [OF _ tstep.create [of "csys_of s" tp t]] t by (simp add: server_inv_def csys_of_def)
  then have "treach (csys_of s')" using th_of_append [of "map sv_at (threads s)"] by (simp add: csys_of_def s' tp)
  moreover have "set (depends t p) \<subseteq> {1..<p}" if "p \<in> {1..Suc ?n}" for p
    using that s f(5) f(9) [of p] by (cases "p = tp") (auto simp: server_inv_def tp)
  moreover have "mset (fds r) = image_mset sv_fd (filter_mset live (mset (threads s @ [?t])))" if "Suc ?n \<le> 1024"
  proof -
    have m: "mset (fds (registry (wld s))) = image_mset sv_fd (filter_mset live (mset (threads s)))" using s that by (simp add: server_inv_def)
    then have "length (fds (registry (wld s))) = size (filter_mset live (mset (threads s)))" by (metis size_image_mset size_mset)
    also have "\<dots> \<le> ?n" using size_filter_mset_lesseq [of live "mset (threads s)"] by simp
    finally show ?thesis using r(4) m that by (simp add: live_def)
  qed
  moreover have "sv_at ((threads s @ [?t]) ! i) = Gone \<Longrightarrow> status t (Suc i) \<noteq> TRANS_PENDING" if "i < Suc ?n" for i
    using that s f(8) [of "Suc i"] tp by (cases "i = ?n") (auto simp: nth_append server_inv_def)
  ultimately show ?thesis
    using s r(2,3) f(3) n tp fd by (auto simp: server_inv_def s' nth_append pc_ok_def less_Suc_eq)
qed

lemma round_inv:
  assumes s: "server_inv s" and c: "store_contract store_put store_get" and i: "i < length (threads s)"
    and r: "run_thread store_put store_get i s = Ok s'"
  shows "server_inv s'"
proof -
  let ?t = "threads s ! i" and ?T = "tms (ds (wld s))" and ?n = "length (threads s)"
  obtain pc w where w: "thread_round store_put store_get (sv_fd ?t) (sv_tp ?t) (sv_at ?t) ((wld s)\<lparr>cn := sv_cn ?t\<rparr>) = Ok (pc, w)"
    "s' = \<lparr>wld = w, threads = (threads s)[i := ?t\<lparr>sv_at := pc, sv_cn := cn w\<rparr>]\<rparr>"
    using r by (auto simp: run_thread_def Let_def bind_sres_Ok)
  have t: "sv_tp ?t = Suc i" "pc_ok (sv_at ?t)" "sv_fd ?t \<noteq> - 1" and n: "ntrans ?T = ?n" using s i by (simp_all add: server_inv_def)
  have e: "round_effect (Suc i) (sv_at ?t) ?T pc (tms (ds w))"
    and g: "if pc = Gone then creg_unregister (registry (wld s)) (sv_fd ?t) = Some (registry w) else registry w = registry (wld s)"
    using thread_round_effect [OF c w(1) t(2)] t(1) by (simp_all split: if_splits)
  note k = round_effect_keeps [OF e t(2)]
  let ?u = "?t\<lparr>sv_at := pc, sv_cn := cn w\<rparr>"
  have "treach \<lparr>tm = ?T, th = th_of (map sv_at (threads s))\<rparr>" using s by (simp add: server_inv_def csys_of_def)
  from round_effect_treach [OF e this] have "treach (csys_of s')"
    using i n by (simp add: csys_of_def w(2) map_update th_of_update th_of_nth)
  moreover have n': "ntrans (tms (ds w)) = ?n" using k n by (simp add: round_keeps_def settled_def)
  moreover have "set (depends (tms (ds w)) p) \<subseteq> {1..<p}" if "p \<in> {1..?n}" for p
  proof -
    have "set (depends (tms (ds w)) p) \<subseteq> set (depends ?T p) \<union> (if p = Suc i then {1..<Suc i} else {})" using k unfolding round_keeps_def by blast
    moreover have "set (depends ?T p) \<subseteq> {1..<p}" using s that unfolding server_inv_def by blast
    ultimately show ?thesis by (auto split: if_splits)
  qed
  moreover have "status (tms (ds w)) (Suc j) \<noteq> TRANS_PENDING" if "j < ?n" "sv_at ((threads s)[i := ?u] ! j) = Gone" for j
    using that k s i by (cases "j = i") (auto simp: server_inv_def round_keeps_def settled_def)
  moreover have reg: "creg_inv (registry w) \<and> cr_sem (registry w) = 1 \<and>
      mset (fds (registry w)) = (if pc = Gone then mset (fds (registry (wld s))) - {#sv_fd ?t#} else mset (fds (registry (wld s))))"
    using g s registry_ops [of "registry (wld s)" "sv_fd ?t"] t(3) by (auto simp: server_inv_def split: if_splits)
  moreover have "mset (fds (registry w)) = image_mset sv_fd (filter_mset live (mset ((threads s)[i := ?u])))" if "?n \<le> 1024"
  proof -
    have m: "mset (fds (registry (wld s))) = image_mset sv_fd (filter_mset live (mset (threads s)))" using s that by (simp add: server_inv_def)
    have "mset (threads s) = add_mset ?t (mset (threads s) - {#?t#})" using i by simp
    moreover have "live ?t" using k by (simp add: live_def)
    ultimately have "image_mset sv_fd (filter_mset live (mset (threads s))) =
        add_mset (sv_fd ?t) (image_mset sv_fd (filter_mset live (mset (threads s) - {#?t#})))"
      by (metis filter_mset_add_mset image_mset_add_mset)
    then show ?thesis using reg m i by (simp add: mset_update live_def)
  qed
  ultimately show ?thesis using s k i by (auto simp: server_inv_def w(2) nth_list_update)
qed

lemma server_reach_inv:
  assumes "server_reach store_put store_get w0 s" "store_contract store_put store_get" "server_init st time garbage argv = Some w0"
  shows "server_inv s"
  using assms(1)
proof induction
  case (step s s')
  from step.hyps(2) show ?case
  proof cases
    case (accept fd c)
    then show ?thesis using accept_inv [OF step.IH] by blast
  next
    case (round i)
    then show ?thesis using round_inv [OF step.IH assms(2)] by blast
  qed
qed (rule server_start_inv [OF assms(3)])

subsection \<open>A waiting thread is not waiting for itself\<close>

lemma server_invD:
  assumes "server_inv s" "i < length (threads s)"
  shows "sv_tp (threads s ! i) = Suc i" "pc_ok (sv_at (threads s ! i))" "sv_fd (threads s ! i) \<noteq> - 1"
    and "sv_at (threads s ! i) = Gone \<Longrightarrow> status (tms (ds (wld s))) (Suc i) \<noteq> TRANS_PENDING"
    and "set (depends (tms (ds (wld s))) (Suc i)) \<subseteq> {1..<Suc i}"
  using assms by (simp_all add: server_inv_def)

lemma waiting_depends:
  assumes "server_inv s" "i < length (threads s)" "sv_at (threads s ! i) = Committing pkt d rest st"
  shows "set (d # rest) \<subseteq> {1..<Suc i}"
proof -
  have "th (csys_of s) (Suc i) = Waiting d rest st" using assms(2,3) by (simp add: csys_of_def th_of_nth)
  moreover have "commit_inv (csys_of s)" using assms(1) commit_inv_reach by (auto simp: server_inv_def)
  ultimately obtain pre where "depends (tms (ds (wld s))) (Suc i) = pre @ d # rest"
    using commit_invD(4) by (fastforce simp: csys_of_def)
  then show ?thesis using server_invD(5) [OF assms(1,2)] by auto
qed

lemma commit_wake_done:
  assumes "\<forall>x\<in>set (d # rest). status t x \<noteq> TRANS_PENDING"
  shows "\<exists>st'. commit_wake d rest st t = (Done st', t)"
proof -
  have "\<exists>st'. commit_loop ds st t = (Done st', t)" if "\<forall>x\<in>set ds. status t x \<noteq> TRANS_PENDING" for ds st
    using that by (induction ds arbitrary: st) (auto simp: trans_get_status_def)
  then show ?thesis using assms by (simp add: commit_wake_def trans_get_status_def)
qed

lemma reply_commit_Ok: "\<exists>w'. xacto_reply XACTO_COMMIT_PKT st None w = Ok w'"
  by (simp add: xacto_reply_def proto_send_packet_def set_pkt_time_def packet_create_def Let_def split: prod.splits)

lemma commit_round_done:
  assumes "creg_inv (registry w)" "cr_sem (registry w) = 1" "fd \<noteq> - 1" "p_type pkt = XACTO_COMMIT_PKT"
  shows "\<exists>w'. commit_round fd tp pkt (Done st, t) w = Ok (Gone, w')"
proof -
  let ?w = "set_tms (commit_end tp st t) w"
  obtain w1 where w1: "xacto_reply XACTO_COMMIT_PKT st None ?w = Ok w1" using reply_commit_Ok by blast
  note k = reply_keeps(1,2) [OF w1]
  obtain r where "creg_unregister (registry w) fd = Some r" using registry_ops [OF assms(1-3)] by auto
  then have u: "unregister fd w1 = Ok (w1\<lparr>registry := r\<rparr>)" using k by (simp add: unregister_def)
  have "trans_abort tp (commit_end tp st t) = Ret (commit_end tp st t)" if "st = TRANS_ABORTED"
    using that by (intro trans_abort_ended(1)) (simp add: commit_end_fields)
  then show ?thesis using w1 u k assms(4) by (simp add: commit_round_def end_round_def abort_trans_def)
qed

subsection \<open>Two clients, the second depending on the first\<close>

definition chain_get :: "unit get_fn" where
  "chain_get tp k x =
     (case x of (d, s) \<Rightarrow>
        (case if 1 < tp then trans_add_dependency tp (tp - 1) (tms d) else Blocked of
           Ret t \<Rightarrow> (TRANS_PENDING, None, d\<lparr>tms := t\<rparr>, s) | _ \<Rightarrow> (TRANS_PENDING, None, d, s)))"

lemma chain_store_contract: "store_contract null_put chain_get"
proof -
  have "store_effect tp (tms d) (tms d')" if "chain_get tp k (d, s) = (st, v, d', s')" for tp k d s st v d' s'
    using that store_effect.depend [OF store_effect.none, of "tp - 1" tp "tms d" "tms d'"]
    by (cases "if 1 < tp then trans_add_dependency tp (tp - 1) (tms d) else Blocked")
      (auto simp: chain_get_def store_effect.none split: if_splits)
  then show ?thesis using null_store_contract by (auto simp: store_contract_def)
qed

definition demo_client :: "u8 list \<Rightarrow> conn" where
  "demo_client bs = \<lparr>rx = (case bs of [] \<Rightarrow> [] | c # cs \<Rightarrow> [Chunk c cs]), tx = [], wx = []\<rparr>"

definition demo_requests :: "u8 list" where
  "demo_requests = wire (packet_create XACTO_GET_PKT 0) @ wire ((packet_create XACTO_DATA_PKT 0)\<lparr>p_size := 1\<rparr>) @ [97] @
     wire (packet_create XACTO_COMMIT_PKT 0)"

definition demo_accept :: "unit server sres" where
  "demo_accept = bind_sres (accept_client 7 (demo_client []) \<lparr>wld = demo_world [], threads = []\<rparr>)
     (accept_client 8 (demo_client demo_requests))"

definition demo_wait :: "unit server \<Rightarrow> unit server sres" where
  "demo_wait s = bind_sres (run_thread null_put chain_get 1 s) (run_thread null_put chain_get 1)"

definition demo_end :: "unit server \<Rightarrow> unit server sres" where
  "demo_end s = bind_sres (run_thread null_put chain_get 0 s) (run_thread null_put chain_get 1)"

definition demo_trace :: bool where
  "demo_trace =
    (case demo_accept of Ok b \<Rightarrow> length (threads b) = 2 \<and>
       (case demo_wait b of Ok s \<Rightarrow>
          (case map sv_at (threads s) of [Reading _ _, Committing _ d [] _] \<Rightarrow> d = 1 | _ \<Rightarrow> False) \<and>
          (case demo_end s of Ok t \<Rightarrow> (case map sv_at (threads t) of [Gone, Gone] \<Rightarrow> True | _ \<Rightarrow> False) | _ \<Rightarrow> False)
        | _ \<Rightarrow> False)
     | _ \<Rightarrow> False)"

lemma demo_trace_True: demo_trace
  by code_simp

lemma demo_init: "server_init () (\<lambda>_. (0, 0)) None [''xacto'', ''-p'', ''9999''] = Some (demo_world [])"
  by (simp add: server_init_def port_def getFlag_def demo_world_def Let_def)

lemma reach_run:
  assumes "server_reach store_put store_get w0 s" "run_thread store_put store_get i s = Ok s'" "i < length (threads s)"
  shows "server_reach store_put store_get w0 s'" "length (threads s') = length (threads s)"
proof -
  show "server_reach store_put store_get w0 s'" using assms server_reach.step server_step.round by blast
  show "length (threads s') = length (threads s)" using assms(2) by (auto simp: run_thread_def Let_def bind_sres_Ok)
qed

lemma demo_states:
  obtains s t where "server_reach null_put chain_get (demo_world []) s" "server_reach null_put chain_get (demo_world []) t"
    and "length (threads s) = 2" "length (threads t) = 2"
    and "\<exists>pkt st. sv_at (threads s ! 1) = Committing pkt 1 [] st" "\<forall>i<2. sv_at (threads t ! i) = Gone"
proof -
  let ?reach = "server_reach null_put chain_get (demo_world [])"
  obtain b s t where b: "demo_accept = Ok b" "length (threads b) = 2" and s: "demo_wait b = Ok s" and t: "demo_end s = Ok t"
    and at: "case map sv_at (threads s) of [Reading _ _, Committing _ d [] _] \<Rightarrow> d = 1 | _ \<Rightarrow> False"
      "case map sv_at (threads t) of [Gone, Gone] \<Rightarrow> True | _ \<Rightarrow> False"
    using demo_trace_True unfolding demo_trace_def by (auto split: sres.splits)
  obtain a where a: "accept_client 7 (demo_client []) \<lparr>wld = demo_world [], threads = []\<rparr> = Ok a"
    "accept_client 8 (demo_client demo_requests) a = Ok b"
    using b(1) by (auto simp: demo_accept_def bind_sres_Ok)
  have "server_step null_put chain_get \<lparr>wld = demo_world [], threads = []\<rparr> a"
    by (rule server_step.accept [OF _ _ a(1)]) simp_all
  then have ra: "?reach a" using server_reach.step [OF server_reach.start] by blast
  have "sv_fd ` set (threads a) = {7}" using a(1) by (auto simp: accept_client_def Let_def split: option.splits prod.splits)
  then have "server_step null_put chain_get a b" by (intro server_step.accept [OF _ _ a(2)]) simp_all
  then have rb: "?reach b" using server_reach.step [OF ra] by blast
  obtain c where c: "run_thread null_put chain_get 1 b = Ok c" "run_thread null_put chain_get 1 c = Ok s"
    using s unfolding demo_wait_def bind_sres_Ok by blast
  obtain d where d: "run_thread null_put chain_get 0 s = Ok d" "run_thread null_put chain_get 1 d = Ok t"
    using t unfolding demo_end_def bind_sres_Ok by blast
  have rc: "?reach c" "length (threads c) = 2" using reach_run [OF rb c(1)] b(2) by simp_all
  have rs: "?reach s" "length (threads s) = 2" using reach_run [OF rc(1) c(2)] rc(2) by simp_all
  have rd: "?reach d" "length (threads d) = 2" using reach_run [OF rs(1) d(1)] rs(2) by simp_all
  have rt: "?reach t" "length (threads t) = 2" using reach_run [OF rd(1) d(2)] rd(2) by simp_all
  have "\<exists>pkt st. sv_at (threads s ! 1) = Committing pkt 1 [] st"
    using at(1) by (auto split: list.splits sv_pc.splits)
  moreover have "sv_at (threads t ! i) = Gone" if "i < 2" for i
    using at(2) that by (auto simp: less_2_cases_iff split: list.splits sv_pc.splits)
  ultimately show thesis using that rs rt by blast
qed

subsection \<open>Properties\<close>

text \<open>C14: the threads of all clients, in whatever order their rounds run, take the steps of the concurrent
  transactions of \<open>Server_Trans\<close>: every state the server can reach, seen as transactions and where their
  threads are, is one that those steps reach, so what holds of them holds of the server.\<close>

theorem server_refines:
  assumes "server_reach store_put store_get w0 s" "store_contract store_put store_get"
    and "server_init st time garbage argv = Some w0"
  shows "treach (csys_of s)"
  using server_reach_inv [OF assms] by (simp add: server_inv_def)

theorem server_refines_witness:
  "\<exists>s. server_reach null_put chain_get (demo_world []) s \<and> length (threads s) = 2 \<and> treach (csys_of s)"
proof -
  obtain s where s: "server_reach null_put chain_get (demo_world []) s" "length (threads s) = 2" using demo_states by blast
  show ?thesis using server_refines [OF s(1) chain_store_contract demo_init] s by blast
qed

text \<open>The loop of the service thread is its rounds one after the other: a call with \<open>n + 1\<close> rounds runs one
  round and then, unless the thread has returned, continues with \<open>n\<close> from the packet and the status that
  the round leaves; a commit that would wait for another transaction waits for ever when no other thread runs.\<close>

theorem service_by_rounds:
  "service_loop store_put store_get (Suc n) fd tp pkt st w =
     bind_sres (thread_round store_put store_get fd tp (Reading pkt st) w) (\<lambda>(pc, w).
       case pc of Gone \<Rightarrow> Ok w | Committing _ _ _ _ \<Rightarrow> Block
       | Reading pkt st \<Rightarrow> service_loop store_put store_get n fd tp pkt st w)"
  by (rule service_loop_rounds)



text \<open>C15: once the threads of up to 1024 clients have all returned, whatever the order in which they ran, no client is
  registered and no transaction is pending, so a SIGHUP is not kept waiting: the server then exits with
  success when no transaction has committed, and with failure otherwise.\<close>

theorem shutdown_any_schedule:
  assumes "server_reach store_put store_get w0 s" "store_contract store_put store_get"
    and "server_init st time garbage argv = Some w0" "length (threads s) \<le> 1024"
    and "\<forall>t\<in>set (threads s). sv_at t = Gone"
  shows "fds (registry (wld s)) = [] \<and> (\<forall>p\<in>{1..ntrans (tms (ds (wld s)))}. status (tms (ds (wld s))) p \<noteq> TRANS_PENDING) \<and>
    terminate store_fini (wld s) =
      (if \<exists>p\<in>{1..ntrans (tms (ds (wld s)))}. status (tms (ds (wld s))) p = TRANS_COMMITTED then ExitFail
       else Ok ((wld s)\<lparr>sto := store_fini (sto (wld s))\<rparr>))"
proof -
  have inv: "server_inv s" using server_reach_inv [OF assms(1-3)] .
  have "filter live (threads s) = []" using assms(5) by (simp add: filter_empty_conv live_def)
  then have "filter_mset live (mset (threads s)) = {#}" by (metis mset.simps(1) mset_filter)
  moreover have "mset (fds (registry (wld s))) = image_mset sv_fd (filter_mset live (mset (threads s)))"
    using inv assms(4) by (simp add: server_inv_def)
  ultimately have f: "fds (registry (wld s)) = []" by (metis image_mset_empty mset_zero_iff)
  have p: "status (tms (ds (wld s))) p \<noteq> TRANS_PENDING" if "p \<in> {1..ntrans (tms (ds (wld s)))}" for p
  proof -
    have "ntrans (tms (ds (wld s))) = length (threads s)" using inv by (simp add: server_inv_def)
    then have "p - 1 < length (threads s)" "Suc (p - 1) = p" using that by auto
    then show ?thesis using server_invD(4) [OF inv, of "p - 1"] assms(5) by simp
  qed
  have "tman_inv (tms (ds (wld s)))" using inv commit_inv_reach by (fastforce simp: server_inv_def csys_of_def)
  then have "quiet (wld s)" using f p inv by (simp add: quiet_def server_inv_def)
  then show ?thesis using terminate_quiet f p by blast
qed

theorem shutdown_any_schedule_witness:
  "\<exists>s. server_reach null_put chain_get (demo_world []) s \<and> length (threads s) = 2 \<and> fds (registry (wld s)) = []"
proof -
  obtain s where s: "server_reach null_put chain_get (demo_world []) s" "length (threads s) = 2" "\<forall>i<2. sv_at (threads s ! i) = Gone"
    using demo_states by blast
  then have "\<forall>t\<in>set (threads s). sv_at t = Gone" by (auto simp: in_set_conv_nth)
  then show ?thesis using shutdown_any_schedule [OF s(1) chain_store_contract demo_init] s by auto
qed



end
