(* ===== verification/Server_Abort.thy ===== *)
theory Server_Abort
  imports Server_Trans
begin

section \<open>Server store: trans_abort step by step\<close>

text \<open>
  \<open>trans_abort\<close> of \<open>transaction.c\<close> as a machine with a stack of calls, so that other threads run between its
  tests of the status, its wait for the semaphore and its recursive calls. \<open>Enter\<close> is before the first test of the
  status, \<open>Check\<close> before the second, \<open>Want\<close> at \<open>P\<close>, and \<open>Deps\<close> in the loop over the dependencies that are left, with
  the semaphore held. The other operations are those of \<open>Server_Trans\<close>, and run as a whole up to where they wait.
\<close>

datatype frame = Enter nat | Check nat | Want nat | Deps nat "nat list"

text \<open>A step of the innermost call; \<open>Blocked\<close>, too, when no call is left.\<close>

fun abort_step :: "frame list \<Rightarrow> tman \<Rightarrow> (frame list \<times> tman) tres" where
  "abort_step [] s = Blocked"
| "abort_step (Enter q # fs) s = (if trans_get_status q s = TRANS_COMMITTED then Exit else Ret (Check q # fs, s))"
| "abort_step (Check q # fs) s = (if trans_get_status q s = TRANS_PENDING then Ret (Want q # fs, s) else Ret (fs, s))"
| "abort_step (Want q # fs) s =
     (case P (t_sem (heap s q)) of None \<Rightarrow> Blocked
      | Some v \<Rightarrow>
          (let s = upd q (\<lambda>t. t\<lparr>t_sem := v\<rparr>) s;
               s = upd q (\<lambda>t. t\<lparr>t_status := TRANS_ABORTED\<rparr>) s
           in Ret (Deps q (depends s q) # fs, s)))"
| "abort_step (Deps q (d # ds) # fs) s = Ret (Enter d # Deps q ds # fs, s)"
| "abort_step (Deps q [] # fs) s =
     (let s = trans_unref q s;
          s = releaseDependents q s
      in Ret (fs, upd q (\<lambda>t. t\<lparr>t_sem := V (t_sem t)\<rparr>) s))"

definition astep :: "frame list \<times> tman \<Rightarrow> frame list \<times> tman \<Rightarrow> bool" where
  "astep x y \<longleftrightarrow> abort_step (fst x) (snd x) = Ret y"

subsection \<open>Without interruption the steps are the recursive function\<close>

lemma astep_one: "abort_step fs s = Ret y \<Longrightarrow> astep\<^sup>*\<^sup>* y z \<Longrightarrow> astep\<^sup>*\<^sup>* (fs, s) z"
  by (rule converse_rtranclp_into_rtranclp) (simp add: astep_def)

lemma astep_det: "astep x y \<Longrightarrow> astep x z \<Longrightarrow> y = z"
  by (simp add: astep_def)

definition stuck :: "frame list \<times> tman \<Rightarrow> bool" where
  "stuck x \<longleftrightarrow> abort_step (fst x) (snd x) \<in> {Exit, Blocked}"

lemma stuck_unique:
  assumes "astep\<^sup>*\<^sup>* x y" "astep\<^sup>*\<^sup>* x z" "stuck y" "stuck z"
  shows "y = z"
  using assms
proof (induction rule: converse_rtranclp_induct)
  case base
  then show ?case by (auto simp: stuck_def astep_def elim: converse_rtranclpE)
next
  case (step x w)
  from step.prems(1) show ?case
  proof (cases rule: converse_rtranclpE)
    case base
    then show ?thesis using step.hyps(1) step.prems(3) by (auto simp: stuck_def astep_def)
  next
    case (step v)
    then show ?thesis using astep_det [of x w v] \<open>astep x w\<close> \<open>astep\<^sup>*\<^sup>* w y\<close> local.step.IH assms(3) step.prems by metis
  qed
qed

text \<open>What a call ends in: its return to the frames below, or a stuck state above them.\<close>

definition ends :: "frame list \<Rightarrow> frame list \<times> tman \<Rightarrow> tman tres \<Rightarrow> bool" where
  "ends fs x r \<longleftrightarrow> (case r of Ret s \<Rightarrow> astep\<^sup>*\<^sup>* x (fs, s) | Fuel \<Rightarrow> True
     | _ \<Rightarrow> \<exists>f gs s. astep\<^sup>*\<^sup>* x (f # gs, s) \<and> stuck (f # gs, s))"

lemma ends_one: "abort_step fs s = Ret y \<Longrightarrow> ends gs y r \<Longrightarrow> ends gs (fs, s) r"
  unfolding ends_def by (cases r) (auto dest: astep_one [of fs s y])

lemma ends_then: "astep\<^sup>*\<^sup>* x y \<Longrightarrow> ends gs y r \<Longrightarrow> ends gs x r"
  unfolding ends_def by (auto split: tres.splits) (meson rtranclp_trans)+

lemma ends_stuck: "stuck (f # fs, s) \<Longrightarrow> r = Exit \<or> r = Blocked \<Longrightarrow> ends gs (f # fs, s) r"
  unfolding ends_def by (cases r) (auto intro: exI [of _ f] exI [of _ fs] exI [of _ s])

lemma abort_steps:
  "ends fs (Enter tp # fs, s) (abort_rec n tp s)"
  "ends (Deps q [] # fs) (Deps q ds # fs, s) (abort_deps n ds s)"
proof (induction n tp s and n ds s arbitrary: fs and q fs rule: abort_rec_abort_deps.induct)
  case (2 n tp s)
  show ?case
  proof (cases "status s tp")
    case TRANS_PENDING
    have c: "abort_step (Enter tp # fs) s = Ret (Check tp # fs, s)" "abort_step (Check tp # fs) s = Ret (Want tp # fs, s)"
      using TRANS_PENDING by (simp_all add: trans_get_status_def)
    show ?thesis
    proof (cases "P (t_sem (heap s tp))")
      case None
      then have "ends fs (Want tp # fs, s) Blocked" by (intro ends_stuck) (simp_all add: stuck_def)
      then show ?thesis using ends_one [OF c(1) ends_one [OF c(2)]] TRANS_PENDING None by (simp add: trans_get_status_def)
    next
      case (Some v)
      let ?s = "upd tp (\<lambda>t. t\<lparr>t_status := TRANS_ABORTED\<rparr>) (upd tp (\<lambda>t. t\<lparr>t_sem := v\<rparr>) s)"
      have w: "abort_step (Want tp # fs) s = Ret (Deps tp (depends ?s tp) # fs, ?s)" using Some by (simp add: Let_def)
      have d: "ends (Deps tp [] # fs) (Deps tp (depends ?s tp) # fs, ?s) (abort_deps n (depends ?s tp) ?s)"
        using "2.IH" [OF _ _ Some refl refl, of tp fs] TRANS_PENDING by (simp add: trans_get_status_def)
      have r: "abort_rec (Suc n) tp s = (case abort_deps n (depends ?s tp) ?s of
          Ret s \<Rightarrow> Ret (upd tp (\<lambda>t. t\<lparr>t_sem := V (t_sem t)\<rparr>) (releaseDependents tp (trans_unref tp s))) | r \<Rightarrow> r)"
        using TRANS_PENDING Some by (simp add: trans_get_status_def Let_def cong: tres.case_cong)
      have "ends fs (Deps tp (depends ?s tp) # fs, ?s) (abort_rec (Suc n) tp s)"
      proof (cases "abort_deps n (depends ?s tp) ?s")
        case (Ret t)
        have "abort_step (Deps tp [] # fs) t = Ret (fs, upd tp (\<lambda>t. t\<lparr>t_sem := V (t_sem t)\<rparr>) (releaseDependents tp (trans_unref tp t)))"
          by (simp add: Let_def)
        then have "ends fs (Deps tp [] # fs, t) (abort_rec (Suc n) tp s)" using ends_one r Ret by (simp add: ends_def astep_one)
        moreover have "astep\<^sup>*\<^sup>* (Deps tp (depends ?s tp) # fs, ?s) (Deps tp [] # fs, t)" using d Ret by (simp add: ends_def)
        ultimately show ?thesis by (rule ends_then [rotated])
      qed (use d r in \<open>simp_all add: ends_def\<close>)
      then show ?thesis by (intro ends_one [OF c(1) ends_one [OF c(2) ends_one [OF w]]])
    qed
  next
    case TRANS_COMMITTED
    then show ?thesis by (simp add: trans_get_status_def ends_stuck stuck_def)
  next
    case TRANS_ABORTED
    have "ends fs (fs, s) (Ret s)" by (simp add: ends_def)
    then show ?thesis
      using ends_one [of "Enter tp # fs" s "(Check tp # fs, s)"] ends_one [of "Check tp # fs" s "(fs, s)"] TRANS_ABORTED
      by (simp add: trans_get_status_def)
  qed
next
  case (4 n d ds s)
  have c: "abort_step (Deps q (d # ds) # fs) s = Ret (Enter d # Deps q ds # fs, s)" by simp
  have e: "ends (Deps q ds # fs) (Enter d # Deps q ds # fs, s) (abort_rec n d s)" by (rule "4.IH"(1))
  have "ends (Deps q [] # fs) (Enter d # Deps q ds # fs, s) (abort_deps n (d # ds) s)"
  proof (cases "abort_rec n d s")
    case (Ret t)
    then show ?thesis using "4.IH"(2) [OF Ret, of q fs] e ends_then by (simp add: ends_def) 
  qed (use e in \<open>simp_all add: ends_def\<close>)
  then show ?case by (rule ends_one [OF c])
qed (simp_all add: ends_def)


lemma blocked_end: "stuck ([], s)"
  by (simp add: stuck_def)



subsection \<open>Threads that abort step by step\<close>

text \<open>
  A service thread per transaction, as in \<open>Server_Trans\<close>, but a thread in \<open>trans_abort\<close> holds its stack of calls. The
  flag of \<open>FAbort\<close> tells the abort of its own transaction, after which the thread is done with it, from one that an
  operation of the store makes. Dependencies are on older transactions, as \<open>store.h\<close> has them. An action that the
  thread cannot take is \<open>Blocked\<close>.
\<close>

datatype fthread = FRun | FWait nat "nat list" TRANS_STATUS | FAbort bool "frame list" | FEnded

record fsys =
  ftm :: tman
  fth :: "nat \<Rightarrow> fthread"

datatype act = Create | Depend nat nat | Commit nat | Wake nat | Abort nat | StoreAbort nat nat | Step nat

definition after_commit :: "nat \<Rightarrow> fsys \<Rightarrow> commit_state \<times> tman \<Rightarrow> fsys" where
  "after_commit p c r =
     (case r of (Done st, s) \<Rightarrow> \<lparr>ftm = commit_end p st s, fth = (fth c)(p := FEnded)\<rparr>
      | (Waits d ds st, s) \<Rightarrow> \<lparr>ftm = s, fth = (fth c)(p := FWait d ds st)\<rparr>)"

definition after_abort :: "bool \<Rightarrow> frame list \<Rightarrow> fthread" where
  "after_abort own fs = (if fs = [] then if own then FEnded else FRun else FAbort own fs)"

fun fexec :: "act \<Rightarrow> fsys \<Rightarrow> fsys tres" where
  "fexec Create c = (case trans_create (ftm c) of (tp, s) \<Rightarrow> Ret \<lparr>ftm = s, fth = (fth c)(tp := FRun)\<rparr>)"
| "fexec (Depend p d) c =
     (if fth c p = FRun \<and> 1 \<le> d \<and> d < p
      then case trans_add_dependency p d (ftm c) of Ret s \<Rightarrow> Ret \<lparr>ftm = s, fth = fth c\<rparr> | _ \<Rightarrow> Blocked
      else Blocked)"
| "fexec (Commit p) c =
     (if fth c p = FRun then case commit_begin p (ftm c) of Some r \<Rightarrow> Ret (after_commit p c r) | None \<Rightarrow> Blocked
      else Blocked)"
| "fexec (Wake p) c =
     (case fth c p of FWait d ds st \<Rightarrow> Ret (after_commit p c (commit_wake d ds st (ftm c))) | _ \<Rightarrow> Blocked)"
| "fexec (Abort p) c =
     (if fth c p = FRun then Ret \<lparr>ftm = ftm c, fth = (fth c)(p := FAbort True [Enter p])\<rparr> else Blocked)"
| "fexec (StoreAbort p q) c =
     (if fth c p = FRun \<and> 1 \<le> q \<and> q \<le> ntrans (ftm c)
      then Ret \<lparr>ftm = ftm c, fth = (fth c)(p := FAbort False [Enter q])\<rparr> else Blocked)"
| "fexec (Step p) c =
     (case fth c p of FAbort own fs \<Rightarrow>
        (case abort_step fs (ftm c) of Ret (fs, s) \<Rightarrow> Ret \<lparr>ftm = s, fth = (fth c)(p := after_abort own fs)\<rparr>
         | Exit \<Rightarrow> Exit | _ \<Rightarrow> Blocked)
      | _ \<Rightarrow> Blocked)"

definition fstart :: fsys where
  "fstart = \<lparr>ftm = tman_empty, fth = \<lambda>_. FEnded\<rparr>"

inductive freach :: "(act \<Rightarrow> bool) \<Rightarrow> fsys \<Rightarrow> bool" for A where
  start: "freach A fstart"
| step: "freach A c \<Longrightarrow> A a \<Longrightarrow> fexec a c = Ret c' \<Longrightarrow> freach A c'"

fun frun :: "act list \<Rightarrow> fsys \<Rightarrow> fsys tres" where
  "frun [] c = Ret c"
| "frun (a # as) c = (case fexec a c of Ret c \<Rightarrow> frun as c | r \<Rightarrow> r)"

lemma frun_reach: "freach A c \<Longrightarrow> list_all A as \<Longrightarrow> frun as c = Ret c' \<Longrightarrow> freach A c'"
  by (induction as c rule: frun.induct) (auto intro: freach.step split: tres.splits)

text \<open>Without the store's aborts, each thread aborts its own transaction only.\<close>

fun own :: "act \<Rightarrow> bool" where
  "own (StoreAbort p q) = False"
| "own _ = True"

subsection \<open>Threads and transactions in every reachable state\<close>

lemma trans_ret_fields:
  "status (trans_unref p s) q = status s q" "depends (trans_unref p s) q = depends s q"
  "t_sem (heap (trans_unref p s) q) = t_sem (heap s q)" "ntrans (trans_unref p s) = ntrans s"
  "status (releaseDependents p s) q = status s q" "depends (releaseDependents p s) q = depends s q"
  "t_sem (heap s q) \<le> t_sem (heap (releaseDependents p s) q)" "ntrans (releaseDependents p s) = ntrans s"
  by (simp_all add: trans_unref_def releaseDependents_def release_loop_eq)

text \<open>What an action does to the transactions: a final status stays one, and dependencies grow by older ones only.\<close>

definition evolves :: "tman \<Rightarrow> tman \<Rightarrow> bool" where
  "evolves s s' \<longleftrightarrow> ntrans s \<le> ntrans s' \<and>
     (\<forall>q. status s q \<noteq> TRANS_PENDING \<and> q \<le> ntrans s \<longrightarrow> status s' q \<noteq> TRANS_PENDING) \<and>
     (\<forall>q. set (depends s q) \<subseteq> {1..<q} \<longrightarrow> set (depends s' q) \<subseteq> {1..<q})"

lemma commit_loop_sem: "commit_loop ds st s = (r, s') \<Longrightarrow> t_sem (heap s' q) = t_sem (heap s q)"
  by (induction ds st s rule: commit_loop.induct) (auto split: if_splits)

lemma commit_loop_final: "commit_loop ds st s = (Done st', s') \<Longrightarrow> st \<noteq> TRANS_PENDING \<Longrightarrow> st' \<noteq> TRANS_PENDING"
  by (induction ds st s rule: commit_loop.induct) (auto split: if_splits)

lemma commit_loop_set: "commit_loop ds st s = (Waits d ds' st', s') \<Longrightarrow> st' = st \<and> insert d (set ds') \<subseteq> set ds"
  by (induction ds st s rule: commit_loop.induct) (auto split: if_splits)

lemma commit_end_sem: "t_sem (heap s q) \<le> t_sem (heap (commit_end p st s) q)" "0 < t_sem (heap (commit_end p st s) p)"
  by (simp_all add: commit_end_def trans_unref_def releaseDependents_def release_loop_eq V_def Let_def)

text \<open>
  A stack of thread \<open>p\<close>: the calls below the innermost one are in their loops over the dependencies, each call is on
  an older transaction than the one below it, and the first call is on transaction \<open>p\<close>.
\<close>

fun fid :: "frame \<Rightarrow> nat" where
  "fid (Enter q) = q"
| "fid (Check q) = q"
| "fid (Want q) = q"
| "fid (Deps q ds) = q"

fun fdeps :: "frame \<Rightarrow> nat list" where
  "fdeps (Deps q ds) = ds"
| "fdeps _ = []"

fun stack_ok :: "nat \<Rightarrow> frame list \<Rightarrow> bool" where
  "stack_ok p [] = False"
| "stack_ok p [f] \<longleftrightarrow> fid f = p \<and> 1 \<le> p \<and> set (fdeps f) \<subseteq> {1..<p}"
| "stack_ok p (f # g # fs) \<longleftrightarrow> 1 \<le> fid f \<and> fid f < fid g \<and> set (fdeps f) \<subseteq> {1..<fid f} \<and>
     (\<exists>q ds. g = Deps q ds) \<and> stack_ok p (g # fs)"

lemma stack_ok_cons:
  "stack_ok p (f # fs) \<Longrightarrow> 1 \<le> fid f \<and> fid f \<le> p \<and> set (fdeps f) \<subseteq> {1..<fid f}"
  "stack_ok p (f # fs) \<Longrightarrow> g \<in> set fs \<Longrightarrow> fid f < fid g"
  "stack_ok p (f # g # fs) \<Longrightarrow> stack_ok p (g # fs)"
  subgoal by (induction p "f # fs" arbitrary: f fs rule: stack_ok.induct) auto
  subgoal by (induction p "f # fs" arbitrary: f fs rule: stack_ok.induct) force+
  subgoal by simp
  done

lemma stack_ok_head:
  "stack_ok p (f # fs) \<Longrightarrow> fid f' = fid f \<Longrightarrow> set (fdeps f') \<subseteq> {1..<fid f} \<Longrightarrow> stack_ok p (f' # fs)"
  by (cases fs) auto

text \<open>Which semaphores a thread holds: a waiting commit its own, an abort those of its calls in their loops.\<close>

definition holds :: "nat \<Rightarrow> fthread \<Rightarrow> nat \<Rightarrow> bool" where
  "holds p t q \<longleftrightarrow>
     (case t of FWait _ _ _ \<Rightarrow> q = p | FAbort b fs \<Rightarrow> (\<exists>ds. Deps q ds \<in> set fs) | _ \<Rightarrow> False)"

definition thread_ok :: "nat \<Rightarrow> tman \<Rightarrow> fthread \<Rightarrow> bool" where
  "thread_ok p s t \<longleftrightarrow>
     (case t of FRun \<Rightarrow> True | FEnded \<Rightarrow> status s p \<noteq> TRANS_PENDING
      | FWait d ds st \<Rightarrow> set (d # ds) \<subseteq> {1..<p} \<and> st \<noteq> TRANS_PENDING
      | FAbort b fs \<Rightarrow> b \<and> stack_ok p fs \<and> (\<forall>q ds. Deps q ds \<in> set fs \<longrightarrow> status s q \<noteq> TRANS_PENDING))"

definition fsys_inv :: "fsys \<Rightarrow> bool" where
  "fsys_inv c \<longleftrightarrow> tman_inv (ftm c) \<and>
     (\<forall>p. fth c p \<noteq> FEnded \<longrightarrow> 1 \<le> p \<and> p \<le> ntrans (ftm c)) \<and>
     (\<forall>q. set (depends (ftm c) q) \<subseteq> {1..<q}) \<and>
     (\<forall>p. 1 \<le> p \<and> p \<le> ntrans (ftm c) \<longrightarrow> thread_ok p (ftm c) (fth c p)) \<and>
     (\<forall>q. 1 \<le> q \<and> q \<le> ntrans (ftm c) \<and> t_sem (heap (ftm c) q) = 0 \<longrightarrow> (\<exists>p. holds p (fth c p) q))"

lemma fsys_invD:
  assumes "fsys_inv c"
  shows "tman_inv (ftm c)"
    and "fth c p \<noteq> FEnded \<Longrightarrow> 1 \<le> p \<and> p \<le> ntrans (ftm c)"
    and "set (depends (ftm c) q) \<subseteq> {1..<q}"
    and "1 \<le> p \<Longrightarrow> p \<le> ntrans (ftm c) \<Longrightarrow> thread_ok p (ftm c) (fth c p)"
    and "1 \<le> q \<Longrightarrow> q \<le> ntrans (ftm c) \<Longrightarrow> t_sem (heap (ftm c) q) = 0 \<Longrightarrow> \<exists>p. holds p (fth c p) q"
  using assms unfolding fsys_inv_def by blast+

lemma stack_frames: "stack_ok p fs \<Longrightarrow> f \<in> set fs \<Longrightarrow> 1 \<le> fid f \<and> fid f \<le> p"
proof (induction p fs rule: stack_ok.induct)
  case (3 p f g fs)
  then show ?case using stack_ok_cons(1) [of p f "g # fs"] by auto
qed auto

lemma thread_ok_evolves:
  assumes "thread_ok p s t" "evolves s s'" "p \<le> ntrans s"
  shows "thread_ok p s' t"
proof (cases t)
  case (FAbort b fs)
  then have "status s' q \<noteq> TRANS_PENDING" if "Deps q ds \<in> set fs" for q ds
  proof -
    have "q \<le> ntrans s" "status s q \<noteq> TRANS_PENDING"
      using assms(1,3) stack_frames [of p fs "Deps q ds"] that FAbort by (auto simp: thread_ok_def)
    then show ?thesis using assms(2) unfolding evolves_def by blast
  qed
  then show ?thesis using assms(1) FAbort by (auto simp: thread_ok_def)
qed (use assms in \<open>simp_all add: thread_ok_def evolves_def\<close>)

text \<open>One thread \<open>p\<close> acts.\<close>

lemma fsys_inv_step:
  assumes "fsys_inv c" "tman_inv s" "evolves (ftm c) s" "1 \<le> p" "p \<le> ntrans s" "thread_ok p s t"
    and "\<And>q. q \<le> ntrans s \<Longrightarrow> q \<noteq> p \<Longrightarrow> q \<le> ntrans (ftm c)"
    and "\<And>q. 1 \<le> q \<Longrightarrow> q \<le> ntrans s \<Longrightarrow> t_sem (heap s q) = 0 \<Longrightarrow>
      holds p t q \<or> q \<le> ntrans (ftm c) \<and> t_sem (heap (ftm c) q) = 0 \<and> \<not> holds p (fth c p) q"
  shows "fsys_inv \<lparr>ftm = s, fth = (fth c)(p := t)\<rparr>"
proof -
  note i = fsys_invD [OF assms(1)]
  have n: "ntrans (ftm c) \<le> ntrans s" using assms(3) by (simp add: evolves_def)
  have th: "thread_ok q s (((fth c)(p := t)) q)" if "1 \<le> q" "q \<le> ntrans s" for q
    using assms(6) assms(7) [OF that(2)] thread_ok_evolves [OF i(4) assms(3)] that(1) by simp
  have h: "\<exists>r. holds r (((fth c)(p := t)) r) q" if q: "1 \<le> q" "q \<le> ntrans s" "t_sem (heap s q) = 0" for q
  proof (cases "holds p t q")
    case True
    then show ?thesis by (intro exI [of _ p]) simp
  next
    case False
    then obtain r where "holds r (fth c r) q" "\<not> holds p (fth c p) q" using assms(8) [OF q] i(5) [OF q(1)] by blast
    then show ?thesis by (intro exI [of _ r]) auto
  qed
  have d: "set (depends s q) \<subseteq> {1..<q}" for q using assms(3) i(3) unfolding evolves_def by blast
  have "1 \<le> q \<and> q \<le> ntrans s" if "((fth c)(p := t)) q \<noteq> FEnded" for q
    using that assms(4,5) i(2) [of q] n by (cases "q = p") auto
  then show ?thesis unfolding fsys_inv_def using assms(2) d th h by simp
qed

lemma evolves_refl: "evolves s s"
  by (simp add: evolves_def)

lemma evolves_same: "same_deps s s' \<Longrightarrow> evolves s s'"
  by (simp add: evolves_def same_deps_def)

lemma evolves_trans: "evolves s s1 \<Longrightarrow> evolves s1 s2 \<Longrightarrow> evolves s s2"
  unfolding evolves_def by (meson le_trans)

lemma evolves_commit_end: "st \<noteq> TRANS_PENDING \<Longrightarrow> evolves s (commit_end p st s)"
  by (simp add: evolves_def commit_end_fields)

text \<open>The end of a commit, or its wait for a dependency, from a state that is as before but for semaphores.\<close>

lemma fsys_inv_after:
  assumes "fsys_inv c" "1 \<le> p" "p \<le> ntrans (ftm c)" "same_deps (ftm c) s"
    and "\<And>st. r = Done st \<Longrightarrow> st \<noteq> TRANS_PENDING"
    and "\<And>d ds st. r = Waits d ds st \<Longrightarrow> set (d # ds) \<subseteq> {1..<p} \<and> st \<noteq> TRANS_PENDING"
    and "\<And>q. q \<noteq> p \<Longrightarrow> t_sem (heap s q) = t_sem (heap (ftm c) q)"
    and "\<And>q. holds p (fth c p) q \<Longrightarrow> q = p"
  shows "fsys_inv (after_commit p c (r, s))"
proof (cases r)
  case (Done st)
  note e = evolves_commit_end [of st s p]
  show ?thesis
    unfolding after_commit_def Done prod.case commit_state.case
  proof (rule fsys_inv_step [OF assms(1)])
    show "tman_inv (commit_end p st s)"
      using same_depsD(4) [OF assms(4)] fsys_invD(1) [OF assms(1)] by (simp add: commit_end_inv)
    show "evolves (ftm c) (commit_end p st s)"
      using e assms(5) [OF Done] evolves_trans [OF evolves_same [OF assms(4)]] by blast
    show "thread_ok p (commit_end p st s) FEnded" using assms(5) [OF Done] by (simp add: thread_ok_def commit_end_fields)
    show "p \<le> ntrans (commit_end p st s)" using assms(3) same_depsD(1) [OF assms(4)] by (simp add: commit_end_fields)
    show "\<And>q. q \<le> ntrans (commit_end p st s) \<Longrightarrow> q \<le> ntrans (ftm c)"
      using same_depsD(1) [OF assms(4)] by (simp add: commit_end_fields)
    fix q assume q: "q \<le> ntrans (commit_end p st s)" "t_sem (heap (commit_end p st s) q) = 0"
    from q(2) have "q \<noteq> p" using commit_end_sem(2) [of p st s] by auto
    moreover from this have "t_sem (heap (ftm c) q) = 0" using q(2) commit_end_sem(1) [of s q p st] assms(7) [of q] by simp
    ultimately show "holds p FEnded q \<or> q \<le> ntrans (ftm c) \<and> t_sem (heap (ftm c) q) = 0 \<and> \<not> holds p (fth c p) q"
      using q same_depsD(1) [OF assms(4)] assms(8) [of q] by (auto simp: commit_end_fields)
  qed (rule assms(2))
next
  case (Waits d ds st)
  show ?thesis
    unfolding after_commit_def Waits prod.case commit_state.case
  proof (rule fsys_inv_step [OF assms(1)])
    show "thread_ok p s (FWait d ds st)" using assms(6) [OF Waits] by (simp add: thread_ok_def)
    show "p \<le> ntrans s" "\<And>q. q \<le> ntrans s \<Longrightarrow> q \<le> ntrans (ftm c)" using assms(3) same_depsD(1) [OF assms(4)] by simp_all
    fix q assume "q \<le> ntrans s" "t_sem (heap s q) = 0"
    then show "holds p (FWait d ds st) q \<or> q \<le> ntrans (ftm c) \<and> t_sem (heap (ftm c) q) = 0 \<and> \<not> holds p (fth c p) q"
      using assms(7,8) [of q] same_depsD(1) [OF assms(4)] by (auto simp: holds_def)
  qed (use assms(2) evolves_same [OF assms(4)] same_depsD(4) [OF assms(4)] fsys_invD(1) [OF assms(1)] in auto)
qed

lemma commit_begin_ok:
  assumes "commit_begin p s = Some (r, s')"
  shows "q \<noteq> p \<Longrightarrow> t_sem (heap s' q) = t_sem (heap s q)"
    and "r = Done st \<Longrightarrow> st \<noteq> TRANS_PENDING"
    and "r = Waits d ds st \<Longrightarrow> set (d # ds) \<subseteq> set (depends s p) \<and> st \<noteq> TRANS_PENDING"
proof -
  obtain v where v: "commit_loop (depends s p) TRANS_COMMITTED (upd p (\<lambda>t. t\<lparr>t_sem := v\<rparr>) s) = (r, s')"
    using assms by (auto simp: commit_begin_def Let_def split: option.splits)
  show "q \<noteq> p \<Longrightarrow> t_sem (heap s' q) = t_sem (heap s q)" using commit_loop_sem [OF v, of q] by simp
  show "r = Done st \<Longrightarrow> st \<noteq> TRANS_PENDING" using commit_loop_final v by fastforce
  show "r = Waits d ds st \<Longrightarrow> set (d # ds) \<subseteq> set (depends s p) \<and> st \<noteq> TRANS_PENDING"
    using commit_loop_set v by fastforce
qed

lemma commit_wake_ok:
  assumes "commit_wake d ds st s = (r, s')" "st \<noteq> TRANS_PENDING"
  shows "t_sem (heap s' q) = t_sem (heap s q)"
    and "r = Done st' \<Longrightarrow> st' \<noteq> TRANS_PENDING"
    and "r = Waits d' ds' st' \<Longrightarrow> set (d' # ds') \<subseteq> set (d # ds) \<and> st' \<noteq> TRANS_PENDING"
proof -
  let ?st = "if status s d = TRANS_ABORTED then TRANS_ABORTED else st"
  have "r = Waits d ds st \<and> s' = s \<or> commit_loop ds ?st s = (r, s')"
    using assms(1) unfolding commit_wake_def trans_get_status_def by (metis prod.inject)
  then consider "r = Waits d ds st" "s' = s" | "commit_loop ds ?st s = (r, s')" by blast
  note c = this
  show "t_sem (heap s' q) = t_sem (heap s q)" using c by cases (auto dest: commit_loop_sem)
  show "st' \<noteq> TRANS_PENDING" if "r = Done st'" using c
    by cases (use that assms(2) commit_loop_final [of ds ?st s st' s'] in \<open>auto split: if_splits\<close>)
  show "set (d' # ds') \<subseteq> set (d # ds) \<and> st' \<noteq> TRANS_PENDING" if "r = Waits d' ds' st'" using c
    by cases (use that assms(2) commit_loop_set [of ds ?st s d' ds' st' s'] in \<open>auto split: if_splits\<close>)
qed

lemma abort_step_tman: "abort_step fs s = Ret (fs', s') \<Longrightarrow> tman_inv s \<Longrightarrow> tman_inv s'"
proof (induction fs s rule: abort_step.induct)
  case (4 q fs s)
  obtain v where v: "s' = upd q (\<lambda>t. t\<lparr>t_status := TRANS_ABORTED\<rparr>) (upd q (\<lambda>t. t\<lparr>t_sem := v\<rparr>) s)"
    using 4 by (auto simp: Let_def split: option.splits)
  have "tl.rep s' h xs = tl.rep s h xs" for h xs unfolding v by (rule trans [OF links_upd links_upd]) simp_all
  then show ?case using 4(2) unfolding tman_inv_def v by auto
next
  case (6 q fs s)
  have "tl.rep s' h xs = tl.rep s h xs" for h xs
    using 6(1) unfolding abort_step.simps Let_def trans_unref_def releaseDependents_def tres.inject prod.inject
    by (elim conjE, hypsubst) (rule trans [OF links_upd trans [OF links_upd links_upd]], simp_all add: release_loop_eq)
  moreover have "depends s' p = depends s p" "ntrans s' = ntrans s" for p
    using 6(1) by (cases "p = q", auto simp: Let_def trans_ret_fields)
  ultimately show ?case using 6(2) unfolding tman_inv_def by simp
qed (auto split: if_splits)

lemma abort_step_evolves: "abort_step fs s = Ret (fs', s') \<Longrightarrow> evolves s s' \<and> ntrans s' = ntrans s"
  by (induction fs s rule: abort_step.induct)
     (auto simp: Let_def trans_ret_fields evolves_def split: if_splits option.splits)

text \<open>What is left on the stack, and whose semaphore is taken or given, as the innermost call steps.\<close>

lemma abort_step_cases:
  assumes "abort_step (f # fs) s = Ret (fs', s')" "stack_ok p (f # fs)" "set (depends s (fid f)) \<subseteq> {1..<fid f}"
    and "\<forall>q ds. Deps q ds \<in> set (f # fs) \<longrightarrow> status s q \<noteq> TRANS_PENDING"
  shows "fs' = [] \<longrightarrow> status s' p \<noteq> TRANS_PENDING"
    and "fs' \<noteq> [] \<longrightarrow> stack_ok p fs'"
    and "\<forall>q ds. Deps q ds \<in> set fs' \<longrightarrow> status s' q \<noteq> TRANS_PENDING"
    and "t_sem (heap s' q) = 0 \<Longrightarrow> (\<exists>ds. Deps q ds \<in> set fs') \<or>
      t_sem (heap s q) = 0 \<and> (\<nexists>ds. Deps q ds \<in> set (f # fs))"
proof -
  have l: "fs = [] \<Longrightarrow> fid f = p" "fs \<noteq> [] \<Longrightarrow> stack_ok p fs" using assms(2) by (cases fs; simp)+
  have "(fs' = [] \<longrightarrow> status s' p \<noteq> TRANS_PENDING) \<and> (fs' \<noteq> [] \<longrightarrow> stack_ok p fs') \<and>
    (\<forall>q ds. Deps q ds \<in> set fs' \<longrightarrow> status s' q \<noteq> TRANS_PENDING) \<and>
    (t_sem (heap s' q) = 0 \<longrightarrow> (\<exists>ds. Deps q ds \<in> set fs') \<or>
      t_sem (heap s q) = 0 \<and> (\<nexists>ds. Deps q ds \<in> set (f # fs)))"
  proof (cases f)
    case (Enter r)
    then have "fs' = Check r # fs" "s' = s" using assms(1) by (auto split: if_splits)
    then show ?thesis using Enter assms(4) stack_ok_head [OF assms(2), of "Check r"] by auto
  next
    case (Check r)
    then consider "fs' = Want r # fs" "s' = s" | "fs' = fs" "s' = s" "status s r \<noteq> TRANS_PENDING"
      using assms(1) by (auto simp: trans_get_status_def split: if_splits)
    then show ?thesis using Check assms(4) stack_ok_head [OF assms(2), of "Want r"] l by cases auto
  next
    case (Want r)
    then obtain v where "fs' = Deps r (depends s' r) # fs"
        "s' = upd r (\<lambda>t. t\<lparr>t_status := TRANS_ABORTED\<rparr>) (upd r (\<lambda>t. t\<lparr>t_sem := v\<rparr>) s)"
      using assms(1) by (auto simp: Let_def split: option.splits)
    then show ?thesis using Want assms(3,4) stack_ok_head [OF assms(2), of "Deps r (depends s' r)"] by auto
  next
    case (Deps r ds)
    show ?thesis
    proof (cases ds)
      case Nil
      then have fs': "fs' = fs" and s': "s' = upd r (\<lambda>t. t\<lparr>t_sem := V (t_sem t)\<rparr>) (releaseDependents r (trans_unref r s))"
        using assms(1) Deps by (auto simp: Let_def)
      have st: "status s' q = status s q" for q unfolding s' by (simp add: trans_ret_fields)
      have se: "t_sem (heap s q) = 0" "q \<noteq> r" if "t_sem (heap s' q) = 0"
        using that trans_ret_fields(7) [of "trans_unref r s" q r] unfolding s'
        by (auto simp: V_def trans_ret_fields split: if_splits)
      show ?thesis using Deps assms(4) l st se fs' by auto
    next
      case (Cons d ds')
      have "stack_ok p (Deps r ds' # fs)" "1 \<le> d" "d < r"
        using Deps Cons stack_ok_cons(1) [OF assms(2)] stack_ok_head [OF assms(2), of "Deps r ds'"] by auto
      then have d: "stack_ok p (Enter d # Deps r ds' # fs)" by simp
      from Cons have "fs' = Enter d # Deps r ds' # fs" "s' = s" using assms(1) Deps by auto
      then show ?thesis
        using Deps Cons assms(4) d by (auto simp del: stack_ok.simps)
    qed
  qed
  then show "fs' = [] \<longrightarrow> status s' p \<noteq> TRANS_PENDING" "fs' \<noteq> [] \<longrightarrow> stack_ok p fs'"
    "\<forall>q ds. Deps q ds \<in> set fs' \<longrightarrow> status s' q \<noteq> TRANS_PENDING"
    "t_sem (heap s' q) = 0 \<Longrightarrow> (\<exists>ds. Deps q ds \<in> set fs') \<or>
      t_sem (heap s q) = 0 \<and> (\<nexists>ds. Deps q ds \<in> set (f # fs))"
    by blast+
qed

lemma fsys_inv_abort:
  assumes "fsys_inv c" "fth c p = FAbort b fs" "abort_step fs (ftm c) = Ret (fs', s)"
  shows "fsys_inv \<lparr>ftm = s, fth = (fth c)(p := after_abort b fs')\<rparr>"
proof -
  note i = fsys_invD [OF assms(1)]
  have p: "1 \<le> p" "p \<le> ntrans (ftm c)" using i(2) [of p] assms(2) by simp_all
  have t: "b" "stack_ok p fs" "\<forall>q ds. Deps q ds \<in> set fs \<longrightarrow> status (ftm c) q \<noteq> TRANS_PENDING"
    using i(4) [OF p] assms(2) by (simp_all add: thread_ok_def)
  obtain f gs where f: "fs = f # gs" using t(2) by (cases fs) auto
  note a = abort_step_cases [OF assms(3) [unfolded f] t(2) [unfolded f] i(3) t(3) [unfolded f]]
  have n: "ntrans s = ntrans (ftm c)" using abort_step_evolves [OF assms(3)] by simp
  show ?thesis
  proof (rule fsys_inv_step [OF assms(1)])
    show "tman_inv s" by (rule abort_step_tman [OF assms(3) i(1)])
    show "evolves (ftm c) s" using abort_step_evolves [OF assms(3)] by simp
    show "thread_ok p s (after_abort b fs')" using a(1-3) t(1) by (simp add: thread_ok_def after_abort_def)
    fix q assume q: "1 \<le> q" "q \<le> ntrans s" "t_sem (heap s q) = 0"
    have "holds p (after_abort b fs') q \<longleftrightarrow> (\<exists>ds. Deps q ds \<in> set fs')" using t(1) by (auto simp: holds_def after_abort_def)
    moreover have "holds p (fth c p) q \<longleftrightarrow> (\<exists>ds. Deps q ds \<in> set (f # gs))" unfolding assms(2) f by (simp add: holds_def)
    ultimately show "holds p (after_abort b fs') q \<or>
        q \<le> ntrans (ftm c) \<and> t_sem (heap (ftm c) q) = 0 \<and> \<not> holds p (fth c p) q"
      using a(4) [OF q(3)] q(2) [unfolded n] by blast
  qed (use p n in simp_all)
qed

lemma fsys_inv_create:
  assumes "fsys_inv c" "trans_create (ftm c) = (tp, s)"
  shows "fsys_inv \<lparr>ftm = s, fth = (fth c)(tp := FRun)\<rparr>"
proof -
  note i = fsys_invD [OF assms(1)] and f = trans_create_inv [OF fsys_invD(1) [OF assms(1)] assms(2)]
  have e: "evolves (ftm c) s"
    unfolding evolves_def using f(2,3,5,8,9) by (metis Suc_eq_plus1 empty_subsetI le_SucI list.set(1) not_less_eq_eq order_refl)
  have h: "\<not> holds tp (fth c tp) q" for q using i(2) [of tp] f(2) by (cases "fth c tp = FEnded") (auto simp: holds_def)
  have "t_sem (heap (ftm c) q) = 0 \<and> q \<le> ntrans (ftm c)" if "q \<le> ntrans s" "t_sem (heap s q) = 0" for q
  proof -
    have "q \<noteq> tp" using that(2) f(6) by auto
    then show ?thesis using that f(2,3) f(10) [of q] by simp
  qed
  then show ?thesis
    using f(1-3) e h by (intro fsys_inv_step [OF assms(1)]) (auto simp: thread_ok_def)
qed

lemma fsys_inv_depend:
  assumes "fsys_inv c" "fth c p = FRun" "1 \<le> d" "d < p" "trans_add_dependency p d (ftm c) = Ret s"
  shows "fsys_inv \<lparr>ftm = s, fth = fth c\<rparr>"
proof -
  note i = fsys_invD [OF assms(1)] and f = add_dependency_fields [OF assms(5)]
  have p: "1 \<le> p" "p \<le> ntrans (ftm c)" using i(2) [of p] assms(2) by simp_all
  have t: "tman_inv s" using add_dependency_inv [OF i(1) _ _ assms(5)] p assms(3,4) by simp
  have e: "evolves (ftm c) s" using f assms(3,4) by (simp add: evolves_def)
  have "t_sem (heap s q) = t_sem (heap (ftm c) q)" for q
    using assms(5) by (auto simp: trans_add_dependency_def trans_ref_def Let_def P_def V_def split: option.splits if_splits)
  then have "fsys_inv \<lparr>ftm = s, fth = (fth c)(p := FRun)\<rparr>"
    using t e p f(3) assms(2) by (intro fsys_inv_step [OF assms(1)]) (simp_all add: thread_ok_def holds_def)
  then show ?thesis using assms(2) fun_upd_idem [of "fth c" p] by simp
qed

lemma fsys_inv_reach: "freach own c \<Longrightarrow> fsys_inv c"
proof (induction rule: freach.induct)
  case start
  have "depends tman_empty q = []" for q
    by (simp add: tman_empty_def trans_init_def set_tnext_def set_tprev_def Let_def)
  then show ?case by (simp add: fsys_inv_def fstart_def tman_empty_inv)
next
  case (step c a c')
  note i = fsys_invD [OF step.IH]
  show ?case
  proof (cases a)
    case Create
    then show ?thesis using step fsys_inv_create by (auto split: prod.splits)
  next
    case (Depend p d)
    then show ?thesis using step fsys_inv_depend by (auto split: if_splits tres.splits)
  next
    case (Commit p)
    then obtain r s where r: "fth c p = FRun" "commit_begin p (ftm c) = Some (r, s)" "c' = after_commit p c (r, s)"
      using step by (auto split: if_splits option.splits)
    have p: "1 \<le> p" "p \<le> ntrans (ftm c)" using i(2) [of p] r(1) by simp_all
    show ?thesis
      unfolding r(3) using p commit_begin_ok [OF r(2)] commit_begin_fields(1) [OF r(2)] i(3) [of p] r(1)
      by (intro fsys_inv_after [OF step.IH]) (auto simp: holds_def)
  next
    case (Wake p)
    then obtain d ds st where w: "fth c p = FWait d ds st" "c' = after_commit p c (commit_wake d ds st (ftm c))"
      using step by (auto split: fthread.splits)
    obtain r s where r: "commit_wake d ds st (ftm c) = (r, s)" by fastforce
    have p: "1 \<le> p" "p \<le> ntrans (ftm c)" using i(2) [of p] w(1) by simp_all
    have t: "set (d # ds) \<subseteq> {1..<p}" "st \<noteq> TRANS_PENDING" using i(4) [OF p] w(1) by (simp_all add: thread_ok_def)
    show ?thesis
      unfolding w(2) r using p t commit_wake_ok [OF r t(2)] commit_wake_fields(1) [OF r] w(1)
      by (intro fsys_inv_after [OF step.IH]) (blast | simp add: holds_def)+
  next
    case (Abort p)
    then have r: "fth c p = FRun" "c' = \<lparr>ftm = ftm c, fth = (fth c)(p := FAbort True [Enter p])\<rparr>"
      using step by (auto split: if_splits)
    have p: "1 \<le> p" "p \<le> ntrans (ftm c)" using i(2) [of p] r(1) by simp_all
    show ?thesis
      unfolding r(2) using p i(1) r(1)
      by (intro fsys_inv_step [OF step.IH]) (simp_all add: evolves_refl thread_ok_def holds_def)
  next
    case (StoreAbort p q)
    then show ?thesis using step by simp
  next
    case (Step p)
    then obtain b fs fs' s where "fth c p = FAbort b fs" "abort_step fs (ftm c) = Ret (fs', s)"
        "c' = \<lparr>ftm = s, fth = (fth c)(p := after_abort b fs')\<rparr>"
      using step by (auto split: fthread.splits tres.splits)
    then show ?thesis using fsys_inv_abort [OF step.IH] by simp
  qed
qed

subsection \<open>No deadlock while each thread aborts its own transaction only\<close>

definition busy :: "fthread \<Rightarrow> bool" where
  "busy t \<longleftrightarrow> (case t of FWait _ _ _ \<Rightarrow> True | FAbort _ _ \<Rightarrow> True | _ \<Rightarrow> False)"

text \<open>The transaction a thread needs another thread for: a pending dependency, or one whose semaphore is taken.\<close>

definition needs :: "fsys \<Rightarrow> nat \<Rightarrow> nat \<Rightarrow> bool" where
  "needs c p q \<longleftrightarrow>
     (case fth c p of FWait d ds st \<Rightarrow> q = d \<and> status (ftm c) d = TRANS_PENDING
      | FAbort b (Want r # fs) \<Rightarrow> q = r \<and> t_sem (heap (ftm c) r) = 0 | _ \<Rightarrow> False)"

text \<open>The thread's own step changes its state or ends the server.\<close>

definition moves :: "fsys \<Rightarrow> nat \<Rightarrow> bool" where
  "moves c p \<longleftrightarrow>
     (case fth c p of FWait d ds st \<Rightarrow> (\<exists>c'. fexec (Wake p) c = Ret c' \<and> fth c' p \<noteq> FWait d ds st)
      | FAbort b fs \<Rightarrow> fexec (Step p) c \<noteq> Blocked | _ \<Rightarrow> False)"

lemma busy_needs:
  assumes "fsys_inv c" "busy (fth c p)" "\<not> moves c p"
  obtains q where "needs c p q" "1 \<le> q" "q \<le> p"
proof -
  note i = fsys_invD [OF assms(1)]
  have p: "1 \<le> p" "p \<le> ntrans (ftm c)" using i(2) [of p] assms(2) by (cases "fth c p"; simp add: busy_def)+
  show ?thesis
  proof (cases "fth c p")
    case (FWait d ds st)
    have "thread_ok p (ftm c) (FWait d ds st)" using i(4) [OF p] FWait by simp
    then have d: "1 \<le> d" "d < p" by (auto simp: thread_ok_def)
    obtain r s where r: "commit_wake d ds st (ftm c) = (r, s)" by fastforce
    have "status (ftm c) d = TRANS_PENDING"
    proof (rule ccontr)
      assume n: "status (ftm c) d \<noteq> TRANS_PENDING"
      have "r = Waits d ds st" using assms(3) FWait r by (auto simp: moves_def after_commit_def split: commit_state.splits)
      moreover have "\<And>e es st'. r = Waits e es st' \<Longrightarrow> length es < length ds"
      proof -
        fix e es st' assume "r = Waits e es st'"
        then show "length es < length ds"
          using r n commit_loop_waits [of ds _ "ftm c" e es st' s] by (fastforce simp: commit_wake_def trans_get_status_def)
      qed
      ultimately show False by blast
    qed
    then show ?thesis using that [of d] FWait d by (simp add: needs_def)
  next
    case (FAbort b fs)
    then have t: "stack_ok p fs" using i(4) [OF p] by (simp add: thread_ok_def)
    have b: "abort_step fs (ftm c) = Blocked \<or> abort_step fs (ftm c) = Fuel"
      using assms(3) FAbort by (auto simp: moves_def split: tres.splits)
    obtain q gs where q: "fs = Want q # gs" "P (t_sem (heap (ftm c) q)) = None"
      using b t by (cases "(fs, ftm c)" rule: abort_step.cases) (auto simp: Let_def split: if_splits option.splits)
    then have "needs c p q" using FAbort by (simp add: needs_def P_def split: if_splits)
    then show ?thesis using that [of q] stack_ok_cons(1) [of p "Want q" gs] t q(1) by simp
  qed (use assms(2) in \<open>simp_all add: busy_def\<close>)
qed

text \<open>A taken semaphore is held by a thread that needs, if it cannot move, an older transaction.\<close>

lemma taken_needs:
  assumes "fsys_inv c" "\<And>r. busy (fth c r) \<Longrightarrow> \<not> moves c r" "1 \<le> q" "q \<le> ntrans (ftm c)" "t_sem (heap (ftm c) q) = 0"
  shows "\<exists>r q'. needs c r q' \<and> 1 \<le> q' \<and> q' < q"
proof -
  note i = fsys_invD [OF assms(1)]
  obtain r where r: "holds r (fth c r) q" using i(5) [OF assms(3-5)] by blast
  then have b: "busy (fth c r)" by (cases "fth c r") (simp_all add: holds_def busy_def)
  have t: "thread_ok r (ftm c) (fth c r)" using i(4) [of r] i(2) [of r] b by (cases "fth c r") (simp_all add: busy_def)
  obtain q' where q': "needs c r q'" "1 \<le> q'" "q' \<le> r" by (rule busy_needs [OF assms(1) b assms(2) [OF b]])
  have "q' < q"
  proof (cases "fth c r")
    case (FWait d ds st)
    then show ?thesis using r q'(1) t by (auto simp: holds_def needs_def thread_ok_def)
  next
    case (FAbort b fs)
    then obtain gs where gs: "fs = Want q' # gs" using q'(1) by (auto simp: needs_def split: list.splits frame.splits)
    obtain ds where "Deps q ds \<in> set gs" using r FAbort gs by (auto simp: holds_def)
    then show ?thesis using stack_ok_cons(2) [of r "Want q'" gs "Deps q ds"] t FAbort gs by (simp add: thread_ok_def)
  qed (use b in \<open>simp_all add: busy_def\<close>)
  then show ?thesis using q' by blast
qed

lemma needs_chain:
  assumes "fsys_inv c" "\<And>r. busy (fth c r) \<Longrightarrow> \<not> moves c r" "needs c p q" "1 \<le> q"
  shows "\<exists>d r ds st. fth c d = FRun \<and> fth c r = FWait d ds st"
  using assms(3,4)
proof (induction q arbitrary: p rule: less_induct)
  case (less q)
  note i = fsys_invD [OF assms(1)]
  have b: "busy (fth c p)" using less.prems(1) by (auto simp: needs_def busy_def split: fthread.splits)
  then have p: "1 \<le> p" "p \<le> ntrans (ftm c)" using i(2) [of p] by (cases "fth c p"; simp add: busy_def)+
  have older: ?case if "\<exists>r q'. needs c r q' \<and> 1 \<le> q' \<and> q' < q" using less.IH that by blast
  obtain q' where "needs c p q'" "q' \<le> p" by (rule busy_needs [OF assms(1) b assms(2) [OF b]])
  moreover have "q' = q" if "needs c p q'" for q'
    using that less.prems(1) by (auto simp: needs_def split: fthread.splits list.splits frame.splits)
  ultimately have q: "q \<le> ntrans (ftm c)" using p by auto
  show ?case
  proof (cases "t_sem (heap (ftm c) q) = 0")
    case True
    then show ?thesis using taken_needs [OF assms(1,2) less.prems(2) q] older by blast
  next
    case False
    then obtain ds st where w: "fth c p = FWait q ds st" "status (ftm c) q = TRANS_PENDING"
      using less.prems(1) by (auto simp: needs_def split: fthread.splits list.splits frame.splits)
    show ?thesis
    proof (cases "busy (fth c q)")
      case True
      obtain q' where q': "needs c q q'" "1 \<le> q'" "q' \<le> q" by (rule busy_needs [OF assms(1) True assms(2) [OF True]])
      have "thread_ok q (ftm c) (fth c q)" using i(4) less.prems(2) q by blast
      then have "q' \<noteq> q" using q'(1) False
        by (auto simp: needs_def thread_ok_def split: fthread.splits list.splits frame.splits)
      then show ?thesis using q' older by (metis le_neq_implies_less)
    next
      case False
      have "fth c q \<noteq> FEnded" using i(4) [OF less.prems(2) q] w(2) by (auto simp: thread_ok_def)
      then have "fth c q = FRun" using False by (cases "fth c q") (simp_all add: busy_def)
      then show ?thesis using w(1) by blast
    qed
  qed
qed


lemmas run_simps = fstart_def tman_empty_def trans_init_def trans_create_def add_trans_list_def set_tnext_def
  set_tprev_def trans_list_prev_def trans_ref_def trans_unref_def trans_add_dependency_def dependency_create_def
  commit_begin_def commit_wake_def commit_end_def after_commit_def after_abort_def releaseDependents_def
  release_loop_eq trans_get_status_def P_def V_def Let_def

text \<open>Thread 3 aborts transaction 3 and, with it, transactions 2 and 1, on the last of which a commit waits.\<close>

definition abort_demo :: "act list" where
  "abort_demo = [Create, Create, Create, Depend 2 1, Depend 3 2, Commit 2, Abort 3, Step 3, Step 3, Step 3, Step 3, Step 3, Step 3]"

lemma abort_demo_state:
  "(case frun abort_demo fstart of
      Ret c \<Rightarrow> fth c 2 = FWait 1 [] TRANS_COMMITTED \<and> fth c 3 = FAbort True [Want 2, Deps 3 []] \<and> fth c 1 = FRun
    | _ \<Rightarrow> False) \<and> list_all own abort_demo"
  by (simp add: abort_demo_def run_simps)


subsection \<open>What goes wrong between the steps\<close>

text \<open>
  Transactions 2 and 3 depend on 1; the client of 2 aborts and is in the call on 1, past the test of its status, when
  1 and then 3 commit.
\<close>

definition overwrite_demo :: "act list" where
  "overwrite_demo = [Create, Create, Create, Depend 2 1, Depend 3 1, Abort 2, Step 2, Step 2, Step 2, Step 2, Step 2, Step 2,
     Commit 1, Commit 3]"

lemma overwrite_demo_state:
  "(case frun overwrite_demo fstart of
      Ret c \<Rightarrow> status (ftm c) 1 = TRANS_COMMITTED \<and> status (ftm c) 3 = TRANS_COMMITTED \<and>
        (case frun [Step 2] c of
           Ret c \<Rightarrow> status (ftm c) 1 = TRANS_ABORTED \<and> status (ftm c) 3 = TRANS_COMMITTED \<and> depends (ftm c) 3 = [1]
         | _ \<Rightarrow> False)
    | _ \<Rightarrow> False) \<and> list_all own overwrite_demo"
  by (simp add: overwrite_demo_def run_simps)

text \<open>C34: a commit can be undone: \<open>trans_abort\<close> tests the status before it takes the semaphore and not after, so that
  it overwrites the status of a transaction that commits in between; the transaction is then aborted, while one that
  depends on it has committed. Each thread aborts its own transaction only.\<close>

theorem commit_overwritten:
  "\<exists>c c'. freach own c \<and> fexec (Step 2) c = Ret c' \<and> status (ftm c) 1 = TRANS_COMMITTED \<and>
     status (ftm c') 1 = TRANS_ABORTED \<and> status (ftm c') 3 = TRANS_COMMITTED \<and> 1 \<in> set (depends (ftm c') 3)"
proof -
  obtain c where c: "frun overwrite_demo fstart = Ret c" "status (ftm c) 1 = TRANS_COMMITTED"
      "case frun [Step 2] c of
           Ret c \<Rightarrow> status (ftm c) 1 = TRANS_ABORTED \<and> status (ftm c) 3 = TRANS_COMMITTED \<and> depends (ftm c) 3 = [1]
         | _ \<Rightarrow> False"
    using overwrite_demo_state by (auto split: tres.splits)
  have r: "freach own c" by (rule frun_reach [OF freach.start _ c(1)]) (use overwrite_demo_state in simp)
  obtain c' where "frun [Step 2] c = Ret c'" using c(3) by (auto split: tres.splits)
  then have c': "fexec (Step 2) c = Ret c'" by (simp split: tres.splits)
  then have "status (ftm c') 1 = TRANS_ABORTED \<and> status (ftm c') 3 = TRANS_COMMITTED \<and> 1 \<in> set (depends (ftm c') 3)"
    using c(3) by simp
  then show ?thesis using r c' c(2) by blast
qed

text \<open>
  Transaction 2 depends on 1 and commits, so its thread waits for 1 and holds the semaphore of 2; an operation of client
  1 on the store then aborts transaction 2.
\<close>

definition deadlock_demo :: "act list" where
  "deadlock_demo = [Create, Create, Depend 2 1, Commit 2, StoreAbort 1 2, Step 1, Step 1]"

lemma deadlock_demo_state:
  "case frun deadlock_demo fstart of
      Ret c \<Rightarrow> fth c 1 = FAbort False [Want 2] \<and> fth c 2 = FWait 1 [] TRANS_COMMITTED \<and>
        status (ftm c) 1 = TRANS_PENDING \<and> t_sem (heap (ftm c) 2) = 0 \<and>
        (\<forall>p. p \<noteq> 1 \<and> p \<noteq> 2 \<longrightarrow> fth c p = FEnded)
    | _ \<Rightarrow> False"
  by (simp add: deadlock_demo_def run_simps)

text \<open>C35: the promise fails once the store aborts transactions of other clients, as \<open>store.h\<close> has it do: a client can
  wait for the semaphore of a transaction whose own thread holds it while it waits for that client's transaction. No
  action of the clients then changes anything, and none is possible but the second thread's test of the status.\<close>

theorem store_abort_deadlock:
  "\<exists>c. freach (\<lambda>_. True) c \<and> fth c 1 = FAbort False [Want 2] \<and> fth c 2 = FWait 1 [] TRANS_COMMITTED \<and>
     (\<forall>a. a = Create \<or> a = Wake 2 \<and> fexec a c = Ret c \<or> fexec a c = Blocked)"
proof -
  obtain c where c: "frun deadlock_demo fstart = Ret c" and t: "fth c 1 = FAbort False [Want 2]"
      "fth c 2 = FWait 1 [] TRANS_COMMITTED" "status (ftm c) 1 = TRANS_PENDING" "t_sem (heap (ftm c) 2) = 0"
      "\<forall>p. p \<noteq> 1 \<and> p \<noteq> 2 \<longrightarrow> fth c p = FEnded"
    using deadlock_demo_state by (auto split: tres.splits)
  have e: "fth c p = FAbort False [Want 2] \<and> p = 1 \<or> fth c p = FWait 1 [] TRANS_COMMITTED \<and> p = 2 \<or> fth c p = FEnded" for p
    using t by (cases "p = 1 \<or> p = 2") auto
  have "a = Create \<or> a = Wake 2 \<and> fexec a c = Ret c \<or> fexec a c = Blocked" for a
  proof (cases a)
    case (Wake p)
    have "fexec (Wake 2) c = Ret c"
      using t(2,3) fun_upd_idem [of "fth c" 2] by (simp add: after_commit_def commit_wake_def trans_get_status_def)
    then show ?thesis using Wake e [of p] by auto
  next
    case (Step p)
    then show ?thesis using e [of p] t(4) by (auto simp: P_def)
  next
    case (Depend p d)
    then show ?thesis using e [of p] by auto
  next
    case (Commit p)
    then show ?thesis using e [of p] by auto
  next
    case (Abort p)
    then show ?thesis using e [of p] by auto
  next
    case (StoreAbort p q)
    then show ?thesis using e [of p] by auto
  qed simp
  moreover have "freach (\<lambda>_. True) c" by (rule frun_reach [OF freach.start _ c]) (simp add: deadlock_demo_def)
  ultimately show ?thesis using t(1,2) by blast
qed

end
