(* ===== verification/Server_Csapp.thy ===== *)
theory Server_Csapp
  imports Server_Proto
begin

section \<open>Server store: buffered I/O, numbers and sockets of the helper library\<close>

text \<open>
  The parts of \<open>Server Store/src/csapp.c\<close> with logic of their own, beside \<open>rio_readn\<close> and \<open>rio_writen\<close> in
  \<open>Server_Proto\<close>: the buffered reads of \<open>rio_t\<close>, the printing of a number in a signal handler, and the opening of
  sockets. The kernel delivers bytes as in \<open>Server_Proto\<close>; what the calls of the socket interface return is
  an argument.
\<close>

subsection \<open>The read buffer\<close>

abbreviation RIO_BUFSIZE :: nat where "RIO_BUFSIZE \<equiv> 8192"

text \<open>\<open>rio_bufptr\<close> is the offset of the pointer in the buffer; \<open>rio_fd\<close> is the connection, whose events are an argument.\<close>

record rio_t =
  rio_cnt :: int
  rio_bufptr :: nat
  rio_buf :: "u8 list"

definition rio_readinitb :: "rio_t \<Rightarrow> rio_t" where
  "rio_readinitb rp = (let rp = rp\<lparr>rio_cnt := 0\<rparr> in rp\<lparr>rio_bufptr := 0\<rparr>)"

text \<open>The loop of \<open>rio_read\<close>: 1 when there are bytes in the buffer, otherwise the value returned.\<close>

fun rio_fill :: "rio_t \<Rightarrow> read_event list \<Rightarrow> int \<times> rio_t \<times> read_event list" where
  "rio_fill rp es =
     (if rio_cnt rp > 0 then (1, rp, es)
      else case es of
          [] \<Rightarrow> (0, rp\<lparr>rio_cnt := 0\<rparr>, [])
        | RIntr # es \<Rightarrow> rio_fill (rp\<lparr>rio_cnt := -1\<rparr>) es
        | RErr # es \<Rightarrow> (-1, rp\<lparr>rio_cnt := -1\<rparr>, es)
        | Chunk b bs # es \<Rightarrow>
            (let (d, es) = take_chunk RIO_BUFSIZE (b # bs) es
             in (1, rp\<lparr>rio_cnt := int (length d), rio_buf := d @ drop (length d) (rio_buf rp), rio_bufptr := 0\<rparr>, es)))"

definition rio_read :: "rio_t \<Rightarrow> nat \<Rightarrow> read_event list \<Rightarrow> int \<times> u8 list \<times> rio_t \<times> read_event list" where
  "rio_read rp n es =
     (case rio_fill rp es of (r, rp, es) \<Rightarrow>
        if r \<le> 0 then (r, [], rp, es)
        else
          (let cnt = (if rio_cnt rp < int n then nat (rio_cnt rp) else n);
               usrbuf = take cnt (drop (rio_bufptr rp) (rio_buf rp));
               rp = rp\<lparr>rio_bufptr := rio_bufptr rp + cnt\<rparr>
           in (int cnt, usrbuf, rp\<lparr>rio_cnt := rio_cnt rp - int cnt\<rparr>, es)))"

text \<open>\<open>got\<close> is what the buffer of the caller holds so far.\<close>

function readnb_loop :: "nat \<Rightarrow> u8 list \<Rightarrow> rio_t \<Rightarrow> read_event list \<Rightarrow> int \<times> u8 list \<times> rio_t \<times> read_event list" where
  "readnb_loop nleft got rp es =
     (if nleft = 0 then (int (length got), got, rp, es)
      else case rio_read rp nleft es of (nread, d, rp, es) \<Rightarrow>
        if nread < 0 then (-1, got, rp, es)
        else if nread = 0 then (int (length got), got, rp, es)
        else readnb_loop (nleft - nat nread) (got @ d) rp es)"
  by pat_completeness auto
termination by (relation "measure (\<lambda>(n, _). n)") auto

definition rio_readnb :: "rio_t \<Rightarrow> nat \<Rightarrow> read_event list \<Rightarrow> int \<times> u8 list \<times> rio_t \<times> read_event list" where
  "rio_readnb rp n es = readnb_loop n [] rp es"

text \<open>\<open>k\<close> rounds of the loop are left; the result tells whether the loop was left by a \<open>return\<close>.\<close>

fun readline_loop :: "nat \<Rightarrow> u8 list \<Rightarrow> rio_t \<Rightarrow> read_event list \<Rightarrow> bool \<times> int \<times> u8 list \<times> rio_t \<times> read_event list" where
  "readline_loop 0 got rp es = (False, int (length got), got, rp, es)"
| "readline_loop (Suc k) got rp es =
     (case rio_read rp 1 es of (rc, d, rp, es) \<Rightarrow>
        if rc = 1 then
          (if d = [10] then (False, int (length (got @ d)), got @ d, rp, es) else readline_loop k (got @ d) rp es)
        else if rc = 0 then
          (if got = [] then (True, 0, got, rp, es) else (False, int (length got), got, rp, es))
        else (True, -1, got, rp, es))"

definition rio_readlineb :: "rio_t \<Rightarrow> nat \<Rightarrow> read_event list \<Rightarrow> int \<times> u8 list \<times> rio_t \<times> read_event list" where
  "rio_readlineb rp maxlen es =
     (case readline_loop (maxlen - 1) [] rp es of (returned, r, got, rp, es) \<Rightarrow>
        if returned then (r, got, rp, es) else (r, got @ [0], rp, es))"

declare rio_fill.simps [simp del] readnb_loop.simps [simp del]

subsection \<open>Printing a number in a signal handler\<close>

text \<open>A string is the list of its characters before the NUL. \<open>sio_ltoa\<close> is only called with the base 10.\<close>

function reverse_loop :: "int \<Rightarrow> int \<Rightarrow> u8 list \<Rightarrow> u8 list" where
  "reverse_loop i j s =
     (if i < j then reverse_loop (i + 1) (j - 1) (s[nat i := s ! nat j, nat j := s ! nat i]) else s)"
  by pat_completeness auto
termination by (relation "measure (\<lambda>(i, j, s). nat (j - i))") auto

definition sio_reverse :: "u8 list \<Rightarrow> u8 list" where
  "sio_reverse s = reverse_loop 0 (int (length s) - 1) s"

abbreviation base10 :: int where "base10 \<equiv> 10"

lemma sdiv_pos_less: "0 < v sdiv base10 \<Longrightarrow> v sdiv base10 < v \<and> 0 < v"
  by (auto simp: signed_divide_int_def sgn_if split: if_splits)

function ltoa_loop :: "int \<Rightarrow> u8 list" where
  "ltoa_loop v =
     (let c = v smod base10; d = (if c < 10 then word_of_int (c + 48) else word_of_int (c - 10 + 97))
      in if v sdiv base10 > 0 then d # ltoa_loop (v sdiv base10) else [d])"
  by pat_completeness auto
termination using sdiv_pos_less by (relation "measure nat") fastforce+

definition sio_ltoa :: "64 word \<Rightarrow> u8 list" where
  "sio_ltoa v =
     (let neg = sint v < 0;
          v = (if neg then - v else v);
          s = ltoa_loop (sint v);
          s = (if neg then s @ [45] else s)
      in sio_reverse s)"

text \<open>What \<open>sio_putl\<close> gives to \<open>write\<close>.\<close>

fun sio_strlen_loop :: "u8 list \<Rightarrow> nat \<Rightarrow> nat" where
  "sio_strlen_loop [] i = i"
| "sio_strlen_loop (c # s) i = (if c \<noteq> 0 then sio_strlen_loop s (i + 1) else i)"

definition sio_strlen :: "u8 list \<Rightarrow> nat" where
  "sio_strlen s = sio_strlen_loop s 0"

definition sio_puts :: "u8 list \<Rightarrow> u8 list" where
  "sio_puts s = take (sio_strlen s) s"

definition sio_putl :: "64 word \<Rightarrow> u8 list" where
  "sio_putl v = (let s = sio_ltoa v in sio_puts s)"

declare reverse_loop.simps [simp del] ltoa_loop.simps [simp del]

subsection \<open>Opening sockets\<close>

text \<open>
  What \<open>socket\<close>, \<open>bind\<close> or \<open>connect\<close>, and \<open>close\<close> return for an address that \<open>getaddrinfo\<close> lists. The descriptors
  that are open are kept; \<open>close\<close> releases one even when it reports an error.
\<close>

record addrinfo =
  ai_socket :: int
  ai_ready :: bool
  ai_close :: int

datatype walk = Got int | NoAddress | CloseFailed

fun addr_walk :: "addrinfo list \<Rightarrow> int list \<Rightarrow> walk \<times> int list" where
  "addr_walk [] fs = (NoAddress, fs)"
| "addr_walk (p # ps) fs =
     (if ai_socket p < 0 then addr_walk ps fs
      else if ai_ready p then (Got (ai_socket p), ai_socket p # fs)
      else if ai_close p < 0 then (CloseFailed, fs)
      else addr_walk ps fs)"

text \<open>The result, the open descriptors, and whether the list of addresses has been freed.\<close>

definition open_clientfd :: "int \<Rightarrow> addrinfo list \<Rightarrow> int list \<Rightarrow> int \<times> int list \<times> bool" where
  "open_clientfd rc listp fs =
     (if rc \<noteq> 0 then (-2, fs, True)
      else case addr_walk listp fs of
          (CloseFailed, fs) \<Rightarrow> (-1, fs, False)
        | (NoAddress, fs) \<Rightarrow> (-1, fs, True)
        | (Got clientfd, fs) \<Rightarrow> (clientfd, fs, True))"

definition open_listenfd :: "int \<Rightarrow> addrinfo list \<Rightarrow> int \<Rightarrow> int list \<Rightarrow> int \<times> int list \<times> bool" where
  "open_listenfd rc listp listening fs =
     (if rc \<noteq> 0 then (-2, fs, True)
      else case addr_walk listp fs of
          (CloseFailed, fs) \<Rightarrow> (-1, fs, False)
        | (NoAddress, fs) \<Rightarrow> (-1, fs, True)
        | (Got listenfd, fs) \<Rightarrow>
            if listening < 0 then (-1, remove1 listenfd fs, True) else (listenfd, fs, True))"

subsection \<open>The buffer and the stream\<close>

definition unread :: "rio_t \<Rightarrow> u8 list" where
  "unread rp = take (nat (rio_cnt rp)) (drop (rio_bufptr rp) (rio_buf rp))"

definition rio_ok :: "rio_t \<Rightarrow> bool" where
  "rio_ok rp \<longleftrightarrow> length (rio_buf rp) = RIO_BUFSIZE \<and> rio_bufptr rp + nat (rio_cnt rp) \<le> RIO_BUFSIZE"

definition rio_data :: "rio_t \<Rightarrow> read_event list \<Rightarrow> u8 list" where
  "rio_data rp es = unread rp @ stream es"

lemma unread_empty: "rio_cnt rp \<le> 0 \<Longrightarrow> unread rp = []"
  by (simp add: unread_def)

lemma fill_spec:
  assumes "rio_ok rp" "RErr \<notin> set es" "rio_fill rp es = (r, rp', es')"
  shows "rio_ok rp' \<and> RErr \<notin> set es' \<and> rio_data rp' es' = rio_data rp es \<and>
    (if rio_data rp es = [] then r = 0 else r = 1 \<and> 0 < rio_cnt rp')"
  using assms
proof (induction es arbitrary: rp)
  case Nil
  then show ?case by (auto simp: rio_fill.simps rio_ok_def rio_data_def unread_def split: if_splits)
next
  case (Cons e es)
  show ?case
  proof (cases "rio_cnt rp > 0")
    case True
    then have "unread rp \<noteq> []" using Cons.prems(1) by (auto simp: unread_def rio_ok_def)
    then show ?thesis using Cons.prems True by (auto simp: rio_fill.simps rio_data_def)
  next
    case False
    then have u: "unread rp = []" by (simp add: unread_empty)
    show ?thesis
    proof (cases e)
      case (Chunk b bs)
      obtain d es1 where d: "take_chunk RIO_BUFSIZE (b # bs) es = (d, es1)" by fastforce
      note c = take_chunk_stream [OF d]
      have l: "0 < length d" "length d \<le> RIO_BUFSIZE" using c(2) by simp_all
      have x: "r = 1" "rp' = rp\<lparr>rio_cnt := int (length d), rio_buf := d @ drop (length d) (rio_buf rp), rio_bufptr := 0\<rparr>" "es' = es1"
        using Cons.prems(3) False Chunk d by (simp_all add: rio_fill.simps [of rp "Chunk b bs # es"])
      have "unread rp' = d" by (simp add: x(2) unread_def)
      then show ?thesis
        using Cons.prems(1,2) Chunk c l u by (auto simp: x rio_ok_def rio_data_def)
    next
      case RIntr
      have "rio_ok (rp\<lparr>rio_cnt := -1\<rparr>)" "unread (rp\<lparr>rio_cnt := -1\<rparr>) = []" using Cons.prems(1) by (auto simp: rio_ok_def unread_def)
      then show ?thesis
        using Cons.IH [of "rp\<lparr>rio_cnt := -1\<rparr>"] Cons.prems RIntr False u by (simp add: rio_fill.simps [of rp "RIntr # es"] rio_data_def)
    qed (use Cons.prems in simp)
  qed
qed

lemma read_spec:
  assumes "rio_ok rp" "RErr \<notin> set es" "0 < n" "rio_read rp n es = (r, d, rp', es')"
  shows "rio_ok rp'" "RErr \<notin> set es'" "r = int (length d)" "d @ rio_data rp' es' = rio_data rp es" "length d \<le> n"
    and "d = [] \<longleftrightarrow> rio_data rp es = []"
proof -
  obtain r1 rp1 es1 where f: "rio_fill rp es = (r1, rp1, es1)" by (cases "rio_fill rp es") auto
  note s = fill_spec [OF assms(1,2) f]
  have "rio_ok rp' \<and> RErr \<notin> set es' \<and> r = int (length d) \<and> d @ rio_data rp' es' = rio_data rp es \<and> length d \<le> n \<and> (d = [] \<longleftrightarrow> rio_data rp es = [])"
  proof (cases "rio_data rp es = []")
    case True
    then show ?thesis using s assms(4) f by (simp add: rio_read_def)
  next
    case False
    then have r1: "r1 = 1" "0 < rio_cnt rp1" using s by auto
    define cnt where "cnt = (if rio_cnt rp1 < int n then nat (rio_cnt rp1) else n)"
    have cl: "0 < cnt" "cnt \<le> n" "cnt \<le> nat (rio_cnt rp1)" using r1(2) assms(3) by (auto simp: cnt_def)
    have ok1: "length (rio_buf rp1) = RIO_BUFSIZE" "rio_bufptr rp1 + nat (rio_cnt rp1) \<le> RIO_BUFSIZE" using s by (simp_all add: rio_ok_def)
    have x: "r = int cnt" "d = take cnt (drop (rio_bufptr rp1) (rio_buf rp1))" "es' = es1"
      "rp' = rp1\<lparr>rio_bufptr := rio_bufptr rp1 + cnt, rio_cnt := rio_cnt rp1 - int cnt\<rparr>"
      using assms(4) f r1 by (auto simp: rio_read_def Let_def cnt_def)
    have u: "d @ unread rp' = unread rp1"
    proof -
      have "nat (rio_cnt rp1 - int cnt) = nat (rio_cnt rp1) - cnt" using cl(3) by simp
      moreover have "drop (rio_bufptr rp1 + cnt) (rio_buf rp1) = drop cnt (drop (rio_bufptr rp1) (rio_buf rp1))" by (simp add: add.commute)
      ultimately show ?thesis
        using cl(3) take_add [of cnt "nat (rio_cnt rp1) - cnt" "drop (rio_bufptr rp1) (rio_buf rp1)"]
        by (simp add: x(2,4) unread_def del: drop_drop)
    qed
    then have "d @ rio_data rp' es' = rio_data rp1 es1" by (simp add: rio_data_def x(3) flip: append_assoc)
    moreover have "length d = cnt" using cl ok1 by (simp add: x(2))
    moreover have "rio_ok rp'" using ok1 cl r1(2) by (auto simp: x(4) rio_ok_def)
    ultimately show ?thesis using s x(1,3) cl False by auto
  qed
  then show "rio_ok rp'" "RErr \<notin> set es'" "r = int (length d)" "d @ rio_data rp' es' = rio_data rp es" "length d \<le> n"
    "d = [] \<longleftrightarrow> rio_data rp es = []" by simp_all
qed

lemma readnb_spec:
  assumes "rio_ok rp" "RErr \<notin> set es"
  shows "\<exists>rp' es'. readnb_loop n got rp es =
      (int (length got + min n (length (rio_data rp es))), got @ take n (rio_data rp es), rp', es') \<and>
    rio_ok rp' \<and> RErr \<notin> set es' \<and> rio_data rp' es' = drop n (rio_data rp es)"
  using assms
proof (induction n arbitrary: got rp es rule: less_induct)
  case (less n)
  show ?case
  proof (cases "n = 0")
    case True
    then show ?thesis using less.prems by (simp add: readnb_loop.simps)
  next
    case False
    obtain r d rp1 es1 where rd: "rio_read rp n es = (r, d, rp1, es1)" by (cases "rio_read rp n es") auto
    note s = read_spec [OF less.prems _ rd] 
    have n: "0 < n" using False by simp
    show ?thesis
    proof (cases "d = []")
      case True
      then show ?thesis using s [OF n] rd False by (simp add: readnb_loop.simps)
    next
      case d: False
      then have "n - length d < n" using n by simp
      from less.IH [OF this s(1,2) [OF n], of "got @ d"] obtain rp' es' where
        l: "readnb_loop (n - length d) (got @ d) rp1 es1 =
          (int (length (got @ d) + min (n - length d) (length (rio_data rp1 es1))), (got @ d) @ take (n - length d) (rio_data rp1 es1), rp', es')"
        "rio_ok rp'" "RErr \<notin> set es'" "rio_data rp' es' = drop (n - length d) (rio_data rp1 es1)" by blast
      have e: "rio_data rp es = d @ rio_data rp1 es1" "length d \<le> n" "r = int (length d)" using s [OF n] by simp_all
      have "readnb_loop n got rp es = readnb_loop (n - length d) (got @ d) rp1 es1"
        using rd d False e(3) by (simp add: readnb_loop.simps [of n])
      then show ?thesis using l e by (auto simp: min_def)
    qed
  qed
qed

text \<open>The first line of the data, at most \<open>k\<close> bytes of it, with its newline.\<close>

definition line_of :: "nat \<Rightarrow> u8 list \<Rightarrow> u8 list" where
  "line_of k bs = take k (takeWhile (\<lambda>b. b \<noteq> 10) bs @ take 1 (dropWhile (\<lambda>b. b \<noteq> 10) bs))"

lemma line_of_simps [simp]:
  "line_of 0 bs = []" "line_of k [] = []" "line_of (Suc k) (b # bs) = b # (if b = 10 then [] else line_of k bs)"
  by (simp_all add: line_of_def)

lemma readline_spec:
  assumes "rio_ok rp" "RErr \<notin> set es"
  shows "\<exists>rp' es'. readline_loop k got rp es =
      (k \<noteq> 0 \<and> got = [] \<and> rio_data rp es = [], int (length (got @ line_of k (rio_data rp es))), got @ line_of k (rio_data rp es), rp', es') \<and>
    rio_ok rp' \<and> RErr \<notin> set es' \<and> rio_data rp' es' = drop (length (line_of k (rio_data rp es))) (rio_data rp es)"
  using assms
proof (induction k arbitrary: got rp es)
  case (Suc k)
  obtain r d rp1 es1 where rd: "rio_read rp 1 es = (r, d, rp1, es1)" by (cases "rio_read rp 1 es") auto
  note s = read_spec [OF Suc.prems _ rd, simplified]
  show ?case
  proof (cases "rio_data rp es")
    case Nil
    then show ?thesis using s rd by simp
  next
    case (Cons b bs)
    then have "d \<noteq> []" using s(6) by simp
    then have d: "d = [b]" "rio_data rp1 es1 = bs" "r = 1" using s(3,4,5) Cons by (cases d; simp)+
    show ?thesis
    proof (cases "b = 10")
      case True
      then show ?thesis using rd d s(1,2) Cons by simp
    next
      case False
      then show ?thesis using Suc.IH [OF s(1,2), of "got @ [b]"] rd d Cons by simp
    qed
  qed
qed simp

subsection \<open>Reversing and printing\<close>

lemma reverse_loop_mid:
  "reverse_loop (int (length pre)) (int (length pre + length m) - 1) (pre @ m @ post) = pre @ rev m @ post"
proof (induction "length m" arbitrary: pre m post rule: less_induct)
  case less
  show ?case
  proof (cases "length m < 2")
    case True
    then show ?thesis by (cases m) (auto simp: reverse_loop.simps)
  next
    case False
    obtain x r where "m = x # r" using False by (cases m) auto
    moreover obtain q y where "r = q @ [y]" using False calculation by (cases r rule: rev_cases) auto
    ultimately have m: "m = x # q @ [y]" by simp
    have n: "nat (int (length pre + length m) - 1) = length pre + Suc (length q)" by (simp add: m)
    have swap: "(pre @ m @ post)[length pre := y, length pre + Suc (length q) := x] = (pre @ [y]) @ q @ ([x] @ post)"
      by (simp add: m list_update_append)
    have at: "(pre @ m @ post) ! length pre = x" "(pre @ m @ post) ! (length pre + Suc (length q)) = y"
      by (simp_all add: m nth_append)
    have ij: "int (length pre) < int (length pre + length m) - 1" "int (length pre) + 1 = int (length (pre @ [y]))"
      "int (length pre + length m) - 1 - 1 = int (length (pre @ [y]) + length q) - 1" by (simp_all add: m)
    have "reverse_loop (int (length pre)) (int (length pre + length m) - 1) (pre @ m @ post) =
        reverse_loop (int (length pre) + 1) (int (length pre + length m) - 1 - 1)
          ((pre @ m @ post)[length pre := y, length pre + Suc (length q) := x])"
      by (subst reverse_loop.simps) (simp only: ij(1) n at nat_int if_True)
    also have "\<dots> = reverse_loop (int (length (pre @ [y]))) (int (length (pre @ [y]) + length q) - 1) ((pre @ [y]) @ q @ ([x] @ post))"
      by (simp only: swap ij(2,3))
    also have "\<dots> = (pre @ [y]) @ rev q @ ([x] @ post)" by (rule less) (simp add: m)
    finally show ?thesis by (simp add: m)
  qed
qed

lemma sio_reverse_rev: "sio_reverse s = rev s"
  using reverse_loop_mid [of "[]" s "[]"] by (simp add: sio_reverse_def)

text \<open>The number that digits denote, the first one the most significant, and a number with a sign.\<close>

definition dec :: "u8 list \<Rightarrow> int" where
  "dec s = foldl (\<lambda>a c. 10 * a + (uint c - 48)) 0 s"

definition read_dec :: "u8 list \<Rightarrow> int" where
  "read_dec s = (case s of [] \<Rightarrow> 0 | c # cs \<Rightarrow> if c = 45 then - dec cs else dec s)"

definition digit :: "int \<Rightarrow> u8" where
  "digit c = word_of_int (c + 48)"

lemma digit_val: "0 \<le> c \<Longrightarrow> c < 10 \<Longrightarrow> uint (digit c) = c + 48"
  unfolding digit_def uint_word_of_int by simp

lemma ltoa_nonneg:
  assumes "0 \<le> v"
  shows "ltoa_loop v = (if v < 10 then [digit v] else digit (v mod 10) # ltoa_loop (v div 10))"
proof -
  have "v smod 10 = v mod 10" "v sdiv 10 = v div 10"
    using assms by (cases "v = 0"; simp add: signed_divide_int_def signed_modulo_int_def)+
  moreover have "v mod 10 < 10" by simp
  moreover have "0 < v div 10 \<longleftrightarrow> \<not> v < 10" "v < 10 \<Longrightarrow> v mod 10 = v" using assms by (simp_all add: pos_imp_zdiv_pos_iff not_less)
  ultimately show ?thesis by (subst ltoa_loop.simps) (simp add: Let_def digit_def del: of_int_add)
qed

lemma ltoa_digits:
  "0 \<le> v \<Longrightarrow> v < 10 ^ k \<Longrightarrow> 0 < k \<Longrightarrow>
   dec (rev (ltoa_loop v)) = v \<and> length (ltoa_loop v) \<le> k \<and> ltoa_loop v \<noteq> [] \<and> (\<forall>c\<in>set (ltoa_loop v). 48 \<le> uint c \<and> uint c \<le> 57)"
proof (induction k arbitrary: v)
  case (Suc k)
  show ?case
  proof (cases "v < 10")
    case True
    then show ?thesis using Suc.prems(1) by (simp add: ltoa_nonneg dec_def digit_val)
  next
    case False
    have k: "0 < k" using Suc.prems(2) False by (cases k) auto
    have d: "0 \<le> v div 10" "v div 10 < 10 ^ k" using Suc.prems by (simp_all add: div_less_iff_less_mult pos_imp_zdiv_nonneg_iff mult.commute)
    note i = Suc.IH [OF d k]
    have m: "0 \<le> v mod 10" "v mod 10 < 10" by simp_all
    show ?thesis
      using i False Suc.prems(1) digit_val [OF m] m by (simp add: ltoa_nonneg [of v] dec_def)
  qed
qed simp

lemma strlen_all: "0 \<notin> set s \<Longrightarrow> sio_strlen s = length s"
proof -
  have "0 \<notin> set s \<Longrightarrow> sio_strlen_loop s i = i + length s" for i by (induction s arbitrary: i) auto
  then show "0 \<notin> set s \<Longrightarrow> sio_strlen s = length s" by (simp add: sio_strlen_def)
qed

lemma putl_eq: "0 \<notin> set (sio_ltoa v) \<Longrightarrow> sio_putl v = sio_ltoa v"
  by (simp add: sio_putl_def sio_puts_def strlen_all Let_def)

lemma sint_range64: "- (2 ^ 63) \<le> sint (v :: 64 word)" "sint v < 2 ^ 63"
  using sint_ge [of v] sint_less [of v] by simp_all

lemma sint_neg64: "sint (v :: 64 word) \<noteq> - (2 ^ 63) \<Longrightarrow> sint (- v) = - sint v"
proof -
  assume "sint v \<noteq> - (2 ^ 63)"
  then have "- (2 ^ 63) \<le> - sint v" "- sint v < 2 ^ 63" using sint_range64 [of v] by linarith+
  moreover have "sint (- v) = signed_take_bit 63 (- sint v)" by (simp add: sint_word_ariths)
  ultimately show ?thesis by (simp add: signed_take_bit_int_eq_self)
qed

lemma ltoa_min: "ltoa_loop (- (2 ^ 63)) = [40]"
  by (subst ltoa_loop.simps) (simp add: Let_def)

lemma dec_minus: "c \<in> set s \<Longrightarrow> 48 \<le> uint (c :: u8) \<Longrightarrow> c \<noteq> 45 \<and> c \<noteq> 0"
  by auto

lemma ltoa_pos:
  assumes "0 \<le> sint v"
  shows "read_dec (sio_putl v) = sint v \<and> length (sio_putl v) \<le> 19"
proof -
  let ?s = "ltoa_loop (sint v)"
  have "sint v < 10 ^ 19" using sint_range64(2) [of v] by simp
  note d = ltoa_digits [OF assms this, simplified]
  have nz: "\<forall>c\<in>set ?s. c \<noteq> 45 \<and> c \<noteq> 0" using d by auto
  have l: "sio_ltoa v = rev ?s" using assms by (simp add: sio_ltoa_def sio_reverse_rev)
  then have p: "sio_putl v = rev ?s" using putl_eq [of v] nz by auto
  have "hd (rev ?s) \<in> set ?s" using d by (metis hd_in_set rev_is_Nil_conv set_rev)
  then have "read_dec (rev ?s) = dec (rev ?s)" using nz d by (cases "rev ?s") (auto simp: read_dec_def)
  then show ?thesis using p d by simp
qed

lemma ltoa_neg:
  assumes "sint v < 0" "sint v \<noteq> - (2 ^ 63)"
  shows "read_dec (sio_putl v) = sint v \<and> length (sio_putl v) \<le> 20"
proof -
  let ?s = "ltoa_loop (- sint v)"
  have n: "0 \<le> - sint v" "- sint v < 10 ^ 19" using assms(1) sint_range64(1) [of v] by simp_all
  note d = ltoa_digits [OF n, simplified]
  have l: "sio_ltoa v = 45 # rev ?s"
    using assms(1) sint_neg64 [OF assms(2)] by (simp add: sio_ltoa_def sio_reverse_rev)
  have "0 \<notin> set ?s" using d by auto
  then have p: "sio_putl v = 45 # rev ?s" using putl_eq [of v] l by simp
  then show ?thesis using d by (simp add: read_dec_def)
qed

subsection \<open>Properties\<close>

text \<open>C32: buffering is invisible: over a connection without read errors, and whatever chunks the kernel delivers, a
  buffered read returns the count and the bytes that \<open>rio_readn\<close> returns when the bytes still in the buffer
  come first, and afterwards the same bytes are left to read.\<close>

theorem buffering_invisible:
  assumes "rio_ok rp" "RErr \<notin> set es" "RErr \<notin> set es0" "stream es0 = unread rp @ stream es"
  shows "\<exists>r d rp' es' es0'. rio_readnb rp n es = (r, d, rp', es') \<and> rio_readn n [] es0 = (r, d, es0') \<and>
    rio_ok rp' \<and> RErr \<notin> set es' \<and> RErr \<notin> set es0' \<and> stream es0' = unread rp' @ stream es'"
proof -
  obtain rp' es' where b: "rio_readnb rp n es = (int (min n (length (stream es0))), take n (stream es0), rp', es')"
    "rio_ok rp'" "RErr \<notin> set es'" "unread rp' @ stream es' = drop n (stream es0)"
    using readnb_spec [OF assms(1,2), of n "[]"] assms(4) by (auto simp: rio_readnb_def rio_data_def)
  have "\<exists>es0'. rio_readn n [] es0 = (int (min n (length (stream es0))), take n (stream es0), es0') \<and> RErr \<notin> set es0' \<and> stream es0' = drop n (stream es0)"
  proof (cases "n \<le> length (stream es0)")
    case True
    then show ?thesis using rio_readn_ok [OF assms(3) True, of "[]"] by (auto simp: min_def)
  next
    case False
    then show ?thesis using rio_readn_eof [OF assms(3), of n "[]"] by (simp add: min_def)
  qed
  then show ?thesis using b by auto
qed

text \<open>Three bytes that arrive in two chunks, read two at a time.\<close>

definition demo_rio :: rio_t where
  "demo_rio = rio_readinitb \<lparr>rio_cnt = 5, rio_bufptr = 9, rio_buf = replicate RIO_BUFSIZE 0\<rparr>"

lemma demo_rio: "rio_ok demo_rio" "unread demo_rio = []"
  by (simp_all add: demo_rio_def rio_ok_def unread_def rio_readinitb_def Let_def)

theorem buffering_invisible_witness:
  "\<exists>rp' es'. rio_readnb demo_rio 2 [Chunk 1 [], RIntr, Chunk 2 [3]] = (2, [1, 2], rp', es') \<and> unread rp' @ stream es' = [3]"
proof -
  let ?es = "[Chunk 1 [], RIntr, Chunk 2 [3]]"
  obtain r d rp' es' es0' where b: "rio_readnb demo_rio 2 ?es = (r, d, rp', es')" "rio_readn 2 [] ?es = (r, d, es0')"
    "stream es0' = unread rp' @ stream es'"
    using buffering_invisible [of demo_rio ?es ?es 2] demo_rio by auto
  have "rio_readn 2 [] ?es = (2, [1, 2], [Chunk 3 []])" by (simp add: rio_readn.simps take_chunk_def)
  then show ?thesis using b by auto
qed

text \<open>C33: \<open>rio_readlineb\<close> with room for at least two bytes stores the next line with its newline, or as much of it as
  fits with a terminator, and the terminator; what follows is left to read; at the end of the stream it returns 0 and stores
  nothing, not even a terminator.\<close>

theorem readline_reads_line:
  assumes "rio_ok rp" "RErr \<notin> set es" "2 \<le> maxlen" "bs = unread rp @ stream es"
    and "line = take (maxlen - 1) (takeWhile (\<lambda>b. b \<noteq> 10) bs @ take 1 (dropWhile (\<lambda>b. b \<noteq> 10) bs))"
  shows "\<exists>rp' es'. rio_readlineb rp maxlen es = (int (length line), if bs = [] then [] else line @ [0], rp', es') \<and>
    unread rp' @ stream es' = drop (length line) bs \<and> rio_ok rp'"
proof -
  have l: "line = line_of (maxlen - 1) bs" by (simp only: assms(5) line_of_def)
  have d: "rio_data rp es = bs" by (simp only: assms(4) rio_data_def)
  have m: "maxlen - 1 \<noteq> 0" using assms(3) by simp
  obtain rp' es' where r: "readline_loop (maxlen - 1) [] rp es = (bs = [], int (length line), line, rp', es')" "rio_ok rp'"
    "unread rp' @ stream es' = drop (length line) bs"
    using readline_spec [OF assms(1,2), of "maxlen - 1" "[]"] m unfolding l d by (auto simp: rio_data_def)
  have "bs = [] \<Longrightarrow> line = []" by (simp add: l)
  then have "rio_readlineb rp maxlen es = (int (length line), if bs = [] then [] else line @ [0], rp', es')"
    unfolding rio_readlineb_def r(1) by simp
  then show ?thesis using r(2,3) by blast
qed

theorem readline_reads_line_witness:
  "\<exists>rp' es'. rio_readlineb demo_rio 80 [Chunk 72 [105], RIntr, Chunk 10 [66]] = (3, [72, 105, 10, 0], rp', es') \<and>
     unread rp' @ stream es' = [66] \<and> rio_ok rp'"
proof -
  have "[72, 105, 10, 66] = unread demo_rio @ stream [Chunk 72 [105], RIntr, Chunk 10 [66]]" by (simp add: demo_rio(2))
  moreover have "[72, 105, 10] =
      take (80 - 1) (takeWhile (\<lambda>b. b \<noteq> (10 :: u8)) [72, 105, 10, 66] @ take 1 (dropWhile (\<lambda>b. b \<noteq> 10) [72, 105, 10, 66]))"
    by simp
  ultimately show ?thesis using readline_reads_line [OF demo_rio(1), of "[Chunk 72 [105], RIntr, Chunk 10 [66]]" 80] by fastforce
qed

text \<open>\<open>sio_putl\<close> writes the decimal digits of the number, after a minus sign when it is negative, in at most 20
  bytes of its buffer of 128; for the least \<open>long\<close>, which has no negation, it writes a minus sign and a
  parenthesis.\<close>

theorem putl_decimal:
  "if sint v = - (2 ^ 63) then sio_putl v = [45, 40]
   else read_dec (sio_putl v) = sint v \<and> length (sio_putl v) \<le> 20"
proof (cases "sint v = - (2 ^ 63)")
  case True
  have "signed_take_bit 63 (2 ^ 63 :: int) = - (2 ^ 63)" by (simp add: signed_take_bit_eq_take_bit_shift)
  then have "sint (- v) = - (2 ^ 63)" using True by (simp add: sint_word_ariths)
  then have "sio_ltoa v = [45, 40]" using True ltoa_min by (simp add: sio_ltoa_def sio_reverse_rev)
  then show ?thesis using True putl_eq [of v] by simp
next
  case False
  then show ?thesis using ltoa_pos [of v] ltoa_neg [of v] by (cases "sint v < 0") auto
qed

text \<open>Opening a listening socket leaves no other descriptor open; a failing \<open>close\<close> leaks the list of addresses.\<close>

lemma addr_walk_open:
  "snd (addr_walk ps fs) = (case fst (addr_walk ps fs) of Got fd \<Rightarrow> fd # fs | _ \<Rightarrow> fs) \<and>
   (\<forall>fd. fst (addr_walk ps fs) = Got fd \<longrightarrow> 0 \<le> fd)"
  by (induction ps fs rule: addr_walk.induct) auto

theorem listenfd_leaves_nothing_open:
  "case open_listenfd gai ps listening fs of (rc, fs', freed) \<Rightarrow>
     fs' = (if 0 \<le> rc then rc # fs else fs) \<and> (\<not> freed \<longrightarrow> rc = -1 \<and> fst (addr_walk ps fs) = CloseFailed)"
  using addr_walk_open [of ps fs] by (auto simp: open_listenfd_def split: prod.splits walk.splits)

end
