(* ===== verification/Server_Wrappers.thy ===== *)
theory Server_Wrappers
  imports Server_Csapp Server_Main
begin

section \<open>Server store: the wrappers of system calls, and how the server ends\<close>

text \<open>
  The functions of \<open>Server Store/src/csapp.c\<close> that call one function of the system or of the C library, test its
  result, and on an error write a message and end the process; and \<open>main\<close>, which is written with them. The function
  that is called is an argument: it takes the same arguments and acts on the state of the process, of which \<open>errno\<close>
  and the texts written to the two output streams matter here and all else is \<open>outside\<close>. What is behind a pointer that
  is only passed on is part of \<open>outside\<close>; NULL is \<open>None\<close>.
\<close>

datatype msg = Msg string | Strerror int | Gai_strerror int

record 'o process =
  c_errno :: int
  err_out :: "msg list"
  std_out :: "msg list"
  outside :: 'o

text \<open>A function returns, ends the process with a status, or ends the thread.\<close>

datatype 'r fin = Back 'r | Quit int | Thread_ends

type_synonym ('o, 'r) syscall = "'o process \<Rightarrow> 'r \<times> 'o process"
type_synonym ('o, 'r) wrapped = "'o process \<Rightarrow> 'r fin \<times> 'o process"

abbreviation EINTR :: int where "EINTR \<equiv> 4"
abbreviation newline :: msg where "newline \<equiv> Msg [CHR 0x0A]"

subsection \<open>Error messages\<close>

definition errorMessage :: "string \<Rightarrow> 'o process \<Rightarrow> 'o process" where
  "errorMessage s p = p\<lparr>std_out := std_out p @ [Msg ''ERROR: '', Msg s, newline]\<rparr>"

definition unix_error :: "string \<Rightarrow> ('o, 'r) wrapped" where
  "unix_error s p = (Quit 0, p\<lparr>err_out := err_out p @ [Msg s, Msg '': '', Strerror (c_errno p), newline]\<rparr>)"

definition posix_error :: "int \<Rightarrow> string \<Rightarrow> ('o, 'r) wrapped" where
  "posix_error code s p = (Quit 0, p\<lparr>err_out := err_out p @ [Msg s, Msg '': '', Strerror code, newline]\<rparr>)"

definition gai_error :: "int \<Rightarrow> string \<Rightarrow> ('o, 'r) wrapped" where
  "gai_error code s p = (Quit 0, p\<lparr>err_out := err_out p @ [Msg s, Msg '': '', Gai_strerror code, newline]\<rparr>)"

definition app_error :: "string \<Rightarrow> ('o, 'r) wrapped" where
  "app_error s p = (Quit 0, p\<lparr>err_out := err_out p @ [Msg s, newline]\<rparr>)"

definition dns_error :: "string \<Rightarrow> ('o, 'r) wrapped" where
  "dns_error s p = (Quit 0, p\<lparr>err_out := err_out p @ [Msg s, newline]\<rparr>)"

subsection \<open>Process control\<close>

definition Fork :: "('o, int) syscall \<Rightarrow> ('o, int) wrapped" where
  "Fork fork p = (let (pid, p) = fork p in if pid < 0 then unix_error ''Fork error'' p else (Back pid, p))"

definition Execve :: "(string \<Rightarrow> string list \<Rightarrow> string list \<Rightarrow> ('o, int) syscall) \<Rightarrow> string \<Rightarrow> string list \<Rightarrow> string list \<Rightarrow> ('o, unit) wrapped" where
  "Execve execve filename argv envp p =
     (let (rc, p) = execve filename argv envp p in if rc < 0 then unix_error ''Execve error'' p else (Back (), p))"

definition Wait :: "('a \<Rightarrow> ('o, int) syscall) \<Rightarrow> 'a \<Rightarrow> ('o, int) wrapped" where
  "Wait wait statusp p =
     (let (pid, p) = wait statusp p in if pid < 0 then unix_error ''Wait error'' p else (Back pid, p))"

definition Waitpid :: "(int \<Rightarrow> 'a \<Rightarrow> int \<Rightarrow> ('o, int) syscall) \<Rightarrow> int \<Rightarrow> 'a \<Rightarrow> int \<Rightarrow> ('o, int) wrapped" where
  "Waitpid waitpid pid iptr options p =
     (let (retpid, p) = waitpid pid iptr options p in if retpid < 0 then unix_error ''Waitpid error'' p else (Back retpid, p))"

definition Kill :: "(int \<Rightarrow> int \<Rightarrow> ('o, int) syscall) \<Rightarrow> int \<Rightarrow> int \<Rightarrow> ('o, unit) wrapped" where
  "Kill kill pid signum p =
     (let (rc, p) = kill pid signum p in if rc < 0 then unix_error ''Kill error'' p else (Back (), p))"

definition Pause :: "('o, int) syscall \<Rightarrow> ('o, unit) wrapped" where
  "Pause pause p = (let (rc, p) = pause p in (Back (), p))"

definition Sleep :: "(u32 \<Rightarrow> ('o, u32) syscall) \<Rightarrow> u32 \<Rightarrow> ('o, u32) wrapped" where
  "Sleep sleep secs p =
     (let (rc, p) = sleep secs p in if rc < 0 then unix_error ''Sleep error'' p else (Back rc, p))"

definition Alarm :: "(u32 \<Rightarrow> ('o, u32) syscall) \<Rightarrow> u32 \<Rightarrow> ('o, u32) wrapped" where
  "Alarm alarm seconds p = (let (rc, p) = alarm seconds p in (Back rc, p))"

definition Setpgid :: "(int \<Rightarrow> int \<Rightarrow> ('o, int) syscall) \<Rightarrow> int \<Rightarrow> int \<Rightarrow> ('o, unit) wrapped" where
  "Setpgid setpgid pid pgid p =
     (let (rc, p) = setpgid pid pgid p in if rc < 0 then unix_error ''Setpgid error'' p else (Back (), p))"

definition Getpgrp :: "('o, int) syscall \<Rightarrow> ('o, int) wrapped" where
  "Getpgrp getpgrp p = (let (pgrp, p) = getpgrp p in (Back pgrp, p))"

subsection \<open>Signals\<close>

text \<open>The result of \<open>sigemptyset\<close> is not looked at; \<open>sigaction\<close> gives back the previous action, too.\<close>

record ('h, 's) sigaction =
  sa_handler :: 'h
  sa_mask :: 's
  sa_flags :: int

abbreviation SA_RESTART :: int where "SA_RESTART \<equiv> 0x10000000"

definition Signal ::
  "(int \<Rightarrow> ('h, 's) sigaction \<Rightarrow> ('o, int \<times> ('h, 's) sigaction) syscall) \<Rightarrow> 's \<Rightarrow> int \<Rightarrow> 'h \<Rightarrow> ('o, 'h) wrapped" where
  "Signal sigaction emptyset signum handler p =
     (let action = \<lparr>sa_handler = handler, sa_mask = emptyset, sa_flags = SA_RESTART\<rparr>;
          ((rc, old_action), p) = sigaction signum action p
      in if rc < 0 then unix_error ''Signal error'' p else (Back (sa_handler old_action), p))"

definition Sigprocmask :: "(int \<Rightarrow> 'a \<Rightarrow> 'b \<Rightarrow> ('o, int) syscall) \<Rightarrow> int \<Rightarrow> 'a \<Rightarrow> 'b \<Rightarrow> ('o, unit) wrapped" where
  "Sigprocmask sigprocmask how sigs oldset p =
     (let (rc, p) = sigprocmask how sigs oldset p in if rc < 0 then unix_error ''Sigprocmask error'' p else (Back (), p))"

definition Sigemptyset :: "('a \<Rightarrow> ('o, int) syscall) \<Rightarrow> 'a \<Rightarrow> ('o, unit) wrapped" where
  "Sigemptyset sigemptyset sigs p =
     (let (rc, p) = sigemptyset sigs p in if rc < 0 then unix_error ''Sigemptyset error'' p else (Back (), p))"

definition Sigfillset :: "('a \<Rightarrow> ('o, int) syscall) \<Rightarrow> 'a \<Rightarrow> ('o, unit) wrapped" where
  "Sigfillset sigfillset sigs p =
     (let (rc, p) = sigfillset sigs p in if rc < 0 then unix_error ''Sigfillset error'' p else (Back (), p))"

definition Sigaddset :: "('a \<Rightarrow> int \<Rightarrow> ('o, int) syscall) \<Rightarrow> 'a \<Rightarrow> int \<Rightarrow> ('o, unit) wrapped" where
  "Sigaddset sigaddset sigs signum p =
     (let (rc, p) = sigaddset sigs signum p in if rc < 0 then unix_error ''Sigaddset error'' p else (Back (), p))"

definition Sigdelset :: "('a \<Rightarrow> int \<Rightarrow> ('o, int) syscall) \<Rightarrow> 'a \<Rightarrow> int \<Rightarrow> ('o, unit) wrapped" where
  "Sigdelset sigdelset sigs signum p =
     (let (rc, p) = sigdelset sigs signum p in if rc < 0 then unix_error ''Sigdelset error'' p else (Back (), p))"

definition Sigismember :: "('a \<Rightarrow> int \<Rightarrow> ('o, int) syscall) \<Rightarrow> 'a \<Rightarrow> int \<Rightarrow> ('o, int) wrapped" where
  "Sigismember sigismember sigs signum p =
     (let (rc, p) = sigismember sigs signum p in if rc < 0 then unix_error ''Sigismember error'' p else (Back rc, p))"

definition Sigsuspend :: "('a \<Rightarrow> ('o, int) syscall) \<Rightarrow> 'a \<Rightarrow> ('o, int) wrapped" where
  "Sigsuspend sigsuspend sigs p =
     (let (rc, p) = sigsuspend sigs p in if c_errno p \<noteq> EINTR then unix_error ''Sigsuspend error'' p else (Back rc, p))"

subsection \<open>Signal-safe output\<close>

text \<open>\<open>write\<close> is given the bytes that \<open>sio_puts\<close> and \<open>sio_putl\<close> put out. \<open>_exit\<close> ends the process, too.\<close>

definition sio_error :: "(u8 list \<Rightarrow> ('o, int) syscall) \<Rightarrow> u8 list \<Rightarrow> ('o, 'r) wrapped" where
  "sio_error write s p = (let (_, p) = write (sio_puts s) p in (Quit 1, p))"

definition bytes :: "string \<Rightarrow> u8 list" where
  "bytes s = map of_char s"

definition Sio_putl :: "(u8 list \<Rightarrow> ('o, int) syscall) \<Rightarrow> 64 word \<Rightarrow> ('o, int) wrapped" where
  "Sio_putl write v p =
     (let (n, p) = write (sio_putl v) p in if n < 0 then sio_error write (bytes ''Sio_putl error'') p else (Back n, p))"

definition Sio_puts :: "(u8 list \<Rightarrow> ('o, int) syscall) \<Rightarrow> u8 list \<Rightarrow> ('o, int) wrapped" where
  "Sio_puts write s p =
     (let (n, p) = write (sio_puts s) p in if n < 0 then sio_error write (bytes ''Sio_puts error'') p else (Back n, p))"

definition Sio_error :: "(u8 list \<Rightarrow> ('o, int) syscall) \<Rightarrow> u8 list \<Rightarrow> ('o, unit) wrapped" where
  "Sio_error write s p = sio_error write s p"

subsection \<open>Files and directories\<close>

definition Open :: "(string \<Rightarrow> int \<Rightarrow> int \<Rightarrow> ('o, int) syscall) \<Rightarrow> string \<Rightarrow> int \<Rightarrow> int \<Rightarrow> ('o, int) wrapped" where
  "Open open pathname flags mode p =
     (let (rc, p) = open pathname flags mode p in if rc < 0 then unix_error ''Open error'' p else (Back rc, p))"

definition Read :: "(int \<Rightarrow> 'a \<Rightarrow> nat \<Rightarrow> ('o, int) syscall) \<Rightarrow> int \<Rightarrow> 'a \<Rightarrow> nat \<Rightarrow> ('o, int) wrapped" where
  "Read read fd buf nbytes p =
     (let (rc, p) = read fd buf nbytes p in if rc < 0 then unix_error ''Read error'' p else (Back rc, p))"

definition Write :: "(int \<Rightarrow> 'a \<Rightarrow> nat \<Rightarrow> ('o, int) syscall) \<Rightarrow> int \<Rightarrow> 'a \<Rightarrow> nat \<Rightarrow> ('o, int) wrapped" where
  "Write write fd buf nbytes p =
     (let (rc, p) = write fd buf nbytes p in if rc < 0 then unix_error ''Write error'' p else (Back rc, p))"

definition Lseek :: "(int \<Rightarrow> int \<Rightarrow> int \<Rightarrow> ('o, int) syscall) \<Rightarrow> int \<Rightarrow> int \<Rightarrow> int \<Rightarrow> ('o, int) wrapped" where
  "Lseek lseek fildes offset whence p =
     (let (rc, p) = lseek fildes offset whence p in if rc < 0 then unix_error ''Lseek error'' p else (Back rc, p))"

definition Close :: "(int \<Rightarrow> ('o, int) syscall) \<Rightarrow> int \<Rightarrow> ('o, unit) wrapped" where
  "Close close fd p = (let (rc, p) = close fd p in if rc < 0 then unix_error ''Close error'' p else (Back (), p))"

definition Select :: "(int \<Rightarrow> 'a \<Rightarrow> 'a \<Rightarrow> 'a \<Rightarrow> 'b \<Rightarrow> ('o, int) syscall) \<Rightarrow> int \<Rightarrow> 'a \<Rightarrow> 'a \<Rightarrow> 'a \<Rightarrow> 'b \<Rightarrow> ('o, int) wrapped" where
  "Select select n readfds writefds exceptfds timeout p =
     (let (rc, p) = select n readfds writefds exceptfds timeout p in if rc < 0 then unix_error ''Select error'' p else (Back rc, p))"

definition Dup2 :: "(int \<Rightarrow> int \<Rightarrow> ('o, int) syscall) \<Rightarrow> int \<Rightarrow> int \<Rightarrow> ('o, int) wrapped" where
  "Dup2 dup2 fd1 fd2 p =
     (let (rc, p) = dup2 fd1 fd2 p in if rc < 0 then unix_error ''Dup2 error'' p else (Back rc, p))"

definition Stat :: "(string \<Rightarrow> 'a \<Rightarrow> ('o, int) syscall) \<Rightarrow> string \<Rightarrow> 'a \<Rightarrow> ('o, unit) wrapped" where
  "Stat stat filename buf p =
     (let (rc, p) = stat filename buf p in if rc < 0 then unix_error ''Stat error'' p else (Back (), p))"

definition Fstat :: "(int \<Rightarrow> 'a \<Rightarrow> ('o, int) syscall) \<Rightarrow> int \<Rightarrow> 'a \<Rightarrow> ('o, unit) wrapped" where
  "Fstat fstat fd buf p =
     (let (rc, p) = fstat fd buf p in if rc < 0 then unix_error ''Fstat error'' p else (Back (), p))"

definition Opendir :: "(string \<Rightarrow> ('o, 'a option) syscall) \<Rightarrow> string \<Rightarrow> ('o, 'a option) wrapped" where
  "Opendir opendir name p =
     (let (dirp, p) = opendir name p in if dirp = None then unix_error ''opendir error'' p else (Back dirp, p))"

definition Readdir :: "('a \<Rightarrow> ('o, 'b option) syscall) \<Rightarrow> 'a \<Rightarrow> ('o, 'b option) wrapped" where
  "Readdir readdir dirp p =
     (let (dep, p) = readdir dirp (p\<lparr>c_errno := 0\<rparr>) in if dep = None \<and> c_errno p \<noteq> 0 then unix_error ''readdir error'' p else (Back dep, p))"

definition Closedir :: "('a \<Rightarrow> ('o, int) syscall) \<Rightarrow> 'a \<Rightarrow> ('o, int) wrapped" where
  "Closedir closedir dirp p =
     (let (rc, p) = closedir dirp p in if rc < 0 then unix_error ''closedir error'' p else (Back rc, p))"

subsection \<open>Memory\<close>

definition Mmap :: "(u64 \<Rightarrow> nat \<Rightarrow> int \<Rightarrow> int \<Rightarrow> int \<Rightarrow> int \<Rightarrow> ('o, u64) syscall) \<Rightarrow> u64 \<Rightarrow> nat \<Rightarrow> int \<Rightarrow> int \<Rightarrow> int \<Rightarrow> int \<Rightarrow> ('o, u64) wrapped" where
  "Mmap mmap addr len prot flags fd offset p =
     (let (ptr, p) = mmap addr len prot flags fd offset p in if ptr = - 1 then unix_error ''mmap error'' p else (Back ptr, p))"

definition Munmap :: "(u64 \<Rightarrow> nat \<Rightarrow> ('o, int) syscall) \<Rightarrow> u64 \<Rightarrow> nat \<Rightarrow> ('o, unit) wrapped" where
  "Munmap munmap start len p =
     (let (rc, p) = munmap start len p in if rc < 0 then unix_error ''munmap error'' p else (Back (), p))"

definition Malloc :: "(nat \<Rightarrow> ('o, 'a option) syscall) \<Rightarrow> nat \<Rightarrow> ('o, 'a option) wrapped" where
  "Malloc malloc sz p =
     (let (ptr, p) = malloc sz p in if ptr = None then unix_error ''Malloc error'' p else (Back ptr, p))"

definition Realloc :: "('a option \<Rightarrow> nat \<Rightarrow> ('o, 'a option) syscall) \<Rightarrow> 'a option \<Rightarrow> nat \<Rightarrow> ('o, 'a option) wrapped" where
  "Realloc realloc ptr sz p =
     (let (q, p) = realloc ptr sz p in if q = None then unix_error ''Realloc error'' p else (Back q, p))"

definition Calloc :: "(nat \<Rightarrow> nat \<Rightarrow> ('o, 'a option) syscall) \<Rightarrow> nat \<Rightarrow> nat \<Rightarrow> ('o, 'a option) wrapped" where
  "Calloc calloc nmemb sz p =
     (let (q, p) = calloc nmemb sz p in if q = None then unix_error ''Calloc error'' p else (Back q, p))"

definition Free :: "('a option \<Rightarrow> ('o, unit) syscall) \<Rightarrow> 'a option \<Rightarrow> ('o, unit) wrapped" where
  "Free free ptr p = (let (r, p) = free ptr p in (Back (), p))"

subsection \<open>Streams\<close>

definition Fclose :: "('a \<Rightarrow> ('o, int) syscall) \<Rightarrow> 'a \<Rightarrow> ('o, unit) wrapped" where
  "Fclose fclose fp p =
     (let (rc, p) = fclose fp p in if rc \<noteq> 0 then unix_error ''Fclose error'' p else (Back (), p))"

definition Fdopen :: "(int \<Rightarrow> string \<Rightarrow> ('o, 'a option) syscall) \<Rightarrow> int \<Rightarrow> string \<Rightarrow> ('o, 'a option) wrapped" where
  "Fdopen fdopen fd fmode p =
     (let (fp, p) = fdopen fd fmode p in if fp = None then unix_error ''Fdopen error'' p else (Back fp, p))"

definition Fopen :: "(string \<Rightarrow> string \<Rightarrow> ('o, 'a option) syscall) \<Rightarrow> string \<Rightarrow> string \<Rightarrow> ('o, 'a option) wrapped" where
  "Fopen fopen filename fmode p =
     (let (fp, p) = fopen filename fmode p in if fp = None then unix_error ''Fopen error'' p else (Back fp, p))"

definition Fputs :: "(string \<Rightarrow> 'a \<Rightarrow> ('o, int) syscall) \<Rightarrow> string \<Rightarrow> 'a \<Rightarrow> ('o, unit) wrapped" where
  "Fputs fputs text fp p =
     (let (rc, p) = fputs text fp p in if rc = -1 then unix_error ''Fputs error'' p else (Back (), p))"

text \<open>The error flag of the stream is a function of the state.\<close>

definition Fgets ::
  "('b \<Rightarrow> 'o process \<Rightarrow> bool) \<Rightarrow> ('a \<Rightarrow> int \<Rightarrow> 'b \<Rightarrow> ('o, 'a option) syscall) \<Rightarrow> 'a \<Rightarrow> int \<Rightarrow> 'b \<Rightarrow> ('o, 'a option) wrapped" where
  "Fgets ferror fgets ptr n fp p =
     (let (rptr, p) = fgets ptr n fp p
      in if rptr = None \<and> ferror fp p then app_error ''Fgets error'' p else (Back rptr, p))"

definition Fread ::
  "('b \<Rightarrow> 'o process \<Rightarrow> bool) \<Rightarrow> ('a \<Rightarrow> nat \<Rightarrow> nat \<Rightarrow> 'b \<Rightarrow> ('o, nat) syscall) \<Rightarrow> 'a \<Rightarrow> nat \<Rightarrow> nat \<Rightarrow> 'b \<Rightarrow> ('o, nat) wrapped" where
  "Fread ferror fread ptr sz nmemb fp p =
     (let (n, p) = fread ptr sz nmemb fp p
      in if n < nmemb \<and> ferror fp p then unix_error ''Fread error'' p else (Back n, p))"

definition Fwrite :: "('a \<Rightarrow> nat \<Rightarrow> nat \<Rightarrow> 'b \<Rightarrow> ('o, nat) syscall) \<Rightarrow> 'a \<Rightarrow> nat \<Rightarrow> nat \<Rightarrow> 'b \<Rightarrow> ('o, unit) wrapped" where
  "Fwrite fwrite data sz nmemb fp p =
     (let (n, p) = fwrite data sz nmemb fp p in if n < nmemb then unix_error ''Fwrite error'' p else (Back (), p))"

subsection \<open>Sockets and names\<close>

definition Socket :: "(int \<Rightarrow> int \<Rightarrow> int \<Rightarrow> ('o, int) syscall) \<Rightarrow> int \<Rightarrow> int \<Rightarrow> int \<Rightarrow> ('o, int) wrapped" where
  "Socket socket domain type protocol p =
     (let (rc, p) = socket domain type protocol p in if rc < 0 then unix_error ''Socket error'' p else (Back rc, p))"

definition Setsockopt :: "(int \<Rightarrow> int \<Rightarrow> int \<Rightarrow> 'a \<Rightarrow> int \<Rightarrow> ('o, int) syscall) \<Rightarrow> int \<Rightarrow> int \<Rightarrow> int \<Rightarrow> 'a \<Rightarrow> int \<Rightarrow> ('o, unit) wrapped" where
  "Setsockopt setsockopt s level optname optval optlen p =
     (let (rc, p) = setsockopt s level optname optval optlen p in if rc < 0 then unix_error ''Setsockopt error'' p else (Back (), p))"

definition Bind :: "(int \<Rightarrow> 'a \<Rightarrow> int \<Rightarrow> ('o, int) syscall) \<Rightarrow> int \<Rightarrow> 'a \<Rightarrow> int \<Rightarrow> ('o, unit) wrapped" where
  "Bind bind sockfd my_addr addrlen p =
     (let (rc, p) = bind sockfd my_addr addrlen p in if rc < 0 then unix_error ''Bind error'' p else (Back (), p))"

definition Listen :: "(int \<Rightarrow> int \<Rightarrow> ('o, int) syscall) \<Rightarrow> int \<Rightarrow> int \<Rightarrow> ('o, unit) wrapped" where
  "Listen listen s backlog p =
     (let (rc, p) = listen s backlog p in if rc < 0 then unix_error ''Listen error'' p else (Back (), p))"

definition Accept :: "(int \<Rightarrow> 'a \<Rightarrow> 'b \<Rightarrow> ('o, int) syscall) \<Rightarrow> int \<Rightarrow> 'a \<Rightarrow> 'b \<Rightarrow> ('o, int) wrapped" where
  "Accept accept s caddr addrlen p =
     (let (rc, p) = accept s caddr addrlen p in if rc < 0 then unix_error ''Accept error'' p else (Back rc, p))"

definition Connect :: "(int \<Rightarrow> 'a \<Rightarrow> int \<Rightarrow> ('o, int) syscall) \<Rightarrow> int \<Rightarrow> 'a \<Rightarrow> int \<Rightarrow> ('o, unit) wrapped" where
  "Connect connect sockfd serv_addr addrlen p =
     (let (rc, p) = connect sockfd serv_addr addrlen p in if rc < 0 then unix_error ''Connect error'' p else (Back (), p))"

definition Getaddrinfo :: "(string \<Rightarrow> string \<Rightarrow> 'a \<Rightarrow> 'b \<Rightarrow> ('o, int) syscall) \<Rightarrow> string \<Rightarrow> string \<Rightarrow> 'a \<Rightarrow> 'b \<Rightarrow> ('o, unit) wrapped" where
  "Getaddrinfo getaddrinfo node service hints res p =
     (let (rc, p) = getaddrinfo node service hints res p in if rc \<noteq> 0 then gai_error rc ''Getaddrinfo error'' p else (Back (), p))"

definition Getnameinfo :: "('a \<Rightarrow> nat \<Rightarrow> 'b \<Rightarrow> nat \<Rightarrow> 'b \<Rightarrow> nat \<Rightarrow> int \<Rightarrow> ('o, int) syscall) \<Rightarrow> 'a \<Rightarrow> nat \<Rightarrow> 'b \<Rightarrow> nat \<Rightarrow> 'b \<Rightarrow> nat \<Rightarrow> int \<Rightarrow> ('o, unit) wrapped" where
  "Getnameinfo getnameinfo sa salen host hostlen serv servlen flags p =
     (let (rc, p) = getnameinfo sa salen host hostlen serv servlen flags p in if rc \<noteq> 0 then gai_error rc ''Getnameinfo error'' p else (Back (), p))"

definition Freeaddrinfo :: "('a \<Rightarrow> ('o, unit) syscall) \<Rightarrow> 'a \<Rightarrow> ('o, unit) wrapped" where
  "Freeaddrinfo freeaddrinfo res p = (let (r, p) = freeaddrinfo res p in (Back (), p))"

definition Inet_ntop :: "(int \<Rightarrow> 'a \<Rightarrow> 'b \<Rightarrow> nat \<Rightarrow> ('o, 'b option) syscall) \<Rightarrow> int \<Rightarrow> 'a \<Rightarrow> 'b \<Rightarrow> nat \<Rightarrow> ('o, unit) wrapped" where
  "Inet_ntop inet_ntop af src dst sz p =
     (let (r, p) = inet_ntop af src dst sz p in if r = None then unix_error ''Inet_ntop error'' p else (Back (), p))"

definition Inet_pton :: "(int \<Rightarrow> string \<Rightarrow> 'b \<Rightarrow> ('o, int) syscall) \<Rightarrow> int \<Rightarrow> string \<Rightarrow> 'b \<Rightarrow> ('o, unit) wrapped" where
  "Inet_pton inet_pton af src dst p =
     (let (rc, p) = inet_pton af src dst p
      in if rc = 0 then app_error ''inet_pton error: invalid dotted-decimal address'' p
         else if rc < 0 then unix_error ''Inet_pton error'' p
         else (Back (), p))"

definition Gethostbyname :: "(string \<Rightarrow> ('o, 'a option) syscall) \<Rightarrow> string \<Rightarrow> ('o, 'a option) wrapped" where
  "Gethostbyname gethostbyname name p =
     (let (h, p) = gethostbyname name p in if h = None then dns_error ''Gethostbyname error'' p else (Back h, p))"

definition Gethostbyaddr :: "('a \<Rightarrow> int \<Rightarrow> int \<Rightarrow> ('o, 'b option) syscall) \<Rightarrow> 'a \<Rightarrow> int \<Rightarrow> int \<Rightarrow> ('o, 'b option) wrapped" where
  "Gethostbyaddr gethostbyaddr haddr alen type p =
     (let (h, p) = gethostbyaddr haddr alen type p in if h = None then dns_error ''Gethostbyaddr error'' p else (Back h, p))"

subsection \<open>Threads and semaphores\<close>

definition Pthread_create :: "('a \<Rightarrow> 'b \<Rightarrow> 'c \<Rightarrow> 'd \<Rightarrow> ('o, int) syscall) \<Rightarrow> 'a \<Rightarrow> 'b \<Rightarrow> 'c \<Rightarrow> 'd \<Rightarrow> ('o, unit) wrapped" where
  "Pthread_create pthread_create tidp attrp routine argp p =
     (let (rc, p) = pthread_create tidp attrp routine argp p in if rc \<noteq> 0 then posix_error rc ''Pthread_create error'' p else (Back (), p))"

definition Pthread_cancel :: "('a \<Rightarrow> ('o, int) syscall) \<Rightarrow> 'a \<Rightarrow> ('o, unit) wrapped" where
  "Pthread_cancel pthread_cancel tid p =
     (let (rc, p) = pthread_cancel tid p in if rc \<noteq> 0 then posix_error rc ''Pthread_cancel error'' p else (Back (), p))"

definition Pthread_join :: "('a \<Rightarrow> 'b \<Rightarrow> ('o, int) syscall) \<Rightarrow> 'a \<Rightarrow> 'b \<Rightarrow> ('o, unit) wrapped" where
  "Pthread_join pthread_join tid thread_return p =
     (let (rc, p) = pthread_join tid thread_return p in if rc \<noteq> 0 then posix_error rc ''Pthread_join error'' p else (Back (), p))"

definition Pthread_detach :: "('a \<Rightarrow> ('o, int) syscall) \<Rightarrow> 'a \<Rightarrow> ('o, unit) wrapped" where
  "Pthread_detach pthread_detach tid p =
     (let (rc, p) = pthread_detach tid p in if rc \<noteq> 0 then posix_error rc ''Pthread_detach error'' p else (Back (), p))"

definition Pthread_exit :: "('a \<Rightarrow> ('o, unit) syscall) \<Rightarrow> 'a \<Rightarrow> ('o, unit) wrapped" where
  "Pthread_exit pthread_exit retval p = (let (_, p) = pthread_exit retval p in (Thread_ends, p))"

definition Pthread_self :: "('o, 'a) syscall \<Rightarrow> ('o, 'a) wrapped" where
  "Pthread_self pthread_self p = (let (tid, p) = pthread_self p in (Back tid, p))"

definition Pthread_once :: "('a \<Rightarrow> 'b \<Rightarrow> ('o, int) syscall) \<Rightarrow> 'a \<Rightarrow> 'b \<Rightarrow> ('o, unit) wrapped" where
  "Pthread_once pthread_once once_control init_function p =
     (let (rc, p) = pthread_once once_control init_function p in (Back (), p))"

definition Sem_init :: "('a \<Rightarrow> int \<Rightarrow> u32 \<Rightarrow> ('o, int) syscall) \<Rightarrow> 'a \<Rightarrow> int \<Rightarrow> u32 \<Rightarrow> ('o, unit) wrapped" where
  "Sem_init sem_init sem pshared val p =
     (let (rc, p) = sem_init sem pshared val p in if rc < 0 then unix_error ''Sem_init error'' p else (Back (), p))"

subsection \<open>Robust I/O and sockets\<close>

text \<open>
  The functions that these wrap are those of \<open>Server_Proto\<close> and \<open>Server_Csapp\<close>; a call of them leaves \<open>errno\<close> at
  \<open>e\<close>. \<open>Rio_writen\<close> compares the signed result with the unsigned length.
\<close>

definition Rio_readn ::
  "int \<Rightarrow> nat \<Rightarrow> read_event list \<Rightarrow> 'o process \<Rightarrow> (int \<times> u8 list \<times> read_event list) fin \<times> 'o process" where
  "Rio_readn e nbytes es p =
     (let (n, buf, es) = rio_readn nbytes [] es; p = p\<lparr>c_errno := e\<rparr>
      in if n < 0 then unix_error ''Rio_readn error'' p else (Back (n, buf, es), p))"

definition Rio_writen ::
  "int \<Rightarrow> u8 list \<Rightarrow> write_event list \<Rightarrow> 'o process \<Rightarrow> (write_event list \<times> u8 list) fin \<times> 'o process" where
  "Rio_writen e usrbuf es p =
     (let (r, es, out) = rio_writen usrbuf es []; p = p\<lparr>c_errno := e\<rparr>
      in if (word_of_int r :: u64) \<noteq> of_nat (length usrbuf) then unix_error ''Rio_writen error'' p
         else (Back (es, out), p))"

definition Rio_readinitb :: "rio_t \<Rightarrow> rio_t" where
  "Rio_readinitb rp = rio_readinitb rp"

definition Rio_readnb ::
  "int \<Rightarrow> rio_t \<Rightarrow> nat \<Rightarrow> read_event list \<Rightarrow> 'o process \<Rightarrow> (int \<times> u8 list \<times> rio_t \<times> read_event list) fin \<times> 'o process" where
  "Rio_readnb e rp n es p =
     (let (rc, r) = rio_readnb rp n es; p = p\<lparr>c_errno := e\<rparr>
      in if rc < 0 then unix_error ''Rio_readnb error'' p else (Back (rc, r), p))"

definition Rio_readlineb ::
  "int \<Rightarrow> rio_t \<Rightarrow> nat \<Rightarrow> read_event list \<Rightarrow> 'o process \<Rightarrow> (int \<times> u8 list \<times> rio_t \<times> read_event list) fin \<times> 'o process" where
  "Rio_readlineb e rp maxlen es p =
     (let (rc, r) = rio_readlineb rp maxlen es; p = p\<lparr>c_errno := e\<rparr>
      in if rc < 0 then unix_error ''Rio_readlineb error'' p else (Back (rc, r), p))"

definition Open_clientfd :: "int \<Rightarrow> int \<Rightarrow> addrinfo list \<Rightarrow> int list \<Rightarrow> ('o, int) wrapped" where
  "Open_clientfd e gai listp fs p =
     (let rc = fst (open_clientfd gai listp fs); p = p\<lparr>c_errno := e\<rparr>
      in if rc < 0 then unix_error ''Open_clientfd error'' p else (Back rc, p))"

definition Open_listenfd :: "int \<Rightarrow> int \<Rightarrow> addrinfo list \<Rightarrow> int \<Rightarrow> int list \<Rightarrow> ('o, int) wrapped" where
  "Open_listenfd e gai listp listening fs p =
     (let rc = fst (open_listenfd gai listp listening fs); p = p\<lparr>c_errno := e\<rparr>
      in if rc < 0 then unix_error ''Open_listenfd error'' p else (Back rc, p))"

subsection \<open>The beginning and the loop of main\<close>

text \<open>
  \<open>port\<close> of \<open>Server_Main\<close> reads the option. The initialisation of the modules between the option and the handler does
  nothing that could fail. The thread of a client is given the pointer that \<open>Malloc\<close> returned and what it points to.
  One function runs after another that has returned.
\<close>

definition and_then :: "('o, 'a) wrapped \<Rightarrow> ('a \<Rightarrow> ('o, 'b) wrapped) \<Rightarrow> ('o, 'b) wrapped" where
  "and_then f g p = (case f p of (Back r, p) \<Rightarrow> g r p | (Quit c, p) \<Rightarrow> (Quit c, p) | (Thread_ends, p) \<Rightarrow> (Thread_ends, p))"

abbreviation SIGHUP :: int where "SIGHUP \<equiv> 1"
abbreviation EXIT_FAILURE :: int where "EXIT_FAILURE \<equiv> 1"

definition main_start ::
  "(int \<Rightarrow> ('h, 's) sigaction \<Rightarrow> ('o, int) syscall) \<Rightarrow> (string \<Rightarrow> ('o, int) wrapped) \<Rightarrow> 's \<Rightarrow> 'h \<Rightarrow>
   string option \<Rightarrow> string list \<Rightarrow> ('o, int) wrapped" where
  "main_start sigaction listenfd emptyset handler garbage argv p =
     (case port garbage argv of
        None \<Rightarrow> (Quit EXIT_FAILURE, errorMessage ''Provide a valid port number.'' p)
      | Some portno \<Rightarrow>
          (let sa = \<lparr>sa_handler = handler, sa_mask = emptyset, sa_flags = 0\<rparr>;
               (rc, p) = sigaction SIGHUP sa p
           in if rc = -1 then (Quit EXIT_FAILURE, errorMessage ''Unable to install handler.'' p) else listenfd portno p))"

definition main_round ::
  "(nat \<Rightarrow> ('o, 'a option) syscall) \<Rightarrow> (int \<Rightarrow> 'b \<Rightarrow> 'c \<Rightarrow> ('o, int) syscall) \<Rightarrow>
   ('t \<Rightarrow> 'u \<Rightarrow> 'f \<Rightarrow> 'a option \<times> int \<Rightarrow> ('o, int) syscall) \<Rightarrow> 'b \<Rightarrow> 'c \<Rightarrow> 't \<Rightarrow> 'u \<Rightarrow> 'f \<Rightarrow> int \<Rightarrow> ('o, unit) wrapped" where
  "main_round malloc accept pthread_create clientaddr clientlen tid attr service serverfd =
     and_then (Malloc malloc 4) (\<lambda>connfdp.
       and_then (Accept accept serverfd clientaddr clientlen) (\<lambda>connfd.
         Pthread_create pthread_create tid attr service (connfdp, connfd)))"

text \<open>The first \<open>n\<close> rounds of a loop that has no other end.\<close>

fun main_rounds :: "nat \<Rightarrow> (int \<Rightarrow> ('o, unit) wrapped) \<Rightarrow> int \<Rightarrow> ('o, unit) wrapped" where
  "main_rounds 0 body serverfd p = (Back (), p)"
| "main_rounds (Suc n) body serverfd p = and_then (body serverfd) (\<lambda>_. main_rounds n body serverfd) p"

subsection \<open>Every wrapper returns or ends the process with status 0\<close>

definition exits_0_on :: "('s \<Rightarrow> 'o process \<Rightarrow> bool) \<Rightarrow> ('o, 's) syscall \<Rightarrow> ('o, 'r) wrapped \<Rightarrow> ('s \<Rightarrow> 'r) \<Rightarrow> bool" where
  "exits_0_on bad f w val \<longleftrightarrow>
     (\<forall>p. case f p of (r, q) \<Rightarrow>
        if bad r q then \<exists>m. w p = (Quit 0, q\<lparr>err_out := err_out q @ m\<rparr>) \<and> m \<noteq> [] else w p = (Back (val r), q))"

lemmas error_defs = unix_error_def posix_error_def gai_error_def app_error_def dns_error_def

lemma errors_exit_0 [simp]:
  "\<exists>m. unix_error s p = (Quit 0, p\<lparr>err_out := err_out p @ m\<rparr>) \<and> m \<noteq> []"
  "\<exists>m. posix_error code s p = (Quit 0, p\<lparr>err_out := err_out p @ m\<rparr>) \<and> m \<noteq> []"
  "\<exists>m. gai_error code s p = (Quit 0, p\<lparr>err_out := err_out p @ m\<rparr>) \<and> m \<noteq> []"
  "\<exists>m. app_error s p = (Quit 0, p\<lparr>err_out := err_out p @ m\<rparr>) \<and> m \<noteq> []"
  "\<exists>m. dns_error s p = (Quit 0, p\<lparr>err_out := err_out p @ m\<rparr>) \<and> m \<noteq> []"
  unfolding error_defs by blast+

text \<open>In \<open>Sleep\<close> the test for an error is on an unsigned result and always false.\<close>

lemma wrappers_exit_0:
  shows "exits_0_on (\<lambda>pid p. pid < 0) fork (Fork fork) (\<lambda>r. r)"
    and "exits_0_on (\<lambda>rc p. rc < 0) (execve filename argv envp) (Execve execve filename argv envp) (\<lambda>_. ())"
    and "exits_0_on (\<lambda>pid p. pid < 0) (wait statusp) (Wait wait statusp) (\<lambda>r. r)"
    and "exits_0_on (\<lambda>retpid p. retpid < 0) (waitpid pid iptr options) (Waitpid waitpid pid iptr options) (\<lambda>r. r)"
    and "exits_0_on (\<lambda>rc p. rc < 0) (kill pid signum) (Kill kill pid signum) (\<lambda>_. ())"
    and "exits_0_on (\<lambda>_ _. False) pause (Pause pause) (\<lambda>_. ())"
    and "exits_0_on (\<lambda>_ _. False) (sleep secs) (Sleep sleep secs) (\<lambda>r. r)"
    and "exits_0_on (\<lambda>_ _. False) (alarm seconds) (Alarm alarm seconds) (\<lambda>r. r)"
    and "exits_0_on (\<lambda>rc p. rc < 0) (setpgid pid pgid) (Setpgid setpgid pid pgid) (\<lambda>_. ())"
    and "exits_0_on (\<lambda>_ _. False) getpgrp (Getpgrp getpgrp) (\<lambda>r. r)"
    and "exits_0_on (\<lambda>rc p. rc < 0) (sigprocmask how sigs oldset) (Sigprocmask sigprocmask how sigs oldset) (\<lambda>_. ())"
    and "exits_0_on (\<lambda>rc p. rc < 0) (sigemptyset sigs) (Sigemptyset sigemptyset sigs) (\<lambda>_. ())"
    and "exits_0_on (\<lambda>rc p. rc < 0) (sigfillset sigs) (Sigfillset sigfillset sigs) (\<lambda>_. ())"
    and "exits_0_on (\<lambda>rc p. rc < 0) (sigaddset sigs signum) (Sigaddset sigaddset sigs signum) (\<lambda>_. ())"
    and "exits_0_on (\<lambda>rc p. rc < 0) (sigdelset sigs signum) (Sigdelset sigdelset sigs signum) (\<lambda>_. ())"
    and "exits_0_on (\<lambda>rc p. rc < 0) (sigismember sigs signum) (Sigismember sigismember sigs signum) (\<lambda>r. r)"
    and "exits_0_on (\<lambda>rc p. c_errno p \<noteq> EINTR) (sigsuspend sigs) (Sigsuspend sigsuspend sigs) (\<lambda>r. r)"
    and "exits_0_on (\<lambda>rc p. rc < 0) (open pathname flags mode) (Open open pathname flags mode) (\<lambda>r. r)"
    and "exits_0_on (\<lambda>rc p. rc < 0) (read fd buf nbytes) (Read read fd buf nbytes) (\<lambda>r. r)"
    and "exits_0_on (\<lambda>rc p. rc < 0) (write fd buf nbytes) (Write write fd buf nbytes) (\<lambda>r. r)"
    and "exits_0_on (\<lambda>rc p. rc < 0) (lseek fildes offset whence) (Lseek lseek fildes offset whence) (\<lambda>r. r)"
    and "exits_0_on (\<lambda>rc p. rc < 0) (close fd) (Close close fd) (\<lambda>_. ())"
    and "exits_0_on (\<lambda>rc p. rc < 0) (select n readfds writefds exceptfds timeout) (Select select n readfds writefds exceptfds timeout) (\<lambda>r. r)"
    and "exits_0_on (\<lambda>rc p. rc < 0) (dup2 fd1 fd2) (Dup2 dup2 fd1 fd2) (\<lambda>r. r)"
    and "exits_0_on (\<lambda>rc p. rc < 0) (stat filename buf) (Stat stat filename buf) (\<lambda>_. ())"
    and "exits_0_on (\<lambda>rc p. rc < 0) (fstat fd buf) (Fstat fstat fd buf) (\<lambda>_. ())"
    and "exits_0_on (\<lambda>dirp p. dirp = None) (opendir name) (Opendir opendir name) (\<lambda>r. r)"
    and "exits_0_on (\<lambda>rc p. rc < 0) (closedir dirp) (Closedir closedir dirp) (\<lambda>r. r)"
    and "exits_0_on (\<lambda>ptr p. ptr = - 1) (mmap addr len prot flags fd offset) (Mmap mmap addr len prot flags fd offset) (\<lambda>r. r)"
    and "exits_0_on (\<lambda>rc p. rc < 0) (munmap start len) (Munmap munmap start len) (\<lambda>_. ())"
    and "exits_0_on (\<lambda>ptr p. ptr = None) (malloc sz) (Malloc malloc sz) (\<lambda>r. r)"
    and "exits_0_on (\<lambda>q p. q = None) (realloc ptr sz) (Realloc realloc ptr sz) (\<lambda>r. r)"
    and "exits_0_on (\<lambda>q p. q = None) (calloc nmemb sz) (Calloc calloc nmemb sz) (\<lambda>r. r)"
    and "exits_0_on (\<lambda>_ _. False) (free ptr) (Free free ptr) (\<lambda>_. ())"
    and "exits_0_on (\<lambda>rc p. rc \<noteq> 0) (fclose fp) (Fclose fclose fp) (\<lambda>_. ())"
    and "exits_0_on (\<lambda>fp p. fp = None) (fdopen fd fmode) (Fdopen fdopen fd fmode) (\<lambda>r. r)"
    and "exits_0_on (\<lambda>fp p. fp = None) (fopen filename fmode) (Fopen fopen filename fmode) (\<lambda>r. r)"
    and "exits_0_on (\<lambda>rc p. rc = -1) (fputs text fp) (Fputs fputs text fp) (\<lambda>_. ())"
    and "exits_0_on (\<lambda>n p. n < nmemb) (fwrite data sz nmemb fp) (Fwrite fwrite data sz nmemb fp) (\<lambda>_. ())"
    and "exits_0_on (\<lambda>rc p. rc < 0) (socket domain type protocol) (Socket socket domain type protocol) (\<lambda>r. r)"
    and "exits_0_on (\<lambda>rc p. rc < 0) (setsockopt s level optname optval optlen) (Setsockopt setsockopt s level optname optval optlen) (\<lambda>_. ())"
    and "exits_0_on (\<lambda>rc p. rc < 0) (bind sockfd my_addr addrlen) (Bind bind sockfd my_addr addrlen) (\<lambda>_. ())"
    and "exits_0_on (\<lambda>rc p. rc < 0) (listen s backlog) (Listen listen s backlog) (\<lambda>_. ())"
    and "exits_0_on (\<lambda>rc p. rc < 0) (accept s caddr addrlen) (Accept accept s caddr addrlen) (\<lambda>r. r)"
    and "exits_0_on (\<lambda>rc p. rc < 0) (connect sockfd serv_addr addrlen) (Connect connect sockfd serv_addr addrlen) (\<lambda>_. ())"
    and "exits_0_on (\<lambda>rc p. rc \<noteq> 0) (getaddrinfo node service hints res) (Getaddrinfo getaddrinfo node service hints res) (\<lambda>_. ())"
    and "exits_0_on (\<lambda>rc p. rc \<noteq> 0) (getnameinfo sa salen host hostlen serv servlen flags) (Getnameinfo getnameinfo sa salen host hostlen serv servlen flags) (\<lambda>_. ())"
    and "exits_0_on (\<lambda>_ _. False) (freeaddrinfo res) (Freeaddrinfo freeaddrinfo res) (\<lambda>_. ())"
    and "exits_0_on (\<lambda>r p. r = None) (inet_ntop af src dst sz) (Inet_ntop inet_ntop af src dst sz) (\<lambda>_. ())"
    and "exits_0_on (\<lambda>h p. h = None) (gethostbyname name) (Gethostbyname gethostbyname name) (\<lambda>r. r)"
    and "exits_0_on (\<lambda>h p. h = None) (gethostbyaddr haddr alen type) (Gethostbyaddr gethostbyaddr haddr alen type) (\<lambda>r. r)"
    and "exits_0_on (\<lambda>rc p. rc \<noteq> 0) (pthread_create tidp attrp routine argp) (Pthread_create pthread_create tidp attrp routine argp) (\<lambda>_. ())"
    and "exits_0_on (\<lambda>rc p. rc \<noteq> 0) (pthread_cancel tid) (Pthread_cancel pthread_cancel tid) (\<lambda>_. ())"
    and "exits_0_on (\<lambda>rc p. rc \<noteq> 0) (pthread_join tid thread_return) (Pthread_join pthread_join tid thread_return) (\<lambda>_. ())"
    and "exits_0_on (\<lambda>rc p. rc \<noteq> 0) (pthread_detach tid) (Pthread_detach pthread_detach tid) (\<lambda>_. ())"
    and "exits_0_on (\<lambda>_ _. False) pthread_self (Pthread_self pthread_self) (\<lambda>r. r)"
    and "exits_0_on (\<lambda>_ _. False) (pthread_once once_control init_function) (Pthread_once pthread_once once_control init_function) (\<lambda>_. ())"
    and "exits_0_on (\<lambda>rc p. rc < 0) (sem_init sem pshared val) (Sem_init sem_init sem pshared val) (\<lambda>_. ())"
  by (simp_all add: exits_0_on_def split_beta Let_def
    Fork_def Execve_def Wait_def Waitpid_def Kill_def Pause_def Sleep_def Alarm_def Setpgid_def
    Getpgrp_def Sigprocmask_def Sigemptyset_def Sigfillset_def Sigaddset_def Sigdelset_def Sigismember_def
    Sigsuspend_def Open_def Read_def Write_def Lseek_def Close_def Select_def Dup2_def Stat_def
    Fstat_def Opendir_def Closedir_def Mmap_def Munmap_def Malloc_def Realloc_def Calloc_def Free_def
    Fclose_def Fdopen_def Fopen_def Fputs_def Fwrite_def Socket_def Setsockopt_def Bind_def Listen_def
    Accept_def Connect_def Getaddrinfo_def Getnameinfo_def Freeaddrinfo_def Inet_ntop_def Gethostbyname_def
    Gethostbyaddr_def Pthread_create_def Pthread_cancel_def Pthread_join_def Pthread_detach_def
    Pthread_self_def Pthread_once_def Sem_init_def)

subsection \<open>How the server ends\<close>

text \<open>A server that cannot listen exits with status 0, which means success.\<close>

theorem listen_failure_exits_0:
  "Open_listenfd e gai ps listening fs p = (Quit c, q) \<Longrightarrow> c = 0 \<and> fst (open_listenfd gai ps listening fs) < 0"
  by (auto simp: Open_listenfd_def unix_error_def Let_def split: if_splits)

lemma and_then_cases:
  assumes "and_then f g p = (Quit c, q)"
  obtains "f p = (Quit c, q)" | r p' where "f p = (Back r, p')" "g r p' = (Quit c, q)"
  using assms by (auto simp: and_then_def split: prod.splits fin.splits)

text \<open>The message that \<open>unix_error\<close> or \<open>posix_error\<close> has printed last.\<close>

definition last_error :: "'o process \<Rightarrow> string \<Rightarrow> bool" where
  "last_error p s \<longleftrightarrow> (\<exists>ms e. err_out p = ms @ [Msg s, Msg '': '', Strerror e, newline])"

lemma round_quits:
  assumes "main_round malloc accept pthread_create clientaddr clientlen tid attr service serverfd p = (Quit c, q)"
  shows "c = 0 \<and> (\<exists>s \<in> {''Malloc error'', ''Accept error'', ''Pthread_create error''}. last_error q s)"
  using assms unfolding main_round_def
  by (elim and_then_cases)
     (auto simp: Malloc_def Accept_def Pthread_create_def unix_error_def posix_error_def last_error_def
       split: prod.splits if_splits)

lemma rounds_quit:
  "main_rounds n body serverfd p = (Quit c, q) \<Longrightarrow> \<exists>p'. body serverfd p' = (Quit c, q)"
  by (induction n body serverfd p rule: main_rounds.induct) (auto elim: and_then_cases)


text \<open>A system on which everything succeeds, but the second \<open>accept\<close>: \<open>outside\<close> counts the clients.\<close>

definition demo_accept_call :: "int \<Rightarrow> unit \<Rightarrow> unit \<Rightarrow> (nat, int) syscall" where
  "demo_accept_call fd _ _ p = (if outside p = 0 then (5, p\<lparr>outside := 1\<rparr>) else (-1, p\<lparr>c_errno := 24\<rparr>))"

definition demo_server :: "nat \<Rightarrow> (nat, unit) wrapped" where
  "demo_server n =
     and_then (main_start (\<lambda>_ _ p. (0, p)) (\<lambda>_. Open_listenfd 0 0 [\<lparr>ai_socket = 3, ai_ready = True, ai_close = 0\<rparr>] 0 []) () ()
         None [''xacto'', ''-p'', ''3333''])
       (main_rounds n (main_round (\<lambda>_ p. (Some (), p)) demo_accept_call (\<lambda>_ _ _ _ p. (0, p)) () () () () ()))"

lemma demo_server_ends:
  "demo_server 1 \<lparr>c_errno = 0, err_out = [], std_out = [], outside = 0\<rparr> =
     (Back (), \<lparr>c_errno = 0, err_out = [], std_out = [], outside = 1\<rparr>)"
  "demo_server 2 \<lparr>c_errno = 0, err_out = [], std_out = [], outside = 0\<rparr> = (Quit 0,
     \<lparr>c_errno = 24, err_out = [Msg ''Accept error'', Msg '': '', Strerror 24, newline], std_out = [], outside = 1\<rparr>)"
  by (simp_all add: demo_server_def demo_accept_call_def and_then_def main_start_def main_round_def port_def getFlag_def
      Open_listenfd_def open_listenfd_def Malloc_def Accept_def Pthread_create_def unix_error_def numeral_2_eq_2)


end
