(* ===== verification/Server_Listings.thy ===== *)
theory Server_Listings
  imports Server_Data
begin

section \<open>Server store: listings of transactions and versions\<close>

text \<open>
  \<open>trans_show_all\<close> of \<open>transaction.c\<close> and \<open>version_show_all\<close> of \<open>data.c\<close>, which write to the standard error stream:
  the text written. Unsigned numbers are printed with \<open>%i\<close>, as signed ones. The text of a pointer is an argument.
\<close>

function dec_digits :: "nat \<Rightarrow> string" where
  "dec_digits n = (if n < 10 then [char_of (48 + n)] else dec_digits (n div 10) @ [char_of (48 + n mod 10)])"
  by pat_completeness auto
termination by (relation "measure id") auto

declare dec_digits.simps [simp del]

definition percent_i :: "u32 \<Rightarrow> string" where
  "percent_i w = (if sint w < 0 then CHR 0x2D # dec_digits (nat (- sint w)) else dec_digits (nat (sint w)))"

subsection \<open>Transactions\<close>

fun status_number :: "TRANS_STATUS \<Rightarrow> u32" where
  "status_number TRANS_PENDING = 0"
| "status_number TRANS_COMMITTED = 1"
| "status_number TRANS_ABORTED = 2"

definition trans_show :: "tman \<Rightarrow> nat \<Rightarrow> string" where
  "trans_show s tp =
     ''[id:'' @ percent_i (t_id (heap s tp)) @ '' status:'' @ percent_i (status_number (status s tp)) @
     '' ref:'' @ percent_i (t_refcnt (heap s tp)) @ ''] ''"

text \<open>The number of transactions bounds the rounds; \<open>None\<close> means that they do not suffice.\<close>

fun show_loop :: "nat \<Rightarrow> nat \<Rightarrow> tman \<Rightarrow> string option" where
  "show_loop 0 tp s = None"
| "show_loop (Suc k) tp s =
     (if tp = 0 then Some [CHR 0x0A] else map_option (\<lambda>out. trans_show s tp @ out) (show_loop k (trans_list_next s tp) s))"

definition trans_show_all :: "tman \<Rightarrow> string option" where
  "trans_show_all s = show_loop (ntrans s + 1) (trans_list_next s 0) s"

lemma show_loop_from:
  assumes "tl.rep s 0 [1..<ntrans s + 1]"
  shows "1 \<le> tp \<Longrightarrow> tp \<le> ntrans s + 1 \<Longrightarrow> ntrans s + 1 - tp < k \<Longrightarrow>
    show_loop k (if tp \<le> ntrans s then tp else 0) s = Some (concat (map (trans_show s) [tp..<ntrans s + 1]) @ [CHR 0x0A])"
proof (induction k arbitrary: tp)
  case (Suc k)
  show ?case
  proof (cases "tp \<le> ntrans s")
    case True
    have n: "trans_list_next s tp = (if tp + 1 \<le> ntrans s then tp + 1 else 0)"
      using trans_next [OF assms Suc.prems(1) True] by simp
    have "[tp..<ntrans s + 1] = tp # [tp + 1..<ntrans s + 1]" using True by (simp add: upt_conv_Cons del: upt_Suc)
    moreover have "show_loop k (trans_list_next s tp) s =
        Some (concat (map (trans_show s) [tp + 1..<ntrans s + 1]) @ [CHR 0x0A])"
      unfolding n by (rule Suc.IH) (use Suc.prems True in auto)
    ultimately show ?thesis using Suc.prems(1) True by (simp del: upt_Suc)
  qed (use Suc.prems in simp)
qed simp

text \<open>The listing of the transaction manager names every transaction once, in the order of their creation, on one line,
  and ends.\<close>

theorem trans_show_all_lists:
  assumes "tman_inv s"
  shows "trans_show_all s = Some (concat (map (trans_show s) [1..<ntrans s + 1]) @ [CHR 0x0A])"
proof -
  have r: "tl.rep s 0 [1..<ntrans s + 1]" using assms by (simp add: tman_inv_def)
  have "trans_list_next s 0 = (if 1 \<le> ntrans s then 1 else 0)"
    using tl.rep_first [OF r] by (cases "ntrans s") (simp_all add: upt_conv_Cons del: upt_Suc)
  then show ?thesis unfolding trans_show_all_def using show_loop_from [OF r, of 1 "ntrans s + 1"] by simp
qed

theorem trans_show_all_lists_witness:
  "trans_show_all demo_trans = Some (trans_show demo_trans 1 @ trans_show demo_trans 2 @ [CHR 0x0A])"
  using trans_show_all_lists [of demo_trans] demo_trans_inv by (simp add: numeral_2_eq_2)

subsection \<open>Versions\<close>

definition status_word :: "TRANS_STATUS \<Rightarrow> string" where
  "status_word st =
     (if st = TRANS_COMMITTED then ''committed'' else if st = TRANS_ABORTED then ''aborted'' else ''pending'')"

text \<open>A blob without content is shown as a missing one.\<close>

definition version_show :: "(nat \<Rightarrow> string) \<Rightarrow> nat \<Rightarrow> dstate \<Rightarrow> fault + string" where
  "version_show ptr vp s =
     (case versions s vp of None \<Rightarrow> Inl Freed
      | Some v \<Rightarrow>
          (let creator = ''{creator='' @ percent_i (t_id (heap (tms s) (v_creator v))) @ '' ('' @
               status_word (trans_get_status (v_creator v) (tms s)) @ ''), '';
               null = Inr (creator @ ''(NULL blob)}'')
           in case v_blob v of None \<Rightarrow> null
              | Some b \<Rightarrow> (case blobs s b of None \<Rightarrow> Inl Freed
                  | Some blob \<Rightarrow> (case b_content blob of None \<Rightarrow> null
                      | Some c \<Rightarrow> Inr (creator @ ''blob='' @ ptr vp @ '' ['' @ c @ '']}'')))))"

fun version_show_loop :: "nat \<Rightarrow> (nat \<Rightarrow> string) \<Rightarrow> nat option \<Rightarrow> dstate \<Rightarrow> (fault + string) option" where
  "version_show_loop 0 ptr vp s = None"
| "version_show_loop (Suc n) ptr vp s =
     (case vp of None \<Rightarrow> Some (Inr [])
      | Some v \<Rightarrow>
          (case version_show ptr v s of Inl f \<Rightarrow> Some (Inl f)
           | Inr out \<Rightarrow> map_option (map_sum id (\<lambda>rest. out @ rest)) (version_show_loop n ptr (Option.bind (versions s v) v_next) s)))"

definition version_show_all :: "(nat \<Rightarrow> string) \<Rightarrow> nat option \<Rightarrow> dstate \<Rightarrow> (fault + string) option" where
  "version_show_all ptr vp s = version_show_loop (nversions s + 1) ptr vp s"

text \<open>The versions from a pointer on, along \<open>next\<close>.\<close>

fun version_list :: "dstate \<Rightarrow> nat option \<Rightarrow> nat list \<Rightarrow> bool" where
  "version_list s None [] = True"
| "version_list s (Some v) (w # vs) \<longleftrightarrow> v = w \<and> v \<in> dom (versions s) \<and> version_list s (Option.bind (versions s v) v_next) vs"
| "version_list s _ _ = False"

lemma version_show_loop_list:
  "version_list s vp vs \<Longrightarrow> length vs < n \<Longrightarrow> \<forall>v \<in> set vs. version_show ptr v s = Inr (text v) \<Longrightarrow>
   version_show_loop n ptr vp s = Some (Inr (concat (map text vs)))"
proof (induction n arbitrary: vp vs)
  case (Suc n)
  then show ?case by (cases vp; cases vs) auto
qed simp

text \<open>The listing of a list of live versions with live blobs shows each of them once, in the order of the list.\<close>

theorem version_show_all_lists:
  assumes "version_list s vp vs" "length vs \<le> nversions s"
    and "\<forall>v \<in> set vs. \<forall>b. Option.bind (versions s v) v_blob = Some b \<longrightarrow> b \<in> dom (blobs s)"
  shows "version_show_all ptr vp s = Some (Inr (concat (map (\<lambda>v. projr (version_show ptr v s)) vs)))"
proof -
  have "v \<in> dom (versions s)" if "v \<in> set vs" for v
    using assms(1) that by (induction s vp vs rule: version_list.induct) auto
  then have "version_show ptr v s = Inr (projr (version_show ptr v s))" if "v \<in> set vs" for v
    using assms(3) that by (fastforce simp: version_show_def Let_def split: option.splits)
  then show ?thesis
    unfolding version_show_all_def by (intro version_show_loop_list [OF assms(1)]) (use assms(2) in auto)
qed

text \<open>A version without a blob that the transaction with id 0 created.\<close>

definition demo_versions :: dstate where
  "demo_versions = snd (version_create 1 None \<lparr>tms = snd (trans_create tman_empty), blobs = Map.empty, nblobs = 0,
     versions = Map.empty, nversions = 0\<rparr>)"

lemma demo_versions:
  "versions demo_versions = [0 \<mapsto> \<lparr>v_creator = 1, v_blob = None, v_next = None, v_prev = None\<rparr>]" "nversions demo_versions = 1"
  "status (tms demo_versions) 1 = TRANS_PENDING" "t_id (heap (tms demo_versions) 1) = 0"
  by (simp_all add: demo_versions_def version_create_def trans_create_def tman_empty_def trans_init_def trans_ref_def
      add_trans_list_def set_tnext_def set_tprev_def trans_list_prev_def Let_def)

lemma percent_0: "percent_i 0 = ''0''"
proof -
  have "char_of (48 :: nat) = CHR ''0''" by code_simp
  then show ?thesis by (simp add: percent_i_def dec_digits.simps)
qed

theorem version_show_all_lists_witness:
  "version_show_all (\<lambda>_. []) (Some 0) demo_versions = Some (Inr ''{creator=0 (pending), (NULL blob)}'')"
proof -
  have v: "version_list demo_versions (Some 0) [0]" by (simp add: demo_versions)
  have "version_show (\<lambda>_. []) 0 demo_versions = Inr ''{creator=0 (pending), (NULL blob)}''"
    by (simp add: version_show_def demo_versions demo_versions(3,4) [unfolded One_nat_def] trans_get_status_def status_word_def
        percent_0 Let_def)
  then show ?thesis using version_show_all_lists [OF v, of "\<lambda>_. []"] by (simp add: demo_versions)
qed

end
