(* ===== verification/Heap_Model.thy ===== *)
theory Heap_Model
  imports Ring
begin

unbundle bit_operations_syntax

section \<open>Memory manager: the allocator\<close>

text \<open>
  \<open>Memory Manager/src/sfmm.c\<close>. The heap is counted in rows of 8 bytes from its start; a header and a
  footer are one row, links are in the two rows after a header. A header is at a row of the heap or
  is the dummy head of a free list node. The fields of headers and footers, the links and the list
  of free lists are kept as maps from addresses; the payload bytes are not modelled. \<open>sf_mem_grow\<close> and
  \<open>sf_add_free_list\<close> are in an object file and are arguments of the definitions. A payload pointer is
  a row, NULL is \<open>None\<close>. A call returns, calls \<open>abort\<close>, or does something undefined: it uses an
  uninitialised pointer, the NULL of a failed \<open>sf_add_free_list\<close>, or payload bytes as a footer.
\<close>

datatype addr = Row nat | Head nat

record sf_block_info =
  allocated :: bool
  prev_allocated :: bool
  block_size :: nat
  requested_size :: nat

record mm =
  info :: "addr \<Rightarrow> sf_block_info"
  lnext :: "addr \<Rightarrow> addr"
  lprev :: "addr \<Rightarrow> addr"
  nsize :: "nat \<Rightarrow> nat"
  nnext :: "nat \<Rightarrow> nat"
  nprev :: "nat \<Rightarrow> nat"
  hend :: nat
  nodes_used :: nat

datatype errno = ENOMEM

datatype 'a mres = MRet 'a | MAbort | MUndef

type_synonym add_fn = "nat \<Rightarrow> nat \<Rightarrow> mm \<Rightarrow> (nat \<times> mm) option"
type_synonym grow_fn = "mm \<Rightarrow> mm option"

abbreviation MIN_SZ :: int where "MIN_SZ \<equiv> 32"
abbreviation ALIGNMENT :: int where "ALIGNMENT \<equiv> 16"
abbreviation PAGE_SZ :: nat where "PAGE_SZ \<equiv> 4096"
abbreviation (input) PROLOGUE_ROWS :: nat where "PROLOGUE_ROWS \<equiv> 5"
abbreviation (input) free_list_head :: nat where "free_list_head \<equiv> 0"

abbreviation upd_info :: "addr \<Rightarrow> (sf_block_info \<Rightarrow> sf_block_info) \<Rightarrow> mm \<Rightarrow> mm" where
  "upd_info a f s \<equiv> s\<lparr>info := (info s)(a := f (info s a))\<rparr>"

text \<open>\<open>block_size << 4\<close>: the 28-bit field promotes to \<open>int\<close>.\<close>

definition bytes_of :: "sf_block_info \<Rightarrow> int" where
  "bytes_of i = sint (word_of_nat (block_size i * 16) :: i32)"

subsection \<open>Sizes\<close>

definition getNewSize :: "u64 \<Rightarrow> i32" where
  "getNewSize n =
     (let newSize = (ucast (8 + n) :: i32)
      in if sint newSize > MIN_SZ then
           (if sint newSize smod ALIGNMENT \<noteq> 0
            then newSize + word_of_int (ALIGNMENT - sint newSize smod ALIGNMENT)
            else newSize)
         else word_of_int MIN_SZ)"

subsection \<open>Pointers within the heap\<close>

definition getFooterPointer :: "nat \<Rightarrow> mm \<Rightarrow> nat" where
  "getFooterPointer h s = h + 2 * block_size (info s (Row h)) - 1"

definition getHeaderPointer :: "nat \<Rightarrow> mm \<Rightarrow> nat" where
  "getHeaderPointer f s = f + 1 - 2 * block_size (info s (Row f))"

definition getNextHeaderPointer :: "nat \<Rightarrow> mm \<Rightarrow> nat" where
  "getNextHeaderPointer h s = h + 2 * block_size (info s (Row h))"

definition getPayloadHeader :: "nat \<Rightarrow> nat" where
  "getPayloadHeader pp = pp - 1"

subsection \<open>Headers and footers\<close>

definition setFreeHeader :: "nat \<Rightarrow> nat \<Rightarrow> mm \<Rightarrow> mm" where
  "setFreeHeader h n s = upd_info (Row h) (\<lambda>i. i\<lparr>allocated := False, prev_allocated := True,
     block_size := n div 16 mod 2 ^ 28, requested_size := 0\<rparr>) s"

definition setFooter :: "nat \<Rightarrow> nat \<Rightarrow> mm \<Rightarrow> mm" where
  "setFooter f n s = upd_info (Row f) (\<lambda>i. i\<lparr>allocated := False, prev_allocated := True,
     block_size := n div 16 mod 2 ^ 28, requested_size := 0\<rparr>) s"

definition createPrologue :: "mm \<Rightarrow> mm" where
  "createPrologue s =
     (let f = (\<lambda>i. i\<lparr>allocated := True, prev_allocated := False, block_size := 3\<rparr>)
      in upd_info (Row 4) f (upd_info (Row 1) f s))"

definition createEpilogue :: "mm \<Rightarrow> mm" where
  "createEpilogue s = upd_info (Row (hend s - 1)) (\<lambda>i. i\<lparr>allocated := True, prev_allocated := False, block_size := 0\<rparr>) s"

definition coalesce :: "nat \<Rightarrow> nat \<Rightarrow> mm \<Rightarrow> mm" where
  "coalesce freeHeader n s =
     (let newSize = block_size (info s (Row freeHeader)) * 16 + n;
          s = setFreeHeader freeHeader newSize s
      in setFooter (getFooterPointer freeHeader s) newSize s)"

subsection \<open>Free lists\<close>

definition set_lnext :: "addr \<Rightarrow> addr \<Rightarrow> mm \<Rightarrow> mm" where
  "set_lnext a b s = s\<lparr>lnext := (lnext s)(a := b)\<rparr>"

definition set_lprev :: "addr \<Rightarrow> addr \<Rightarrow> mm \<Rightarrow> mm" where
  "set_lprev a b s = s\<lparr>lprev := (lprev s)(a := b)\<rparr>"

interpretation fl: linked lnext lprev set_lnext set_lprev
  by unfold_locales (simp_all add: set_lnext_def set_lprev_def)

definition removeHeader :: "addr \<Rightarrow> mm \<Rightarrow> mm" where
  "removeHeader h s =
     (let s = set_lnext (lprev s h) (lnext s h) s
      in set_lprev (lnext s h) (lprev s h) s)"

definition addHeaderToFreeList :: "addr \<Rightarrow> nat \<Rightarrow> mm \<Rightarrow> mm" where
  "addHeaderToFreeList h sentinel s =
     (let s = set_lnext h (lnext s (Head sentinel)) s;
          s = set_lprev h (Head sentinel) s;
          s = set_lprev (lnext s (Head sentinel)) h s
      in set_lnext (Head sentinel) h s)"

text \<open>
  The loops over the list of free lists end at its head; the number of nodes ever made bounds
  them.
\<close>

fun size_loop :: "nat \<Rightarrow> nat \<Rightarrow> nat \<Rightarrow> mm \<Rightarrow> nat option" where
  "size_loop 0 cur n s = None"
| "size_loop (Suc k) cur n s =
     (if cur = free_list_head then Some free_list_head
      else if nsize s cur \<ge> n then Some cur
      else size_loop k (nnext s cur) n s)"

definition getSizeNode :: "nat \<Rightarrow> mm \<Rightarrow> nat option" where
  "getSizeNode n s = size_loop (nodes_used s + 1) (nnext s free_list_head) n s"

definition getSentinelOfSize :: "add_fn \<Rightarrow> nat \<Rightarrow> mm \<Rightarrow> (nat \<times> mm) option" where
  "getSentinelOfSize sf_add_free_list newSize s =
     (case getSizeNode newSize s of None \<Rightarrow> None
      | Some cur \<Rightarrow>
          if newSize = nsize s cur then Some (cur, s) else sf_add_free_list newSize cur s)"

definition add_free :: "add_fn \<Rightarrow> nat \<Rightarrow> nat \<Rightarrow> mm \<Rightarrow> mm mres" where
  "add_free sf_add_free_list h n s =
     (case getSentinelOfSize sf_add_free_list n s of None \<Rightarrow> MUndef
      | Some (sentinel, s) \<Rightarrow> MRet (addHeaderToFreeList (Row h) sentinel s))"

subsection \<open>Growing the heap\<close>

definition mem_init :: "grow_fn \<Rightarrow> mm \<Rightarrow> (nat \<times> mm) option" where
  "mem_init sf_mem_grow s =
     (if 0 \<noteq> hend s then None
      else case sf_mem_grow s of None \<Rightarrow> None
        | Some s \<Rightarrow>
            (let s = createPrologue s;
                 s = createEpilogue s;
                 freeSize = 8 * (hend s - PROLOGUE_ROWS - 1);
                 s = setFreeHeader PROLOGUE_ROWS freeSize s
             in Some (PROLOGUE_ROWS, setFooter (getFooterPointer PROLOGUE_ROWS s) freeSize s)))"

text \<open>\<open>MRet (None, s)\<close> is the return of NULL.\<close>

definition mem_grow :: "add_fn \<Rightarrow> grow_fn \<Rightarrow> mm \<Rightarrow> (nat option \<times> mm) mres" where
  "mem_grow sf_add_free_list sf_mem_grow s =
     (let epilogue = hend s - 1; freeFooter = epilogue - 1; freeHeader = epilogue
      in case sf_mem_grow s of
           None \<Rightarrow>
             if prev_allocated (info s (Row epilogue)) then MUndef
             else (let freeHeader = getHeaderPointer freeFooter s
                   in case add_free sf_add_free_list freeHeader (block_size (info s (Row freeHeader)) * 16) s of
                        MRet s \<Rightarrow> MRet (None, s) | MAbort \<Rightarrow> MAbort | MUndef \<Rightarrow> MUndef)
         | Some s \<Rightarrow>
             (let (freeHeader, s) =
                    (if \<not> prev_allocated (info s (Row epilogue)) then
                       (let freeHeader = getHeaderPointer freeFooter s
                        in (freeHeader, if nnext s free_list_head \<noteq> free_list_head
                                        then removeHeader (Row freeHeader) s else s))
                     else (freeHeader, s));
                  s = createEpilogue s
              in MRet (Some freeHeader, coalesce freeHeader PAGE_SZ s)))"

subsection \<open>Splitting\<close>

definition splitBlock :: "add_fn \<Rightarrow> nat \<Rightarrow> nat \<Rightarrow> mm \<Rightarrow> (nat option \<times> mm) mres" where
  "splitBlock sf_add_free_list allocHeader newSize s =
     (if newSize < 32 then MRet (None, s)
      else
        (let freeHeader = getNextHeaderPointer allocHeader s;
             s = setFreeHeader freeHeader newSize s;
             nextHeader = getNextHeaderPointer freeHeader s
         in if \<not> allocated (info s (Row nextHeader)) then
              (let s = removeHeader (Row nextHeader) s;
                   s = coalesce freeHeader (block_size (info s (Row nextHeader)) * 16) s;
                   n = block_size (info s (Row freeHeader)) * 16;
                   s = setFooter (getFooterPointer freeHeader s) n s
               in case add_free sf_add_free_list freeHeader n s of
                    MRet s \<Rightarrow> MRet (Some freeHeader, s) | MAbort \<Rightarrow> MAbort | MUndef \<Rightarrow> MUndef)
            else
              (case add_free sf_add_free_list freeHeader newSize s of
                 MRet s \<Rightarrow> MRet (Some freeHeader, setFooter (getFooterPointer freeHeader s) newSize s)
               | MAbort \<Rightarrow> MAbort | MUndef \<Rightarrow> MUndef)))"

subsection \<open>sf_malloc\<close>

text \<open>
  The search leaves the node it stopped at and \<open>header\<close>, \<open>None\<close> while it is uninitialised. The node
  size is a \<open>size_t\<close>: the \<open>int\<close> it is compared with is converted.
\<close>

definition to_size_t :: "int \<Rightarrow> nat" where
  "to_size_t i = unat (word_of_int i :: u64)"

fun fit_loop :: "nat \<Rightarrow> nat \<Rightarrow> int \<Rightarrow> addr option \<Rightarrow> mm \<Rightarrow> (nat \<times> addr option) option" where
  "fit_loop 0 cur newSize header s = None"
| "fit_loop (Suc k) cur newSize header s =
     (if cur = free_list_head then Some (cur, header)
      else if nsize s cur \<ge> to_size_t newSize then
        (let header = lnext s (Head cur)
         in if header \<noteq> Head cur then Some (cur, Some header)
            else fit_loop k (nnext s cur) newSize (Some header) s)
      else fit_loop k (nnext s cur) newSize header s)"

fun grow_loop :: "add_fn \<Rightarrow> grow_fn \<Rightarrow> nat \<Rightarrow> int \<Rightarrow> addr \<Rightarrow> mm \<Rightarrow> (addr option \<times> mm) mres" where
  "grow_loop sf_add_free_list sf_mem_grow 0 newSize header s = MUndef"
| "grow_loop sf_add_free_list sf_mem_grow (Suc k) newSize header s =
     (if bytes_of (info s header) < newSize then
        (case mem_grow sf_add_free_list sf_mem_grow s of
           MRet (Some h, s) \<Rightarrow> grow_loop sf_add_free_list sf_mem_grow k newSize (Row h) s
         | MRet (None, s) \<Rightarrow> MRet (None, s)
         | MAbort \<Rightarrow> MAbort | MUndef \<Rightarrow> MUndef)
      else MRet (Some header, s))"

definition place :: "add_fn \<Rightarrow> nat \<Rightarrow> nat \<Rightarrow> int \<Rightarrow> mm \<Rightarrow> mm mres" where
  "place sf_add_free_list req h newSize s =
     (let old_block_size = bytes_of (info s (Row h));
          s = upd_info (Row h) (\<lambda>i. i\<lparr>block_size := nat (newSize div 16) mod 2 ^ 28, requested_size := req mod 2 ^ 32,
                allocated := True, prev_allocated := True\<rparr>) s;
          splitSize = old_block_size - newSize
      in case (if splitSize < 32
               then MRet (upd_info (Row h) (\<lambda>i. i\<lparr>block_size := nat (old_block_size div 16) mod 2 ^ 28\<rparr>) s)
               else (case splitBlock sf_add_free_list h (nat splitSize) s of
                       MRet (_, s) \<Rightarrow> MRet s | MAbort \<Rightarrow> MAbort | MUndef \<Rightarrow> MUndef)) of
           MRet s \<Rightarrow> MRet (upd_info (Row (getNextHeaderPointer h s)) (\<lambda>i. i\<lparr>prev_allocated := True\<rparr>) s)
         | r \<Rightarrow> r)"

definition GROW_MAX :: nat where
  "GROW_MAX = 2 ^ 19 + 2"

definition sf_malloc :: "add_fn \<Rightarrow> grow_fn \<Rightarrow> u64 \<Rightarrow> mm \<Rightarrow> (nat option \<times> errno option \<times> mm) mres" where
  "sf_malloc sf_add_free_list sf_mem_grow n s =
     (if n = 0 then MRet (None, None, s)
      else
        (let newSize = sint (getNewSize n);
             start =
               (if 0 = hend s then
                  (case mem_init sf_mem_grow s of None \<Rightarrow> MRet (None, s) | Some (h, s) \<Rightarrow> MRet (Some (Row h), s))
                else
                  (case fit_loop (nodes_used s + 1) (nnext s free_list_head) newSize None s of
                     None \<Rightarrow> MUndef
                   | Some (cur, header) \<Rightarrow>
                       (case header of None \<Rightarrow> MUndef
                        | Some h \<Rightarrow>
                            if cur \<noteq> free_list_head then MRet (Some h, removeHeader h s)
                            else MRet (Some h, upd_info h (\<lambda>i. i\<lparr>block_size := 0\<rparr>) s))))
         in case start of
              MRet (None, s) \<Rightarrow> MRet (None, None, s)
            | MRet (Some header, s) \<Rightarrow>
                (case grow_loop sf_add_free_list sf_mem_grow GROW_MAX newSize header s of
                   MRet (None, s) \<Rightarrow> MRet (None, Some ENOMEM, s)
                 | MRet (Some (Row h), s) \<Rightarrow>
                     (case place sf_add_free_list (unat n) h newSize s of
                        MRet s \<Rightarrow> MRet (Some (h + 1), None, s) | MAbort \<Rightarrow> MAbort | MUndef \<Rightarrow> MUndef)
                 | MRet (Some (Head k), s) \<Rightarrow> MUndef
                 | MAbort \<Rightarrow> MAbort | MUndef \<Rightarrow> MUndef)
            | MAbort \<Rightarrow> MAbort | MUndef \<Rightarrow> MUndef))"

subsection \<open>sf_free and sf_realloc\<close>

text \<open>\<open>True\<close>: \<open>abort\<close> is called.\<close>

definition sf_abort :: "nat option \<Rightarrow> mm \<Rightarrow> bool" where
  "sf_abort pp s =
     (case pp of None \<Rightarrow> True
      | Some p \<Rightarrow>
          (let i = info s (Row (p - 1))
           in if p \<ge> hend s - 1 \<or> p < PROLOGUE_ROWS then True
              else if \<not> allocated i \<or> bytes_of i < MIN_SZ \<or> bytes_of i smod 16 \<noteq> 0 \<or>
                      to_size_t (bytes_of i) < requested_size i + 8 then True
              else if \<not> prev_allocated i then allocated (info s (Row (p - 1 - 1)))
              else False))"

definition sf_free :: "add_fn \<Rightarrow> nat option \<Rightarrow> mm \<Rightarrow> mm mres" where
  "sf_free sf_add_free_list pp s =
     (if sf_abort pp s then MAbort
      else
        (let hp = getPayloadHeader (the pp);
             (newHeader, s) =
               (if \<not> prev_allocated (info s (Row hp)) then
                  (let previousHeader = getHeaderPointer (hp - 1) s;
                       s = removeHeader (Row previousHeader) s
                   in (previousHeader, coalesce previousHeader (block_size (info s (Row hp)) * 16) s))
                else (hp, s));
             nextHeader = getNextHeaderPointer hp s;
             s = (if \<not> allocated (info s (Row nextHeader)) then
                    (let s = removeHeader (Row nextHeader) s
                     in coalesce newHeader (block_size (info s (Row nextHeader)) * 16) s)
                  else s);
             s = coalesce newHeader 0 s
         in case add_free sf_add_free_list newHeader (block_size (info s (Row newHeader)) * 16) s of
              MRet s \<Rightarrow>
                (let nextHeader = getNextHeaderPointer newHeader s
                 in MRet (upd_info (Row nextHeader) (\<lambda>i. i\<lparr>prev_allocated := False\<rparr>) s))
            | r \<Rightarrow> r))"

definition sf_realloc :: "add_fn \<Rightarrow> grow_fn \<Rightarrow> nat option \<Rightarrow> u64 \<Rightarrow> mm \<Rightarrow> (nat option \<times> errno option \<times> mm) mres" where
  "sf_realloc sf_add_free_list sf_mem_grow pp rsize s =
     (if sf_abort pp s then MAbort
      else if rsize = 0 then
        (case sf_free sf_add_free_list pp s of MRet s \<Rightarrow> MRet (None, None, s) | MAbort \<Rightarrow> MAbort | MUndef \<Rightarrow> MUndef)
      else
        (let hp = getPayloadHeader (the pp);
             newSize = sint (getNewSize rsize)
         in if requested_size (info s (Row hp)) < unat rsize then
              (case sf_malloc sf_add_free_list sf_mem_grow rsize s of
                 MRet (None, e, s) \<Rightarrow> MRet (None, e, s)
               | MRet (Some newPayload, e, s) \<Rightarrow>
                   (case sf_free sf_add_free_list pp s of
                      MRet s \<Rightarrow> MRet (Some newPayload, None, s) | MAbort \<Rightarrow> MAbort | MUndef \<Rightarrow> MUndef)
               | MAbort \<Rightarrow> MAbort | MUndef \<Rightarrow> MUndef)
            else if requested_size (info s (Row hp)) > unat rsize then
              (let splitSize = bytes_of (info s (Row hp)) - newSize;
                   s = upd_info (Row hp) (\<lambda>i. i\<lparr>requested_size := unat rsize mod 2 ^ 32\<rparr>) s
               in if splitSize \<ge> MIN_SZ then
                    (let s = upd_info (Row hp) (\<lambda>i. i\<lparr>block_size := nat (newSize div 16) mod 2 ^ 28\<rparr>) s
                     in case splitBlock sf_add_free_list hp (nat splitSize) s of
                          MRet (Some f, s) \<Rightarrow>
                            MRet (pp, None, upd_info (Row (getNextHeaderPointer f s)) (\<lambda>i. i\<lparr>prev_allocated := False\<rparr>) s)
                        | MRet (None, s) \<Rightarrow> MUndef
                        | MAbort \<Rightarrow> MAbort | MUndef \<Rightarrow> MUndef)
                  else MRet (pp, None, s))
            else MRet (pp, None, s)))"

end
