(* ===== verification/Heap_Layout.thy ===== *)
theory Heap_Layout
  imports Heap_Model
begin

section \<open>Memory manager: the invariant of the heap\<close>

text \<open>
  The well-formedness of a heap of \<open>sfmm.c\<close> and the lemmas on its two halves. The layout: from the
  prologue to the epilogue the heap is a sequence of blocks, each a size in 16-byte units with its
  \<open>allocated\<close> bit; headers agree with it, a free block has a footer, no two free blocks touch, and
  every \<open>prev_allocated\<close> bit is right. The free lists: the list of free lists is a ring in increasing
  order of size, each list is a ring of the headers of exactly the free blocks of its size.
\<close>

type_synonym block = "nat \<times> bool"

subsection \<open>The layout of the heap\<close>

fun stop :: "nat \<Rightarrow> block list \<Rightarrow> nat" where
  "stop h [] = h"
| "stop h ((n, a) # bs) = stop (h + 2 * n) bs"

fun last_alloc :: "bool \<Rightarrow> block list \<Rightarrow> bool" where
  "last_alloc pa [] = pa"
| "last_alloc pa ((n, a) # bs) = last_alloc a bs"

definition free_info :: "nat \<Rightarrow> sf_block_info" where
  "free_info n = \<lparr>allocated = False, prev_allocated = True, block_size = n, requested_size = 0\<rparr>"

definition blk :: "mm \<Rightarrow> nat \<Rightarrow> bool \<Rightarrow> nat \<Rightarrow> bool \<Rightarrow> bool" where
  "blk s h pa n a \<longleftrightarrow>
     2 \<le> n \<and> block_size (info s (Row h)) = n \<and> allocated (info s (Row h)) = a \<and>
     prev_allocated (info s (Row h)) = pa \<and>
     (if a then requested_size (info s (Row h)) + 8 \<le> 16 * n
      else pa \<and> \<not> allocated (info s (Row (h + 2 * n - 1))) \<and> block_size (info s (Row (h + 2 * n - 1))) = n)"

definition epi :: "mm \<Rightarrow> nat \<Rightarrow> bool \<Rightarrow> bool" where
  "epi s h pa \<longleftrightarrow>
     h + 1 = hend s \<and> allocated (info s (Row h)) \<and> prev_allocated (info s (Row h)) = pa \<and> block_size (info s (Row h)) = 0"

fun seg :: "mm \<Rightarrow> nat \<Rightarrow> bool \<Rightarrow> block list \<Rightarrow> bool" where
  "seg s h pa [] \<longleftrightarrow> True"
| "seg s h pa ((n, a) # bs) \<longleftrightarrow> blk s h pa n a \<and> seg s (h + 2 * n) a bs"

definition lay :: "mm \<Rightarrow> nat \<Rightarrow> bool \<Rightarrow> block list \<Rightarrow> bool" where
  "lay s h pa bs \<longleftrightarrow> seg s h pa bs \<and> epi s (stop h bs) (last_alloc pa bs)"

fun frees :: "nat \<Rightarrow> block list \<Rightarrow> (nat \<times> nat) set" where
  "frees h [] = {}"
| "frees h ((n, a) # bs) = (if a then {} else {(h, n)}) \<union> frees (h + 2 * n) bs"

lemma stop_append [simp]: "stop h (xs @ ys) = stop (stop h xs) ys"
  by (induction h xs rule: stop.induct) auto

lemma last_alloc_append [simp]: "last_alloc pa (xs @ ys) = last_alloc (last_alloc pa xs) ys"
  by (induction pa xs rule: last_alloc.induct) auto

lemma frees_append [simp]: "frees h (xs @ ys) = frees h xs \<union> frees (stop h xs) ys"
  by (induction h xs rule: frees.induct) auto

lemma seg_append [simp]: "seg s h pa (xs @ ys) \<longleftrightarrow> seg s h pa xs \<and> seg s (stop h xs) (last_alloc pa xs) ys"
  by (induction s h pa xs rule: seg.induct) auto

lemma lay_append [simp]: "lay s h pa (xs @ ys) \<longleftrightarrow> seg s h pa xs \<and> lay s (stop h xs) (last_alloc pa xs) ys"
  by (auto simp: lay_def)

lemma lay_Nil [simp]: "lay s h pa [] \<longleftrightarrow> epi s h pa"
  by (simp add: lay_def)

lemma lay_Cons [simp]: "lay s h pa ((n, a) # bs) \<longleftrightarrow> blk s h pa n a \<and> lay s (h + 2 * n) a bs"
  by (auto simp: lay_def)

lemma stop_ge: "h \<le> stop h bs"
  by (induction h bs rule: stop.induct) auto

lemma stop_parity: "stop h bs mod 2 = h mod 2"
  by (induction h bs rule: stop.induct) auto

lemma lay_end: "lay s h pa bs \<Longrightarrow> stop h bs + 1 = hend s"
  by (simp add: lay_def epi_def)

lemma frees_range: "(r, n) \<in> frees h bs \<Longrightarrow> seg s h pa bs \<Longrightarrow> h \<le> r \<and> r + 2 * n \<le> stop h bs \<and> 2 \<le> n"
  by (induction h bs arbitrary: pa rule: frees.induct)
    (fastforce simp: blk_def split: if_splits intro: order_trans [OF _ stop_ge] stop_ge)+

lemma frees_functional:
  "seg s h pa bs \<Longrightarrow> (r, n) \<in> frees h bs \<Longrightarrow> (r, m) \<in> frees h bs \<Longrightarrow> m = n"
proof (induction h bs arbitrary: pa rule: frees.induct)
  case (2 h k a bs)
  then show ?case
    using frees_range [of r n "h + 2 * k" bs s a] frees_range [of r m "h + 2 * k" bs s a]
    by (auto simp: blk_def split: if_splits)
qed simp

lemma frees_split:
  "(r, n) \<in> frees h bs \<Longrightarrow> \<exists>xs ys. bs = xs @ (n, False) # ys \<and> stop h xs = r"
proof (induction h bs rule: frees.induct)
  case (2 h k a bs)
  show ?case
  proof (cases "\<not> a \<and> (r, n) = (h, k)")
    case True
    then show ?thesis by (intro exI [of _ "[]"] exI [of _ bs]) auto
  next
    case False
    then have "(r, n) \<in> frees (h + 2 * k) bs" using "2.prems" by (auto split: if_splits)
    then obtain xs ys where "bs = xs @ (n, False) # ys" "stop (h + 2 * k) xs = r" using "2.IH" by blast
    then show ?thesis by (intro exI [of _ "(k, a) # xs"] exI [of _ ys]) simp
  qed
qed simp

text \<open>A segment depends on its own rows only.\<close>

lemma blk_cong:
  "(\<And>r. h \<le> r \<Longrightarrow> r < h + 2 * n \<Longrightarrow> info s' (Row r) = info s (Row r)) \<Longrightarrow> blk s h pa n a \<Longrightarrow> blk s' h pa n a"
  by (auto simp: blk_def)

lemma seg_cong:
  "seg s h pa bs \<Longrightarrow> (\<And>r. h \<le> r \<Longrightarrow> r < stop h bs \<Longrightarrow> info s' (Row r) = info s (Row r)) \<Longrightarrow> seg s' h pa bs"
proof (induction s h pa bs rule: seg.induct)
  case (2 s h pa n a bs)
  have "blk s' h pa n a" using 2 stop_ge [of "h + 2 * n" bs] by (auto intro!: blk_cong [of h n s' s])
  moreover have "seg s' (h + 2 * n) a bs" using 2 by auto
  ultimately show ?case by simp
qed simp

lemma lay_cong:
  assumes "lay s h pa bs" "\<And>r. h \<le> r \<Longrightarrow> info s' (Row r) = info s (Row r)" "hend s' = hend s"
  shows "lay s' h pa bs"
  using assms seg_cong [of s h pa bs s'] stop_ge [of h bs] by (auto simp: lay_def epi_def)

text \<open>The \<open>prev_allocated\<close> bit of the first header of a segment can be set to what precedes it.\<close>

lemma lay_set_prev:
  assumes "lay s h pa bs" "pa' \<or> bs = [] \<or> snd (hd bs)"
    and "\<And>r. h < r \<Longrightarrow> info s' (Row r) = info s (Row r)" "hend s' = hend s"
    and "info s' (Row h) = (info s (Row h))\<lparr>prev_allocated := pa'\<rparr>"
  shows "lay s' h pa' bs"
proof (cases bs)
  case Nil
  then show ?thesis using assms by (simp add: epi_def)
next
  case (Cons b bs')
  obtain n a where b: "b = (n, a)" by force
  have n: "2 \<le> n" and t: "lay s (h + 2 * n) a bs'" using assms(1) Cons b by (simp_all add: blk_def)
  have "lay s' (h + 2 * n) a bs'" using t n assms(3,4) by (auto intro: lay_cong)
  then show ?thesis using assms Cons b n by (auto simp: blk_def)
qed

lemma lay_after_free: "lay s h False bs \<Longrightarrow> bs = [] \<or> snd (hd bs)"
  by (cases bs) (auto simp: blk_def split: if_splits)

lemma lay_head_allocated:
  "lay s h pa bs \<Longrightarrow> bs = [] \<or> snd (hd bs) \<longleftrightarrow> allocated (info s (Row h))"
  by (cases bs) (auto simp: blk_def epi_def)

subsection \<open>The free lists\<close>

definition nodes :: "mm \<Rightarrow> nat list \<Rightarrow> bool" where
  "nodes s ns \<longleftrightarrow>
     ring (nnext s) (nprev s) free_list_head ns \<and> sorted_wrt (<) (map (nsize s) ns) \<and>
     (\<forall>k\<in>set ns. k \<le> nodes_used s) \<and> nsize s free_list_head = 0"

definition free_lists :: "mm \<Rightarrow> (nat \<times> nat) set \<Rightarrow> bool" where
  "free_lists s fs \<longleftrightarrow>
     (\<exists>ns. nodes s ns \<and>
        (\<forall>k\<in>set ns. \<exists>xs. fl.rep s (Head k) (map Row xs) \<and> set xs = {h. \<exists>n. (h, n) \<in> fs \<and> nsize s k = 16 * n}) \<and>
        (\<forall>(h, n)\<in>fs. \<exists>k\<in>set ns. nsize s k = 16 * n) \<and>
        (\<forall>h n m. (h, n) \<in> fs \<longrightarrow> (h, m) \<in> fs \<longrightarrow> m = n))"

text \<open>
  What \<open>sfmm.h\<close> says of \<open>sf_add_free_list\<close>: it makes a new node with an empty list for the size and
  inserts it just before the given node, or returns NULL.
\<close>

definition add_ok :: "add_fn \<Rightarrow> bool" where
  "add_ok f \<longleftrightarrow>
     (\<forall>n s us vs k s'.
        ring (nnext s) (nprev s) free_list_head (us @ vs) \<and> (\<forall>j\<in>set (us @ vs). j \<le> nodes_used s) \<and>
        f n (case vs of [] \<Rightarrow> free_list_head | v # _ \<Rightarrow> v) s = Some (k, s') \<longrightarrow>
          nodes_used s < k \<and> k \<le> nodes_used s' \<and> ring (nnext s') (nprev s') free_list_head (us @ k # vs) \<and>
          nsize s' = (nsize s)(k := n) \<and> hend s' = hend s \<and> (\<forall>r. info s' (Row r) = info s (Row r)) \<and>
          lnext s' = (lnext s)(Head k := Head k) \<and> lprev s' = (lprev s)(Head k := Head k))"

definition add_fails :: "add_fn \<Rightarrow> bool" where
  "add_fails f \<longleftrightarrow> (\<exists>n k s. f n k s = None)"

lemma free_lists_info [simp]: "free_lists (s\<lparr>info := f\<rparr>) fs = free_lists s fs"
  by (simp add: free_lists_def nodes_def fl.rep_def)

lemma nodes_length:
  assumes "nodes s ns"
  shows "length ns \<le> nodes_used s"
proof -
  have "distinct ns" "set ns \<subseteq> {1..nodes_used s}"
    using assms by (auto simp: nodes_def ring_def Suc_le_eq intro!: gr0I)
  then show ?thesis using card_mono [of "{1..nodes_used s}" "set ns"] by (simp add: distinct_card)
qed

lemma size_loop_chain:
  "chain (nnext s) pv x vs free_list_head \<Longrightarrow> free_list_head \<notin> set vs \<Longrightarrow> length vs < k \<Longrightarrow>
     size_loop k (nnext s x) n s =
       Some (case dropWhile (\<lambda>j. nsize s j < n) vs of [] \<Rightarrow> free_list_head | v # _ \<Rightarrow> v)"
proof (induction vs arbitrary: x k)
  case Nil
  then show ?case by (cases k) auto
next
  case (Cons v vs)
  then show ?case by (cases k) auto
qed

lemma getSizeNode_nodes:
  "nodes s ns \<Longrightarrow>
     getSizeNode n s = Some (case dropWhile (\<lambda>j. nsize s j < n) ns of [] \<Rightarrow> free_list_head | v # _ \<Rightarrow> v)"
  using nodes_length [of s ns] unfolding getSizeNode_def
  by (intro size_loop_chain [where pv = "nprev s"]) (auto simp: nodes_def ring_def)

lemma sorted_insert_node:
  fixes n :: nat
  assumes srt: "sorted_wrt (<) (map f (us @ vs))" and us: "\<forall>j\<in>set us. f j < n"
    and vs: "vs = [] \<or> n < f (hd vs)" and k: "k \<notin> set (us @ vs)"
  shows "sorted_wrt (<) (map (f(k := n)) (us @ k # vs))"
proof -
  have m: "map (f(k := n)) (us @ k # vs) = map f us @ n # map f vs" using k by auto
  have "\<forall>j\<in>set vs. n < f j" using srt vs by (cases vs) (auto simp: sorted_wrt_append)
  then show ?thesis using srt us unfolding m by (auto simp: sorted_wrt_append)
qed

text \<open>Finding or making the list for a size keeps the lists as they are.\<close>

lemma getSentinelOfSize_lists:
  assumes ok: "add_ok f" and l: "free_lists s fs" and n: "0 < n" and nofail: "\<not> add_fails f"
  obtains ns k s' where "getSentinelOfSize f (16 * n) s = Some (k, s')" "hend s' = hend s"
    "\<forall>r. info s' (Row r) = info s (Row r)" "nodes s' ns" "k \<in> set ns" "nsize s' k = 16 * n"
    "\<forall>k\<in>set ns. \<exists>xs. fl.rep s' (Head k) (map Row xs) \<and> set xs = {h. \<exists>n. (h, n) \<in> fs \<and> nsize s' k = 16 * n}"
    "\<forall>(h, n)\<in>fs. \<exists>k\<in>set ns. nsize s' k = 16 * n"
proof -
  obtain ns where ns: "nodes s ns"
    "\<forall>k\<in>set ns. \<exists>xs. fl.rep s (Head k) (map Row xs) \<and> set xs = {h. \<exists>n. (h, n) \<in> fs \<and> nsize s k = 16 * n}"
    "\<forall>(h, n)\<in>fs. \<exists>k\<in>set ns. nsize s k = 16 * n"
    using l unfolding free_lists_def by blast
  define us where "us = takeWhile (\<lambda>j. nsize s j < 16 * n) ns"
  define vs where "vs = dropWhile (\<lambda>j. nsize s j < 16 * n) ns"
  have split: "ns = us @ vs" by (simp add: us_def vs_def)
  define cur where "cur = (case vs of [] \<Rightarrow> free_list_head | v # _ \<Rightarrow> v)"
  have g: "getSizeNode (16 * n) s = Some cur" unfolding cur_def vs_def by (rule getSizeNode_nodes [OF ns(1)])
  show thesis
  proof (cases "16 * n = nsize s cur")
    case True
    then have "cur \<in> set ns" using n ns(1) split by (cases vs) (auto simp: cur_def nodes_def)
    then show ?thesis using that [of k s ns for k] True g ns by (auto simp: getSentinelOfSize_def)
  next
    case False
    obtain k s' where a: "f (16 * n) cur s = Some (k, s')" using nofail by (fastforce simp: add_fails_def)
    have rg: "ring (nnext s) (nprev s) free_list_head (us @ vs)" "\<forall>j\<in>set (us @ vs). j \<le> nodes_used s"
      using ns(1) split by (auto simp: nodes_def)
    have e: "nodes_used s < k" "k \<le> nodes_used s'" "ring (nnext s') (nprev s') free_list_head (us @ k # vs)"
      "nsize s' = (nsize s)(k := 16 * n)" "hend s' = hend s" "\<forall>r. info s' (Row r) = info s (Row r)"
      "lnext s' = (lnext s)(Head k := Head k)" "lprev s' = (lprev s)(Head k := Head k)"
      using ok rg a unfolding add_ok_def cur_def by blast+
    have knew: "k \<notin> set ns" "k \<noteq> free_list_head" using e(1) rg(2) split by force+
    have ge: "vs \<noteq> [] \<Longrightarrow> \<not> nsize s (hd vs) < 16 * n"
      using hd_dropWhile [of "\<lambda>j. nsize s j < 16 * n" ns] by (auto simp: vs_def)
    then have gt: "vs = [] \<or> 16 * n < nsize s (hd vs)" using False by (cases vs) (auto simp: cur_def)
    have lt: "\<forall>j\<in>set us. nsize s j < 16 * n" by (auto simp: us_def dest: set_takeWhileD)
    have srt: "sorted_wrt (<) (map (nsize s') (us @ k # vs))"
      unfolding e(4) using ns(1) knew lt gt split by (intro sorted_insert_node) (auto simp: nodes_def)
    have "\<forall>j\<in>set (us @ k # vs). j \<le> nodes_used s'" using rg(2) e(2) order.strict_trans2 [OF e(1,2)] by (auto intro: le_less_trans less_imp_le)
    then have nd: "nodes s' (us @ k # vs)"
      using e(3,4) srt knew ns(1) unfolding nodes_def by simp
    have unsized: "\<not> (\<exists>h. (h, n) \<in> fs)"
    proof
      assume "\<exists>h. (h, n) \<in> fs"
      then obtain j where j: "j \<in> set ns" "nsize s j = 16 * n" using ns(3) by fastforce
      then have "j \<in> set vs" using split lt by auto
      moreover have "sorted_wrt (<) (map (nsize s) vs)" using ns(1) split by (auto simp: nodes_def sorted_wrt_append)
      ultimately show False using j gt by (cases vs) auto
    qed
    have rp: "\<exists>xs. fl.rep s' (Head j) (map Row xs) \<and> set xs = {h. \<exists>m. (h, m) \<in> fs \<and> nsize s' j = 16 * m}"
      if "j \<in> set (us @ k # vs)" for j
    proof (cases "j = k")
      case True
      then show ?thesis using unsized e by (intro exI [of _ "[]"]) (auto simp: fl.rep_def ring_empty)
    next
      case False
      then have "j \<in> set ns" using that split by auto
      then obtain xs where xs: "fl.rep s (Head j) (map Row xs)" "set xs = {h. \<exists>m. (h, m) \<in> fs \<and> nsize s j = 16 * m}"
        using ns(2) by blast
      have "fl.rep s' (Head j) (map Row xs)"
        using xs(1) False e(7,8) unfolding fl.rep_def ring_def by (auto intro!: chain_upd_nx chain_upd_pv)
      then show ?thesis using xs(2) False e(4) by auto
    qed
    have cov: "\<forall>(h, m)\<in>fs. \<exists>j\<in>set (us @ k # vs). nsize s' j = 16 * m"
      using ns(3) split e(4) knew by fastforce
    have "getSentinelOfSize f (16 * n) s = Some (k, s')" using g a False by (simp add: getSentinelOfSize_def)
    then show ?thesis using that [OF _ e(5,6) nd _ _ ballI cov] rp e(4) by simp
  qed
qed

text \<open>Inserting a header into the list of its size, and removing one.\<close>

lemma rep_frame:
  assumes "fl.rep s h xs" "\<And>a. a \<in> set (h # xs) \<Longrightarrow> lnext s' a = lnext s a \<and> lprev s' a = lprev s a"
  shows "fl.rep s' h xs"
  using assms chain_cong [of "lnext s" "lprev s" h xs h "lnext s'" "lprev s'"]
  unfolding fl.rep_def ring_def by auto

lemma addHeaderToFreeList_simps [simp]:
  "info (addHeaderToFreeList h k s) = info s" "hend (addHeaderToFreeList h k s) = hend s"
  "nodes (addHeaderToFreeList h k s) = nodes s" "nsize (addHeaderToFreeList h k s) = nsize s"
  by (simp_all add: addHeaderToFreeList_def set_lnext_def set_lprev_def Let_def nodes_def fun_eq_iff)

lemma removeHeader_simps [simp]:
  "info (removeHeader h s) = info s" "hend (removeHeader h s) = hend s"
  "nodes (removeHeader h s) = nodes s" "nsize (removeHeader h s) = nsize s"
  by (simp_all add: removeHeader_def set_lnext_def set_lprev_def Let_def nodes_def fun_eq_iff)

lemma rep_addHeader:
  assumes "fl.rep s (Head k) xs" "h \<noteq> Head k" "h \<notin> set xs"
  shows "fl.rep (addHeaderToFreeList h k s) (Head k) (h # xs)"
  using ring_add_first [of "lnext s" "lprev s" "Head k" xs h] assms
  by (simp add: fl.rep_def addHeaderToFreeList_def Let_def)

lemma rep_removeHeader:
  "fl.rep s h (xs @ x # ys) \<Longrightarrow> fl.rep (removeHeader x s) h (xs @ ys)"
  unfolding removeHeader_def by (rule fl.rep_remove)

lemma addHeader_elsewhere:
  assumes "fl.rep s (Head k) xs" "a \<notin> set (Head k # h # xs)"
  shows "lnext (addHeaderToFreeList h k s) a = lnext s a \<and> lprev (addHeaderToFreeList h k s) a = lprev s a"
  using assms fl.rep_first [of s "Head k" xs] by (cases xs) (auto simp: addHeaderToFreeList_def Let_def)

lemma removeHeader_elsewhere:
  assumes "fl.rep s h (xs @ x # ys)" "a \<notin> set (h # xs @ ys)"
  shows "lnext (removeHeader x s) a = lnext s a \<and> lprev (removeHeader x s) a = lprev s a"
proof -
  have c: "chain (lnext s) (lprev s) h xs x" "chain (lnext s) (lprev s) x ys h" "x \<notin> set (h # xs @ ys)"
    using assms(1) by (auto simp: fl.rep_def ring_def chain_append)
  have "lprev s x \<in> set (h # xs)"
    using c(1) by (cases xs rule: rev_cases) (auto simp: chain_append)
  moreover have "lnext s x \<in> set (ys @ [h])" using c(2) by (cases ys) auto
  ultimately show ?thesis using assms(2) c(3) by (auto simp: removeHeader_def Let_def)
qed

lemma nodes_inj: "nodes s ns \<Longrightarrow> j \<in> set ns \<Longrightarrow> k \<in> set ns \<Longrightarrow> nsize s j = nsize s k \<Longrightarrow> j = k"
  using strict_sorted_iff [of "map (nsize s) ns"] by (auto simp: nodes_def distinct_map inj_on_def)

lemma add_free_lists:
  assumes ok: "add_ok f" "\<not> add_fails f" and l: "free_lists s fs" and n: "0 < n" and new: "\<forall>m. (h, m) \<notin> fs"
  obtains s' where "add_free f h (16 * n) s = MRet s'" "free_lists s' (insert (h, n) fs)"
    "hend s' = hend s" "\<forall>r. info s' (Row r) = info s (Row r)"
proof -
  obtain ns k t where t: "getSentinelOfSize f (16 * n) s = Some (k, t)" "hend t = hend s"
    "\<forall>r. info t (Row r) = info s (Row r)" "nodes t ns" "k \<in> set ns" "nsize t k = 16 * n"
    "\<forall>k\<in>set ns. \<exists>xs. fl.rep t (Head k) (map Row xs) \<and> set xs = {h. \<exists>n. (h, n) \<in> fs \<and> nsize t k = 16 * n}"
    "\<forall>(h, n)\<in>fs. \<exists>k\<in>set ns. nsize t k = 16 * n"
    by (rule getSentinelOfSize_lists [OF ok(1) l n ok(2)])
  define s' where "s' = addHeaderToFreeList (Row h) k t"
  obtain xs where xs: "fl.rep t (Head k) (map Row xs)" "set xs = {h. (h, n) \<in> fs}" using t(5,6,7) by fastforce
  have "\<exists>ys. fl.rep s' (Head j) (map Row ys) \<and> set ys = {r. \<exists>m. (r, m) \<in> insert (h, n) fs \<and> nsize s' j = 16 * m}"
    if j: "j \<in> set ns" for j
  proof (cases "j = k")
    case True
    have "fl.rep s' (Head k) (map Row (h # xs))"
      using rep_addHeader [OF xs(1), of "Row h"] xs(2) new by (auto simp: s'_def)
    moreover have "set (h # xs) = {r. \<exists>m. (r, m) \<in> insert (h, n) fs \<and> nsize s' j = 16 * m}"
      using True xs(2) t(6) by (auto simp: s'_def)
    ultimately show ?thesis using True by blast
  next
    case False
    obtain ys where ys: "fl.rep t (Head j) (map Row ys)" "set ys = {r. \<exists>m. (r, m) \<in> fs \<and> nsize t j = 16 * m}"
      using t(7) j by blast
    have ne: "nsize t j \<noteq> 16 * n" using False nodes_inj [OF t(4) j t(5)] t(6) by auto
    have "a \<notin> set (Head k # Row h # map Row xs)" if aj: "a \<in> set (Head j # map Row ys)" for a
    proof
      assume a: "a \<in> set (Head k # Row h # map Row xs)"
      then obtain r where r: "a = Row r" "r \<in> set ys" using a aj False by auto
      then have "r = h \<or> (r, n) \<in> fs" using a xs(2) by auto
      then show False using r(2) ys(2) new ne l unfolding free_lists_def by fastforce
    qed
    then have "fl.rep s' (Head j) (map Row ys)"
      unfolding s'_def by (intro rep_frame [OF ys(1)] addHeader_elsewhere [OF xs(1)])
    moreover have "set ys = {r. \<exists>m. (r, m) \<in> insert (h, n) fs \<and> nsize s' j = 16 * m}"
      using ys(2) ne by (auto simp: s'_def)
    ultimately show ?thesis by blast
  qed
  then have "free_lists s' (insert (h, n) fs)"
    unfolding free_lists_def using t(4,5,6,8) l new
    by (intro exI [of _ ns]) (auto simp: s'_def free_lists_def)
  then show thesis using that [of s'] t(1-3) by (simp add: s'_def add_free_def)
qed

lemma removeHeader_lists:
  assumes l: "free_lists s fs" and h: "(h, n) \<in> fs"
  shows "free_lists (removeHeader (Row h) s) (fs - {(h, n)})"
proof -
  obtain ns where ns: "nodes s ns"
    "\<forall>k\<in>set ns. \<exists>xs. fl.rep s (Head k) (map Row xs) \<and> set xs = {h. \<exists>n. (h, n) \<in> fs \<and> nsize s k = 16 * n}"
    "\<forall>(h, n)\<in>fs. \<exists>k\<in>set ns. nsize s k = 16 * n" and fn: "\<forall>h n m. (h, n) \<in> fs \<longrightarrow> (h, m) \<in> fs \<longrightarrow> m = n"
    using l unfolding free_lists_def by blast
  obtain k where k: "k \<in> set ns" "nsize s k = 16 * n" using ns(3) h by fastforce
  obtain xs where xs: "fl.rep s (Head k) (map Row xs)" "set xs = {h. (h, n) \<in> fs}" using ns(2) k by fastforce
  obtain us vs where uv: "xs = us @ h # vs" using h xs(2) split_list [of h xs] by blast
  have d: "distinct xs" using fl.rep_distinct [OF xs(1)] by (simp add: distinct_map)
  have rk: "fl.rep s (Head k) (map Row us @ Row h # map Row vs)" using xs(1) uv by simp
  define s' where "s' = removeHeader (Row h) s"
  have "\<exists>ys. fl.rep s' (Head j) (map Row ys) \<and> set ys = {r. \<exists>m. (r, m) \<in> fs - {(h, n)} \<and> nsize s' j = 16 * m}"
    if j: "j \<in> set ns" for j
  proof (cases "j = k")
    case True
    have "fl.rep s' (Head k) (map Row (us @ vs))" using rep_removeHeader [OF rk] by (simp add: s'_def)
    moreover have "set (us @ vs) = {r. \<exists>m. (r, m) \<in> fs - {(h, n)} \<and> nsize s' j = 16 * m}"
      using True xs(2) uv d k(2) by (auto simp: s'_def)
    ultimately show ?thesis using True by blast
  next
    case False
    obtain ys where ys: "fl.rep s (Head j) (map Row ys)" "set ys = {r. \<exists>m. (r, m) \<in> fs \<and> nsize s j = 16 * m}"
      using ns(2) j by blast
    have ne: "nsize s j \<noteq> 16 * n" using False nodes_inj [OF ns(1) j k(1)] k(2) by auto
    have "a \<notin> set (Head k # map Row us @ map Row vs)" if aj: "a \<in> set (Head j # map Row ys)" for a
    proof
      assume a: "a \<in> set (Head k # map Row us @ map Row vs)"
      then obtain r where r: "a = Row r" "r \<in> set ys" using a aj False by auto
      then have "r \<in> set xs" using a uv by auto
      then show False using r(2) ys(2) xs(2) fn ne by fastforce
    qed
    then have "fl.rep s' (Head j) (map Row ys)"
      unfolding s'_def by (intro rep_frame [OF ys(1)] removeHeader_elsewhere [OF rk])
    moreover have "set ys = {r. \<exists>m. (r, m) \<in> fs - {(h, n)} \<and> nsize s' j = 16 * m}"
      using ys(2) ne by (auto simp: s'_def)
    ultimately show ?thesis by blast
  qed
  then show ?thesis
    unfolding free_lists_def s'_def [symmetric] using ns(1,3) fn
    by (intro exI [of _ ns]) (auto simp: s'_def)
qed

end
