(* ===== verification/Heap_Proofs.thy ===== *)
theory Heap_Proofs
  imports Heap_Layout
begin

section \<open>Memory manager: the operations on a well-formed heap\<close>

text \<open>
  What \<open>sf_malloc\<close>, \<open>sf_free\<close> and \<open>sf_realloc\<close> do to the sequence of blocks of a heap that satisfies the
  invariant of \<open>Heap_Layout\<close>, step by step: coalescing, splitting, the search, growing.
  A heap is bounded by 2 GB, so that block sizes fit an \<open>int\<close>.
\<close>

definition heap_ok :: "mm \<Rightarrow> block list \<Rightarrow> bool" where
  "heap_ok s bs \<longleftrightarrow> lay s PROLOGUE_ROWS True bs \<and> free_lists s (frees PROLOGUE_ROWS bs) \<and> hend s \<le> 2 ^ 28"

text \<open>A heap in which the block at \<open>h\<close> of \<open>n\<close> units, after \<open>xs\<close> and before \<open>ys\<close>, is in no free list.\<close>

definition hole :: "mm \<Rightarrow> block list \<Rightarrow> nat \<Rightarrow> nat \<Rightarrow> block list \<Rightarrow> bool" where
  "hole s xs h n ys \<longleftrightarrow>
     seg s PROLOGUE_ROWS True xs \<and> last_alloc True xs \<and> h = stop PROLOGUE_ROWS xs \<and>
     block_size (info s (Row h)) = n \<and> 2 \<le> n \<and> (\<exists>pa. lay s (h + 2 * n) pa ys) \<and>
     free_lists s (frees PROLOGUE_ROWS xs \<union> frees (h + 2 * n) ys) \<and> hend s \<le> 2 ^ 28"

subsection \<open>Sizes\<close>

lemma bytes_of_small: "block_size i < 2 ^ 27 \<Longrightarrow> bytes_of i = 16 * int (block_size i)"
  using sint_of_nat_small [of "block_size i * 16"] by (simp add: bytes_of_def)

lemma to_size_t_nat: "n < 2 ^ 64 \<Longrightarrow> to_size_t (int n) = n"
  by (simp add: to_size_t_def unsigned_of_nat take_bit_nat_eq_self)

lemma hole_small: "hole s xs h n ys \<Longrightarrow> h + 2 * n < 2 ^ 28"
  using stop_ge [of "h + 2 * n" ys] by (auto simp: hole_def dest: lay_end)

lemma round_up_16: "(if x mod 16 \<noteq> 0 then x + 16 - x mod 16 else x) = 16 * ((x + 15) div 16 :: nat)"
proof -
  define q r where "q = x div 16" and "r = x mod 16"
  have x: "x = r + q * 16" "r < 16" by (simp_all add: q_def r_def)
  have "(x + 15) div 16 = (r + 15 + q * 16) div 16" using x(1) by (simp add: ac_simps)
  also have "\<dots> = q + (r + 15) div 16" by simp
  finally have "(x + 15) div 16 = q + (if r = 0 then 0 else 1)" using x(2) div_nat_eqI [of 16 1 "r + 15"] by simp
  then show ?thesis using x by (auto simp: r_def [symmetric])
qed

lemma getNewSize_value:
  assumes "unat n \<le> 2 ^ 31 - 24"
  shows "sint (getNewSize n) = 16 * int (if unat n \<le> 24 then 2 else (unat n + 23) div 16)"
proof -
  define x where "x = unat n + 8"
  have x: "x \<le> 2 ^ 31 - 16" "8 \<le> x" using assms by (auto simp: x_def)
  have "8 + n = of_nat x" by (simp add: x_def)
  then have w: "(ucast (8 + n) :: i32) = of_nat x" using x by (simp add: ucast_of_nat_small)
  have sx: "sint (of_nat x :: i32) = int x" using x by (intro sint_of_nat_small) auto
  have r: "sint (of_nat x + word_of_int (16 - int x mod 16) :: i32) = int (x + 16 - x mod 16)" if "int x mod 16 \<noteq> 0"
  proof -
    have nz: "x mod 16 \<noteq> 0" using that by presburger
    have "word_of_int (int x mod 16) = (of_nat (x mod 16) :: i32)" by (metis of_int_of_nat_eq of_nat_mod of_nat_numeral)
    then have "(of_nat x + word_of_int (16 - int x mod 16) :: i32) = of_nat (x + 16 - x mod 16)"
      by (simp add: of_nat_diff less_imp_le)
    moreover have "x + 16 - x mod 16 < 2 ^ 31"
    proof -
      have "x = 16 * (x div 16) + x mod 16" "x mod 16 < 16" by simp_all
      then show ?thesis using x(1) nz by simp
    qed
    ultimately show ?thesis by (simp only: sint_of_nat_small)
  qed
  have m: "int x smod 16 = int x mod 16" using x(2) by (simp add: signed_modulo_int_def)
  have e: "sint (getNewSize n) = (if 32 < int x then (if int x mod 16 \<noteq> 0 then int (x + 16 - x mod 16) else int x) else 32)"
    using r x(2) by (simp add: getNewSize_def w sx m Let_def zmod_int)
  have z: "int x mod 16 = 0 \<longleftrightarrow> x mod 16 = 0" by presburger
  have "int (if 32 < x then (if x mod 16 \<noteq> 0 then x + 16 - x mod 16 else x) else 32)
      = 16 * int (if x \<le> 32 then 2 else (x + 15) div 16)" using round_up_16 [of x] by auto
  then have "sint (getNewSize n) = 16 * int (if x \<le> 32 then 2 else (x + 15) div 16)"
    using e z by (simp split: if_splits)
  then show ?thesis by (simp add: x_def add.commute)
qed

subsection \<open>Coalescing\<close>

lemma coalesce_simps [simp]:
  "hend (coalesce h n s) = hend s" "free_lists (coalesce h n s) = free_lists s"
  by (auto simp: coalesce_def setFreeHeader_def setFooter_def Let_def)

lemma set_all_fields:
  "i\<lparr>allocated := a, prev_allocated := p, block_size := n, requested_size := q\<rparr> =
   \<lparr>allocated = a, prev_allocated = p, block_size = n, requested_size = q\<rparr>"
  by (cases i) simp

lemma setFreeHeader_eq: "n < 2 ^ 28 \<Longrightarrow> setFreeHeader h (n * 16) s = s\<lparr>info := (info s)(Row h := free_info n)\<rparr>"
  by (simp add: setFreeHeader_def free_info_def set_all_fields)

lemma setFooter_eq: "n < 2 ^ 28 \<Longrightarrow> setFooter h (n * 16) s = s\<lparr>info := (info s)(Row h := free_info n)\<rparr>"
  by (simp add: setFooter_def free_info_def set_all_fields)

lemma free_info_simps [simp]:
  "\<not> allocated (free_info n)" "prev_allocated (free_info n)" "block_size (free_info n) = n" "requested_size (free_info n) = 0"
  by (simp_all add: free_info_def)

lemma coalesce_to:
  assumes "block_size (info s (Row h)) * 16 + k = n * 16" "n < 2 ^ 28"
  shows "coalesce h k s = s\<lparr>info := (info s)(Row h := free_info n, Row (h + 2 * n - 1) := free_info n)\<rparr>"
  using assms by (simp add: coalesce_def Let_def setFreeHeader_eq setFooter_eq getFooterPointer_def)

lemma hole_coalesce:
  assumes sg: "seg s PROLOGUE_ROWS True xs" "last_alloc True xs" "h = stop PROLOGUE_ROWS xs"
    and n: "block_size (info s (Row h)) + k = n" "2 \<le> n" and ly: "lay s (h + 2 * n) pa ys"
    and l: "free_lists s (frees PROLOGUE_ROWS xs \<union> frees (h + 2 * n) ys)" and e: "hend s \<le> 2 ^ 28"
  shows "hole (coalesce h (k * 16) s) xs h n ys"
proof -
  have "n < 2 ^ 28" using lay_end [OF ly] stop_ge [of "h + 2 * n" ys] e by auto
  then have c: "coalesce h (k * 16) s = s\<lparr>info := (info s)(Row h := free_info n, Row (h + 2 * n - 1) := free_info n)\<rparr>"
    using n(1) by (intro coalesce_to) auto
  have "seg (coalesce h (k * 16) s) PROLOGUE_ROWS True xs"
    unfolding c using sg(1) by (rule seg_cong) (use sg(3) n(2) in auto)
  moreover have "lay (coalesce h (k * 16) s) (h + 2 * n) pa ys"
    unfolding c using ly by (rule lay_cong) (use n(2) in auto)
  ultimately show ?thesis using sg(2) n(2) l e unfolding hole_def by (auto simp: c sg(3) [symmetric])
qed

text \<open>The block next to a hole joins it.\<close>

lemma hole_join_next:
  assumes h: "hole s xs h n ((k, False) # ys)"
  shows "hole (coalesce h (k * 16) (removeHeader (Row (h + 2 * n)) s)) xs h (n + k) ys"
    and "lay (coalesce h (k * 16) (removeHeader (Row (h + 2 * n)) s)) (h + 2 * n + 2 * k) False ys"
proof -
  let ?t = "removeHeader (Row (h + 2 * n)) s"
  have d: "seg s PROLOGUE_ROWS True xs" "last_alloc True xs" "h = stop PROLOGUE_ROWS xs" "block_size (info s (Row h)) = n"
    "2 \<le> n" "2 \<le> k" "lay s (h + 2 * n + 2 * k) False ys" "hend s \<le> 2 ^ 28"
    "free_lists s (frees PROLOGUE_ROWS xs \<union> frees (h + 2 * n) ((k, False) # ys))"
    using h by (auto simp: hole_def blk_def)
  have ly: "lay ?t (h + 2 * n + 2 * k) False ys" using d(7) by (rule lay_cong) auto
  have sg: "seg ?t PROLOGUE_ROWS True xs" using d(1) by (rule seg_cong) auto
  have "(h + 2 * n, k) \<notin> frees PROLOGUE_ROWS xs" "(h + 2 * n, k) \<notin> frees (h + 2 * n + 2 * k) ys"
    using frees_range [OF _ d(1)] frees_range [of _ _ "h + 2 * n + 2 * k" ys s False] d(3,5,6,7)
    by (fastforce simp: lay_def)+
  then have "frees PROLOGUE_ROWS xs \<union> frees (h + 2 * n) ((k, False) # ys) - {(h + 2 * n, k)}
      = frees PROLOGUE_ROWS xs \<union> frees (h + 2 * n + 2 * k) ys" by auto
  then have l: "free_lists ?t (frees PROLOGUE_ROWS xs \<union> frees (h + 2 * (n + k)) ys)"
    using removeHeader_lists [OF d(9), of "h + 2 * n" k] by (simp add: algebra_simps)
  show hl: "hole (coalesce h (k * 16) ?t) xs h (n + k) ys"
    by (rule hole_coalesce [OF sg d(2,3) _ _ _ l, of _ False]) (use d ly in \<open>auto simp: algebra_simps\<close>)
  have "n + k < 2 ^ 28" using hole_small [OF hl] by auto
  then show "lay (coalesce h (k * 16) ?t) (h + 2 * n + 2 * k) False ys"
    using ly d(4,5) by (intro lay_cong [OF ly]) (auto simp: coalesce_to [of _ _ _ "n + k"])
qed

lemma hole_join_prev:
  assumes h: "heap_ok s (xs @ (m, False) # (n, True) # ys)" and r: "r = stop PROLOGUE_ROWS xs"
  shows "hole (coalesce r (n * 16) (removeHeader (Row r) s)) xs r (m + n) ys"
proof -
  let ?t = "removeHeader (Row r) s"
  have d: "seg s PROLOGUE_ROWS True xs" "last_alloc True xs" "block_size (info s (Row r)) = m" "2 \<le> m" "2 \<le> n"
    "lay s (r + 2 * m + 2 * n) True ys" "hend s \<le> 2 ^ 28"
    "free_lists s (frees PROLOGUE_ROWS xs \<union> insert (r, m) (frees (r + 2 * m + 2 * n) ys))"
    using h r by (auto simp: heap_ok_def blk_def)
  have sg: "seg ?t PROLOGUE_ROWS True xs" using d(1) by (rule seg_cong) auto
  have ly: "lay ?t (r + 2 * m + 2 * n) True ys" using d(6) by (rule lay_cong) auto
  have "(r, m) \<notin> frees PROLOGUE_ROWS xs" "(r, m) \<notin> frees (r + 2 * m + 2 * n) ys"
    using frees_range [OF _ d(1)] frees_range [of _ _ "r + 2 * m + 2 * n" ys s True] r d(4,5,6)
    by (fastforce simp: lay_def)+
  then have "frees PROLOGUE_ROWS xs \<union> insert (r, m) (frees (r + 2 * m + 2 * n) ys) - {(r, m)}
      = frees PROLOGUE_ROWS xs \<union> frees (r + 2 * (m + n)) ys" by (auto simp: algebra_simps)
  then have "free_lists ?t (frees PROLOGUE_ROWS xs \<union> frees (r + 2 * (m + n)) ys)"
    using removeHeader_lists [OF d(8), of r m] by simp
  then show ?thesis
    using d ly by (intro hole_coalesce [OF sg d(2) r, where pa = True]) (auto simp: algebra_simps)
qed

lemma hole_start:
  "heap_ok s (xs @ (n, True) # ys) \<Longrightarrow> last_alloc True xs \<Longrightarrow> hole s xs (stop PROLOGUE_ROWS xs) n ys"
  by (auto simp: heap_ok_def hole_def blk_def)

lemma hole_release:
  assumes h: "hole s xs h n ys" and nx: "ys = [] \<or> snd (hd ys)" and ok: "add_ok f" "\<not> add_fails f"
  obtains t where "add_free f h (n * 16) (coalesce h 0 s) = MRet t" "block_size (info t (Row h)) = n"
    "heap_ok (upd_info (Row (h + 2 * n)) (\<lambda>i. i\<lparr>prev_allocated := False\<rparr>) t) (xs @ (n, False) # ys)"
    "hend t = hend s" "\<forall>r. r \<noteq> h \<longrightarrow> r \<noteq> h + 2 * n - 1 \<longrightarrow> info t (Row r) = info s (Row r)"
proof -
  obtain pa where d: "seg s PROLOGUE_ROWS True xs" "last_alloc True xs" "h = stop PROLOGUE_ROWS xs"
    "block_size (info s (Row h)) = n" "2 \<le> n" "lay s (h + 2 * n) pa ys" "hend s \<le> 2 ^ 28"
    "free_lists s (frees PROLOGUE_ROWS xs \<union> frees (h + 2 * n) ys)"
    using h by (auto simp: hole_def)
  have c: "coalesce h 0 s = s\<lparr>info := (info s)(Row h := free_info n, Row (h + 2 * n - 1) := free_info n)\<rparr>"
    using hole_small [OF h] d(4) by (intro coalesce_to) auto
  have new: "\<forall>m. (h, m) \<notin> frees PROLOGUE_ROWS xs \<union> frees (h + 2 * n) ys"
    using frees_range [OF _ d(1)] frees_range [of _ _ "h + 2 * n" ys s pa] d(3,5,6) by (fastforce simp: lay_def)
  have l: "free_lists (coalesce h 0 s) (frees PROLOGUE_ROWS xs \<union> frees (h + 2 * n) ys)" using d(8) by simp
  obtain t where t: "add_free f h (16 * n) (coalesce h 0 s) = MRet t" "hend t = hend s"
    "free_lists t (insert (h, n) (frees PROLOGUE_ROWS xs \<union> frees (h + 2 * n) ys))"
    "\<forall>r. info t (Row r) = info (coalesce h 0 s) (Row r)"
    using add_free_lists [OF ok l _ new, of n] d(5) by (metis coalesce_simps(1) gr0I not_numeral_le_zero)
  let ?u = "upd_info (Row (h + 2 * n)) (\<lambda>i. i\<lparr>prev_allocated := False\<rparr>) t"
  have it: "info t (Row h) = free_info n" "info t (Row (h + 2 * n - 1)) = free_info n" "h \<noteq> h + 2 * n - 1"
    "h + 2 * n - 1 \<noteq> h + 2 * n" and rt: "\<And>r. r \<noteq> h \<Longrightarrow> r \<noteq> h + 2 * n - 1 \<Longrightarrow> info t (Row r) = info s (Row r)"
    using t(4) d(5) by (auto simp: c)
  have "seg ?u PROLOGUE_ROWS True xs"
    using d(1) by (rule seg_cong) (use d(3,5) rt in auto)
  moreover have "blk ?u h True n False" using it d(5) by (simp add: blk_def)
  moreover have "lay ?u (h + 2 * n) False ys"
    using d(6) by (rule lay_set_prev) (use nx d(5) rt [of "h + 2 * n"] rt t(2) in auto)
  moreover have "free_lists ?u (frees PROLOGUE_ROWS xs \<union> insert (h, n) (frees (h + 2 * n) ys))"
    using t(3) by simp
  ultimately show thesis using that [of t] t(1,2) it(1) d(2,3,7) rt by (simp add: heap_ok_def mult.commute)
qed

subsection \<open>sf_free\<close>

text \<open>The blocks after one of \<open>n\<close> units between \<open>xs\<close> and \<open>ys\<close> is freed: it joins its free neighbours.\<close>

definition free_block :: "block list \<Rightarrow> nat \<Rightarrow> block list \<Rightarrow> block list" where
  "free_block xs n ys =
     (let (xs, n) = (if last_alloc True xs then (xs, n) else (butlast xs, fst (last xs) + n));
          (n, ys) = (if ys = [] \<or> snd (hd ys) then (n, ys) else (n + fst (hd ys), tl ys))
      in xs @ (n, False) # ys)"

lemma last_alloc_snoc: "\<not> last_alloc True xs \<Longrightarrow> \<exists>us m. xs = us @ [(m, False)]"
  by (cases xs rule: rev_cases) auto

lemma heap_ok_block:
  assumes "heap_ok s (xs @ (n, True) # ys)" "h = stop PROLOGUE_ROWS xs"
  shows "block_size (info s (Row h)) = n" "allocated (info s (Row h))" "prev_allocated (info s (Row h)) = last_alloc True xs"
    "requested_size (info s (Row h)) + 8 \<le> 16 * n" "2 \<le> n" "5 \<le> h" "h + 2 * n < hend s" "n < 2 ^ 27" "lay s (h + 2 * n) True ys"
  using assms stop_ge [of PROLOGUE_ROWS xs] stop_ge [of "h + 2 * n" ys]
  by (auto simp: heap_ok_def blk_def dest!: lay_end)

lemma heap_ok_prev:
  assumes "heap_ok s ((us @ [(m, False)]) @ (n, True) # ys)" "h = stop PROLOGUE_ROWS us"
  shows "getHeaderPointer (h + 2 * m - 1) s = h" "\<not> allocated (info s (Row (h + 2 * m - 1)))" "2 \<le> m"
  using assms by (auto simp: heap_ok_def blk_def getHeaderPointer_def)

lemma sf_abort_valid:
  assumes h: "heap_ok s (xs @ (n, True) # ys)" and p: "p = stop PROLOGUE_ROWS xs + 1"
  shows "\<not> sf_abort (Some p) s"
proof -
  note b = heap_ok_block [OF h refl]
  have by16: "bytes_of (info s (Row (p - 1))) = 16 * int n" using b p by (simp add: bytes_of_small)
  have sz: "to_size_t (16 * int n) = 16 * n" using to_size_t_nat [of "16 * n"] b(8) by simp
  have "\<not> allocated (info s (Row (p - 2)))" if np: "\<not> prev_allocated (info s (Row (p - 1)))"
  proof -
    obtain us m where um: "xs = us @ [(m, False)]" using np b(3) p last_alloc_snoc [of xs] by auto
    then show ?thesis using heap_ok_prev [of s us m n ys] h p by (auto simp: numeral_2_eq_2)
  qed
  moreover have "(16 * int n) smod 16 = 0" by (simp add: signed_modulo_int_def)
  ultimately show ?thesis
    using b p by16 sz by (auto simp: sf_abort_def Let_def numeral_2_eq_2)
qed

text \<open>Joining the free neighbour on the right, if there is one.\<close>

lemma hole_right:
  assumes h: "hole s xs h n ys"
  shows "let t = (if allocated (info s (Row (h + 2 * n))) then s
                  else (let t = removeHeader (Row (h + 2 * n)) s
                        in coalesce h (block_size (info t (Row (h + 2 * n))) * 16) t));
             (m, zs) = (if ys = [] \<or> snd (hd ys) then (n, ys) else (n + fst (hd ys), tl ys))
         in hole t xs h m zs \<and> (zs = [] \<or> snd (hd zs)) \<and> hend t = hend s \<and> n \<le> m \<and>
            (\<forall>r. r \<noteq> h \<longrightarrow> r \<noteq> h + 2 * m - 1 \<longrightarrow> info t (Row r) = info s (Row r))"
proof -
  obtain pa where ly: "lay s (h + 2 * n) pa ys" using h by (auto simp: hole_def)
  show ?thesis
  proof (cases "ys = [] \<or> snd (hd ys)")
    case True
    then show ?thesis using h lay_head_allocated [OF ly] by simp
  next
    case False
    then obtain k zs where ys: "ys = (k, False) # zs" by (cases ys) auto
    then have k: "block_size (info s (Row (h + 2 * n))) = k" using ly by (simp add: blk_def)
    let ?t = "coalesce h (k * 16) (removeHeader (Row (h + 2 * n)) s)"
    have j: "hole ?t xs h (n + k) zs" "lay ?t (h + 2 * n + 2 * k) False zs"
      using hole_join_next [of s xs h n k zs] h ys by simp_all
    have "block_size (info s (Row h)) = n" using h unfolding hole_def by blast
    then have "?t = (removeHeader (Row (h + 2 * n)) s)
        \<lparr>info := (info s)(Row h := free_info (n + k), Row (h + 2 * (n + k) - 1) := free_info (n + k))\<rparr>"
      using coalesce_to [of "removeHeader (Row (h + 2 * n)) s" h "k * 16" "n + k"] hole_small [OF j(1)] by simp
    then have "\<forall>r. r \<noteq> h \<longrightarrow> r \<noteq> h + 2 * (n + k) - 1 \<longrightarrow> info ?t (Row r) = info s (Row r)" by simp
    then show ?thesis
      using False lay_head_allocated [OF ly] j lay_after_free [OF j(2)] ys k by (simp add: Let_def)
  qed
qed

lemma sf_free_blocks:
  assumes h: "heap_ok s (xs @ (n, True) # ys)" and p: "p = stop PROLOGUE_ROWS xs + 1" and ok: "add_ok f" "\<not> add_fails f"
  obtains s' where "sf_free f (Some p) s = MRet s'" "heap_ok s' (free_block xs n ys)" "hend s' = hend s"
    "\<not> last_alloc True xs \<Longrightarrow> info s' (Row (p - 1)) = info s (Row (p - 1)) \<and> info s' (Row (p - 2)) = info s (Row (p - 2))"
proof -
  note b = heap_ok_block [OF h refl]
  define r where "r = stop PROLOGUE_ROWS xs"
  define us m where "us = (if last_alloc True xs then xs else butlast xs)"
    and "m = (if last_alloc True xs then n else fst (last xs) + n)"
  define q where "q = stop PROLOGUE_ROWS us"
  define s1 where "s1 = (if prev_allocated (info s (Row r)) then s
      else coalesce q (block_size (info s (Row r)) * 16) (removeHeader (Row q) s))"
  have s1: "hole s1 us q m ys \<and> q + 2 * m = r + 2 * n \<and> (\<not> prev_allocated (info s (Row r)) \<longrightarrow> getHeaderPointer (r - 1) s = q) \<and>
      (prev_allocated (info s (Row r)) \<longrightarrow> q = r) \<and> block_size (info s1 (Row r)) = n \<and> hend s1 = hend s \<and>
      (\<not> last_alloc True xs \<longrightarrow> q + 4 \<le> r \<and> info s1 (Row r) = info s (Row r) \<and> info s1 (Row (r - 1)) = info s (Row (r - 1)))"
  proof (cases "last_alloc True xs")
    case True
    then show ?thesis using hole_start [OF h] b(1,3) by (auto simp: s1_def us_def m_def q_def r_def)
  next
    case False
    then obtain vs k where vs: "xs = vs @ [(k, False)]" using last_alloc_snoc by blast
    have q: "q = stop PROLOGUE_ROWS vs" "r = q + 2 * k" using vs False by (auto simp: q_def us_def r_def)
    have hl: "hole s1 us q m ys" "m = k + n" "getHeaderPointer (r - 1) s = q"
      using False vs hole_join_prev [of s vs k n ys q] h b(1,3) heap_ok_prev [of s vs k n ys q] q
      by (auto simp: s1_def us_def m_def r_def)
    have "s1 = coalesce q (n * 16) (removeHeader (Row q) s)" "block_size (info s (Row q)) = k"
      using False b(1,3) h vs q(1) by (auto simp: s1_def r_def heap_ok_def blk_def)
    then have c: "s1 = (removeHeader (Row q) s)\<lparr>info := (info s)(Row q := free_info m, Row (q + 2 * m - 1) := free_info m)\<rparr>"
      using hole_small [OF hl(1)] hl(2) coalesce_to [of "removeHeader (Row q) s" q "n * 16" m] by simp
    have "2 \<le> k" using h vs by (simp add: heap_ok_def blk_def)
    then have "q + 4 \<le> r" "info s1 (Row r) = info s (Row r)" "info s1 (Row (r - 1)) = info s (Row (r - 1))" "hend s1 = hend s"
      using c q(2) hl(2) b(5) by auto
    then show ?thesis using hl q(2) False b(1,3) by (auto simp: r_def)
  qed
  have s1h: "hole s1 us q m ys" using s1 by simp
  define s2 where "s2 = (if allocated (info s1 (Row (q + 2 * m))) then s1
      else (let t = removeHeader (Row (q + 2 * m)) s1 in coalesce q (block_size (info t (Row (q + 2 * m))) * 16) t))"
  note s2_def' = s2_def [unfolded Let_def]
  obtain k zs where kz: "(k, zs) = (if ys = [] \<or> snd (hd ys) then (m, ys) else (m + fst (hd ys), tl ys))" by (metis prod.exhaust)
  have s2: "hole s2 us q k zs" "zs = [] \<or> snd (hd zs)" "hend s2 = hend s1" "m \<le> k"
    "\<And>i. i \<noteq> q \<Longrightarrow> i \<noteq> q + 2 * k - 1 \<Longrightarrow> info s2 (Row i) = info s1 (Row i)"
    using hole_right [OF s1h, unfolded Let_def kz [symmetric] s2_def' [symmetric] prod.case] by blast+
  obtain t where t: "add_free f q (k * 16) (coalesce q 0 s2) = MRet t" "block_size (info t (Row q)) = k"
    "heap_ok (upd_info (Row (q + 2 * k)) (\<lambda>i. i\<lparr>prev_allocated := False\<rparr>) t) (us @ (k, False) # zs)" "hend t = hend s2"
    "\<forall>i. i \<noteq> q \<longrightarrow> i \<noteq> q + 2 * k - 1 \<longrightarrow> info t (Row i) = info s2 (Row i)"
    by (rule hole_release [OF s2(1,2) ok])
  have k: "block_size (info (coalesce q 0 s2) (Row q)) = k"
    using hole_coalesce [of s2 us q 0 k] s2(1) by (auto simp: hole_def)
  have hp: "getPayloadHeader p = r" using p by (simp add: getPayloadHeader_def r_def)
  have left: "(if \<not> prev_allocated (info s (Row r)) then
      (getHeaderPointer (r - 1) s, coalesce (getHeaderPointer (r - 1) s)
         (block_size (info (removeHeader (Row (getHeaderPointer (r - 1) s)) s) (Row r)) * 16)
         (removeHeader (Row (getHeaderPointer (r - 1) s)) s)) else (r, s)) = (q, s1)"
    using s1 by (auto simp: s1_def)
  have nx: "getNextHeaderPointer r s1 = q + 2 * m" using s1 by (simp add: getNextHeaderPointer_def)
  have right: "(if \<not> allocated (info s1 (Row (q + 2 * m))) then
      coalesce q (block_size (info (removeHeader (Row (q + 2 * m)) s1) (Row (q + 2 * m))) * 16) (removeHeader (Row (q + 2 * m)) s1)
      else s1) = s2" by (simp add: s2_def Let_def)
  have "sf_free f (Some p) s = (case add_free f q (block_size (info (coalesce q 0 s2) (Row q)) * 16) (coalesce q 0 s2) of
      MRet s \<Rightarrow> MRet (upd_info (Row (getNextHeaderPointer q s)) (\<lambda>i. i\<lparr>prev_allocated := False\<rparr>) s) | r \<Rightarrow> r)"
    unfolding sf_free_def Let_def option.sel hp left nx prod.case right using sf_abort_valid [OF h p] by simp
  then have "sf_free f (Some p) s = MRet (upd_info (Row (q + 2 * k)) (\<lambda>i. i\<lparr>prev_allocated := False\<rparr>) t)"
    using k t(1,2) by (simp add: getNextHeaderPointer_def)
  moreover have "free_block xs n ys = us @ (k, False) # zs"
    using kz by (auto simp: free_block_def us_def m_def split: if_splits)
  moreover have "info t (Row r) = info s (Row r) \<and> info t (Row (r - 1)) = info s (Row (r - 1))" "r + 1 < q + 2 * k"
    if "\<not> last_alloc True xs"
  proof -
    have i: "q + 4 \<le> r" "r + 2 * n \<le> q + 2 * k" "2 \<le> n" "info s1 (Row r) = info s (Row r)"
      "info s1 (Row (r - 1)) = info s (Row (r - 1))" using that s1 s2(4) b(5) by auto
    then show "info t (Row r) = info s (Row r) \<and> info t (Row (r - 1)) = info s (Row (r - 1))"
      using t(5) s2(5) [of r] s2(5) [of "r - 1"] by simp
    show "r + 1 < q + 2 * k" using i by simp
  qed
  moreover have "p - 1 = r" "p - 2 = r - 1" using p by (simp_all add: r_def numeral_2_eq_2)
  ultimately show thesis using t(3,4) s1 s2(3)
    by (intro that [of "upd_info (Row (q + 2 * k)) (\<lambda>i. i\<lparr>prev_allocated := False\<rparr>) t"]) simp_all
qed

subsection \<open>Placing a block\<close>

definition alloc_block :: "block list \<Rightarrow> nat \<Rightarrow> nat \<Rightarrow> block list \<Rightarrow> block list" where
  "alloc_block xs n k ys = xs @ (if k - n < 2 then [(k, True)] else [(n, True), (k - n, False)]) @ ys"

text \<open>The other blocks keep their places when a block is allocated.\<close>

lemma alloc_block_other:
  assumes "us @ (m, True) # vs = xs @ (k, False) # ys" "n \<le> k"
  obtains us' vs' where "alloc_block xs n k ys = us' @ (m, True) # vs'" "stop h us' = stop h us"
proof -
  let ?mid = "if k - n < 2 then [(k, True)] else [(n, True), (k - n, False)]"
  have mid: "stop q ?mid = stop q [(k, False)]" for q using assms(2) by auto
  consider zs where "us = xs @ (k, False) # zs" "ys = zs @ (m, True) # vs" | zs where "xs = us @ (m, True) # zs"
    using assms(1) by (auto simp: append_eq_append_conv2 Cons_eq_append_conv append_eq_Cons_conv)
  then show thesis
  proof cases
    case (1 zs)
    have "alloc_block xs n k ys = (xs @ ?mid @ zs) @ (m, True) # vs" unfolding alloc_block_def 1(2) by simp
    moreover have "stop h (xs @ ?mid @ zs) = stop h us" unfolding 1(1) stop_append mid by simp
    ultimately show thesis by (rule that)
  next
    case (2 zs)
    have "alloc_block xs n k ys = us @ (m, True) # (zs @ ?mid @ ys)" unfolding alloc_block_def 2 by simp
    then show thesis by (rule that) simp
  qed
qed

lemma set_all_fields':
  "i\<lparr>block_size := n, requested_size := q, allocated := a, prev_allocated := p\<rparr> =
   \<lparr>allocated = a, prev_allocated = p, block_size = n, requested_size = q\<rparr>"
  by (cases i) simp

lemma upd_info_same: "prev_allocated (info s a) = b \<Longrightarrow> upd_info a (\<lambda>i. i\<lparr>prev_allocated := b\<rparr>) s = s"
proof -
  assume "prev_allocated (info s a) = b"
  then have "(info s a)\<lparr>prev_allocated := b\<rparr> = info s a" by (cases "info s a") simp
  then show ?thesis by simp
qed

text \<open>The remainder of a hole becomes a free block.\<close>

lemma splitBlock_ok:
  assumes sg: "seg s PROLOGUE_ROWS True xs" and h: "h = stop PROLOGUE_ROWS xs"
    and b: "blk s h (last_alloc True xs) n True" and m: "2 \<le> m" and ly: "lay s (h + 2 * n + 2 * m) pa ys" and nxt: "ys = [] \<or> snd (hd ys)"
    and l: "free_lists s (frees PROLOGUE_ROWS xs \<union> frees (h + 2 * n + 2 * m) ys)" and e: "hend s \<le> 2 ^ 28"
    and ok: "add_ok f" "\<not> add_fails f"
  obtains s' where "splitBlock f h (m * 16) s = MRet (Some (h + 2 * n), s')" "info s' (Row h) = info s (Row h)"
    "info s' (Row (h + 2 * n + 2 * m)) = info s (Row (h + 2 * n + 2 * m))" "info s' (Row (h + 2 * n)) = free_info m"
    "heap_ok (upd_info (Row (h + 2 * n + 2 * m)) (\<lambda>i. i\<lparr>prev_allocated := False\<rparr>) s') (xs @ (n, True) # (m, False) # ys)"
proof -
  have n: "2 \<le> n" "block_size (info s (Row h)) = n" using b by (auto simp: blk_def)
  have m28: "m < 2 ^ 28" using lay_end [OF ly] stop_ge [of "h + 2 * n + 2 * m" ys] e by auto
  define g where "g = h + 2 * n"
  define t where "t = s\<lparr>info := (info s)(Row g := free_info m)\<rparr>"
  have t: "setFreeHeader g (m * 16) s = t" using m28 by (simp add: t_def setFreeHeader_eq)
  have nx: "getNextHeaderPointer h s = g" "getNextHeaderPointer g t = g + 2 * m"
    using n by (auto simp: getNextHeaderPointer_def g_def t_def)
  have al: "allocated (info t (Row (g + 2 * m)))"
    using lay_head_allocated [OF ly] nxt m by (auto simp: t_def g_def)
  have new: "\<forall>k. (g, k) \<notin> frees PROLOGUE_ROWS xs \<union> frees (h + 2 * n + 2 * m) ys"
    using frees_range [OF _ sg] frees_range [of _ _ "h + 2 * n + 2 * m" ys s pa] ly n(1) m h
    by (fastforce simp: lay_def g_def)
  have lt: "free_lists t (frees PROLOGUE_ROWS xs \<union> frees (h + 2 * n + 2 * m) ys)" using l by (simp add: t_def)
  obtain u where u: "add_free f g (16 * m) t = MRet u" "hend u = hend t" "\<forall>r. info u (Row r) = info t (Row r)"
    "free_lists u (insert (g, m) (frees PROLOGUE_ROWS xs \<union> frees (h + 2 * n + 2 * m) ys))"
    using add_free_lists [OF ok lt _ new, of m] m by (metis gr0I not_numeral_le_zero)
  define v where "v = u\<lparr>info := (info u)(Row (g + 2 * m - 1) := free_info m)\<rparr>"
  have v: "setFooter (getFooterPointer g u) (m * 16) u = v"
    using m28 u(3) by (simp add: v_def setFooter_eq getFooterPointer_def t_def)
  have sp: "splitBlock f h (m * 16) s = MRet (Some g, v)"
    using m al u(1) v unfolding splitBlock_def Let_def nx t by (simp add: mult.commute)
  have iv: "\<And>r. r \<noteq> g \<Longrightarrow> r \<noteq> g + 2 * m - 1 \<Longrightarrow> info v (Row r) = info s (Row r)"
    "info v (Row g) = free_info m" "info v (Row (g + 2 * m - 1)) = free_info m" "hend v = hend s"
    using u(2,3) m by (auto simp: v_def t_def)
  define w where "w = upd_info (Row (g + 2 * m)) (\<lambda>i. i\<lparr>prev_allocated := False\<rparr>) v"
  have iw: "\<And>r. r \<noteq> g \<Longrightarrow> r \<noteq> g + 2 * m - 1 \<Longrightarrow> r \<noteq> g + 2 * m \<Longrightarrow> info w (Row r) = info s (Row r)"
    "info w (Row g) = free_info m" "info w (Row (g + 2 * m - 1)) = free_info m" "hend w = hend s"
    "info w (Row (g + 2 * m)) = (info s (Row (g + 2 * m)))\<lparr>prev_allocated := False\<rparr>"
    using iv m by (auto simp: w_def)
  have "seg w PROLOGUE_ROWS True xs" using sg by (rule seg_cong) (use iw(1) h n(1) m in \<open>auto simp: g_def\<close>)
  moreover have "blk w h (last_alloc True xs) n True" using _ b by (rule blk_cong) (use iw(1) m in \<open>auto simp: g_def\<close>)
  moreover have "blk w g True m False" using iw m by (simp add: blk_def)
  moreover have "lay w (g + 2 * m) False ys"
    using ly unfolding g_def by (rule lay_set_prev) (use iw nxt m in \<open>auto simp: g_def\<close>)
  moreover have "free_lists w (frees PROLOGUE_ROWS xs \<union> insert (g, m) (frees (g + 2 * m) ys))"
    using u(4) by (simp add: w_def v_def g_def)
  ultimately have "heap_ok w (xs @ (n, True) # (m, False) # ys)" using h iw(4) e by (simp add: heap_ok_def g_def)
  moreover have "info v (Row h) = info s (Row h)" "info v (Row (g + 2 * m)) = info s (Row (g + 2 * m))"
    using iv(1) n(1) m by (simp_all add: g_def)
  ultimately show thesis using that [of v] sp iv(2) by (simp add: g_def w_def)
qed

lemma place_ok:
  assumes h: "hole s xs h k ys" and ly: "lay s (h + 2 * k) False ys" and n: "2 \<le> n" "n \<le> k"
    and req: "req + 8 \<le> 16 * n" "req < 2 ^ 32" and ok: "add_ok f" "\<not> add_fails f"
  obtains s' where "place f req h (16 * int n) s = MRet s'" "heap_ok s' (alloc_block xs n k ys)"
    "requested_size (info s' (Row h)) = req"
proof -
  have d: "seg s PROLOGUE_ROWS True xs" "last_alloc True xs" "h = stop PROLOGUE_ROWS xs" "block_size (info s (Row h)) = k"
    "free_lists s (frees PROLOGUE_ROWS xs \<union> frees (h + 2 * k) ys)" "hend s \<le> 2 ^ 28"
    using h by (auto simp: hole_def)
  have k: "k < 2 ^ 27" using hole_small [OF h] by simp
  have old: "bytes_of (info s (Row h)) = 16 * int k" using bytes_of_small d(4) k by simp
  define t where "t = (\<lambda>m. s\<lparr>info := (info s)(Row h := \<lparr>allocated = True, prev_allocated = True, block_size = m, requested_size = req\<rparr>)\<rparr>)"
  have t: "upd_info (Row h) (\<lambda>i. i\<lparr>block_size := nat (16 * int n div 16) mod 2 ^ 28, requested_size := req mod 2 ^ 32,
      allocated := True, prev_allocated := True\<rparr>) s = t n"
    using n k req by (simp add: t_def set_all_fields')
  have it: "\<And>m r. r \<noteq> h \<Longrightarrow> info (t m) (Row r) = info s (Row r)" "\<And>m. hend (t m) = hend s" by (simp_all add: t_def)
  have sg: "seg (t m) PROLOGUE_ROWS True xs" for m using d(1) by (rule seg_cong) (use it d(3) in auto)
  have bl: "blk (t m) h (last_alloc True xs) m True" if "n \<le> m" for m using n(1) req that d(2) by (simp add: t_def blk_def)
  have lt: "lay (t m) (h + 2 * k) False ys" for m using ly by (rule lay_cong) (use it n in auto)
  show thesis
  proof (cases "k - n < 2")
    case True
    let ?u = "upd_info (Row (h + 2 * k)) (\<lambda>i. i\<lparr>prev_allocated := True\<rparr>) (t k)"
    have "upd_info (Row h) (\<lambda>i. i\<lparr>block_size := nat (16 * int k div 16) mod 2 ^ 28\<rparr>) (t n) = t k"
      using k by (simp add: t_def)
    moreover have "16 * int k - 16 * int n < 32" using True n by auto
    moreover have "getNextHeaderPointer h (t k) = h + 2 * k" by (simp add: getNextHeaderPointer_def t_def)
    ultimately have p: "place f req h (16 * int n) s = MRet ?u"
      unfolding place_def Let_def old t by simp
    have "seg ?u PROLOGUE_ROWS True xs" using sg [of k] by (rule seg_cong) (use d(3) in auto)
    moreover have "blk (t k) h True k True" using bl [OF n(2)] d(2) by simp
    then have "blk ?u h True k True" by (rule blk_cong [rotated]) auto
    moreover have "lay ?u (h + 2 * k) True ys" using lt [of k] by (rule lay_set_prev) auto
    moreover have "free_lists ?u (frees PROLOGUE_ROWS xs \<union> frees (h + 2 * k) ys)" using d(5) by (simp add: t_def)
    ultimately have "heap_ok ?u (alloc_block xs n k ys)"
      using d(2,3,6) True by (simp add: heap_ok_def alloc_block_def t_def)
    then show thesis using that [OF p] n by (simp add: t_def)
  next
    case False
    define m where "m = k - n"
    have m: "2 \<le> m" "k = n + m" using False n by (auto simp: m_def)
    have e: "hend (t n) \<le> 2 ^ 28" "lay (t n) (h + 2 * n + 2 * m) False ys"
      "free_lists (t n) (frees PROLOGUE_ROWS xs \<union> frees (h + 2 * n + 2 * m) ys)"
      using d(5,6) lt [of n] m(2) by (simp_all add: it(2) algebra_simps) (simp add: t_def)
    obtain u where u: "splitBlock f h (m * 16) (t n) = MRet (Some (h + 2 * n), u)" "info u (Row h) = info (t n) (Row h)"
      "info u (Row (h + 2 * n + 2 * m)) = info (t n) (Row (h + 2 * n + 2 * m))" "info u (Row (h + 2 * n)) = free_info m"
      "heap_ok (upd_info (Row (h + 2 * n + 2 * m)) (\<lambda>i. i\<lparr>prev_allocated := False\<rparr>) u) (xs @ (n, True) # (m, False) # ys)"
      by (rule splitBlock_ok [OF sg d(3) bl [OF order_refl] m(1) e(2) lay_after_free [OF e(2)] e(3,1) ok])
    have "\<not> prev_allocated (info u (Row (h + 2 * n + 2 * m)))" using e(2) u(3) by (cases ys) (auto simp: blk_def epi_def)
    then have u5: "heap_ok u (xs @ (n, True) # (m, False) # ys)" using u(5) by (simp add: upd_info_same)
    have nx: "getNextHeaderPointer h u = h + 2 * n" using u(2) by (simp add: getNextHeaderPointer_def t_def)
    have same: "upd_info (Row (h + 2 * n)) (\<lambda>i. i\<lparr>prev_allocated := True\<rparr>) u = u" by (rule upd_info_same) (simp add: u(4))
    have "nat (16 * int k - 16 * int n) = m * 16" "\<not> 16 * int k - 16 * int n < 32" using m by auto
    then have p: "place f req h (16 * int n) s = MRet u"
      unfolding place_def Let_def old t by (simp add: u(1) nx same del: fun_upd_apply)
    show thesis using that [OF p] u(2) u5 False m by (simp add: alloc_block_def t_def)
  qed
qed

text \<open>When the block after the remainder is free too, they join.\<close>

lemma splitBlock_merge:
  assumes sg: "seg s PROLOGUE_ROWS True xs" and h: "h = stop PROLOGUE_ROWS xs"
    and b: "blk s h (last_alloc True xs) n True" and m: "2 \<le> m" and ly: "lay s (h + 2 * n + 2 * m) True ((k, False) # zs)"
    and l: "free_lists s (frees PROLOGUE_ROWS xs \<union> frees (h + 2 * n + 2 * m) ((k, False) # zs))" and e: "hend s \<le> 2 ^ 28"
    and ok: "add_ok f" "\<not> add_fails f"
  obtains s' where "splitBlock f h (m * 16) s = MRet (Some (h + 2 * n), s')" "info s' (Row h) = info s (Row h)"
    "block_size (info s' (Row (h + 2 * n))) = m + k"
    "heap_ok (upd_info (Row (h + 2 * n + 2 * (m + k))) (\<lambda>i. i\<lparr>prev_allocated := False\<rparr>) s') (xs @ (n, True) # (m + k, False) # zs)"
proof -
  have n: "2 \<le> n" "block_size (info s (Row h)) = n" and k: "2 \<le> k" "block_size (info s (Row (h + 2 * n + 2 * m))) = k"
    "\<not> allocated (info s (Row (h + 2 * n + 2 * m)))" using b ly by (auto simp: blk_def)
  have m28: "m < 2 ^ 28" using lay_end [OF ly] stop_ge [of "h + 2 * n + 2 * m" "(k, False) # zs"] e by auto
  define g where "g = h + 2 * n"
  define t where "t = s\<lparr>info := (info s)(Row g := free_info m)\<rparr>"
  have t: "setFreeHeader g (m * 16) s = t" using m28 by (simp add: t_def setFreeHeader_eq)
  have nx: "getNextHeaderPointer h s = g" "getNextHeaderPointer g t = g + 2 * m"
    using n by (auto simp: getNextHeaderPointer_def g_def t_def)
  have it: "\<And>r. r \<noteq> g \<Longrightarrow> info t (Row r) = info s (Row r)" "hend t = hend s" by (simp_all add: t_def)
  have "seg t PROLOGUE_ROWS True (xs @ [(n, True)])"
    using seg_cong [OF sg, of t] blk_cong [OF _ b, of t] it(1) h n(1) by (simp add: g_def)
  moreover have "lay t (g + 2 * m) True ((k, False) # zs)"
    using ly unfolding g_def by (rule lay_cong) (use it m in \<open>auto simp: g_def\<close>)
  moreover have "block_size (info t (Row g)) = m" by (simp add: t_def)
  moreover have "free_lists t (frees PROLOGUE_ROWS xs \<union> frees (g + 2 * m) ((k, False) # zs))"
    using l by (simp add: t_def g_def)
  ultimately have ht: "hole t (xs @ [(n, True)]) g m ((k, False) # zs)"
    using m e it(2) h unfolding hole_def by (auto simp: g_def)
  define u where "u = coalesce g (k * 16) (removeHeader (Row (g + 2 * m)) t)"
  have hu: "hole u (xs @ [(n, True)]) g (m + k) zs" "lay u (g + 2 * m + 2 * k) False zs"
    using hole_join_next [OF ht] by (simp_all add: u_def)
  have mk: "m + k < 2 ^ 28" using hole_small [OF hu(1)] by simp
  have "u = (removeHeader (Row (g + 2 * m)) t)\<lparr>info := (info t)(Row g := free_info (m + k), Row (g + 2 * (m + k) - 1) := free_info (m + k))\<rparr>"
    unfolding u_def using mk coalesce_to [of "removeHeader (Row (g + 2 * m)) t" g "k * 16" "m + k"] by (simp add: t_def)
  then have iu: "info u = (info t)(Row g := free_info (m + k), Row (g + 2 * (m + k) - 1) := free_info (m + k))"
    "g \<noteq> g + 2 * (m + k) - 1" using m by auto
  have bu: "block_size (info u (Row g)) = m + k" using iu by simp
  have same: "s'\<lparr>info := info s'\<rparr> = s'" for s' :: mm by simp
  have sf: "setFooter (getFooterPointer g u) ((m + k) * 16) u = u"
    using setFooter_eq [OF mk, of "g + 2 * (m + k) - 1" u] iu bu same [of u] by (simp add: getFooterPointer_def fun_upd_idem)
  have c0: "coalesce g 0 u = u"
    using coalesce_to [of u g 0 "m + k"] mk iu same [of u] by (simp add: fun_upd_idem)
  obtain v where v: "add_free f g ((m + k) * 16) u = MRet v" "block_size (info v (Row g)) = m + k"
    "heap_ok (upd_info (Row (g + 2 * (m + k))) (\<lambda>i. i\<lparr>prev_allocated := False\<rparr>) v) ((xs @ [(n, True)]) @ (m + k, False) # zs)"
    "\<forall>r. r \<noteq> g \<longrightarrow> r \<noteq> g + 2 * (m + k) - 1 \<longrightarrow> info v (Row r) = info u (Row r)"
    using hole_release [OF hu(1) lay_after_free [OF hu(2)] ok] c0 by metis
  have sp: "splitBlock f h (m * 16) s = MRet (Some g, v)"
    using m k(2,3) v(1) it(1) [of "g + 2 * m"] unfolding splitBlock_def Let_def nx t
    by (simp add: g_def [symmetric] u_def [symmetric] bu sf [unfolded add_mult_distrib])
  have "info v (Row h) = info s (Row h)" using v(4) iu it(1) n(1) m by (simp add: g_def)
  then show thesis using that [of v] sp v(2,3) by (simp add: g_def)
qed

subsection \<open>The search for a block\<close>

text \<open>The block size, in units, for a request of \<open>n\<close> bytes.\<close>

definition units :: "nat \<Rightarrow> nat" where
  "units n = (if n \<le> 24 then 2 else (n + 23) div 16)"

lemma units_bounds: "2 \<le> units n" "n + 8 \<le> 16 * units n" "n + 8 > 32 \<Longrightarrow> 16 * units n < n + 24"
  by (auto simp: units_def)

lemma getNewSize_units: "unat n \<le> 2 ^ 31 - 24 \<Longrightarrow> sint (getNewSize n) = 16 * int (units (unat n))"
  unfolding units_def by (rule getNewSize_value)

lemma frees_set: "(\<exists>r. (r, k) \<in> frees h bs) \<longleftrightarrow> (k, False) \<in> set bs"
  by (induction h bs rule: frees.induct) auto

lemma fit_loop_chain:
  assumes "chain (nnext s) pv x vs free_list_head" "free_list_head \<notin> set vs" "length vs < k"
  shows "fit_loop k (nnext s x) (int n) hd0 s =
    (let big = (\<lambda>j. nsize s j \<ge> to_size_t (int n))
     in case dropWhile (\<lambda>j. big j \<longrightarrow> lnext s (Head j) = Head j) vs of
          [] \<Rightarrow> Some (free_list_head, if filter big vs = [] then hd0 else Some (Head (last (filter big vs))))
        | v # _ \<Rightarrow> Some (v, Some (lnext s (Head v))))"
  using assms
proof (induction vs arbitrary: x k hd0)
  case Nil
  then show ?case by (cases k) auto
next
  case (Cons v vs)
  then obtain k' where k: "k = Suc k'" by (cases k) auto
  have c: "nnext s x = v" "v \<noteq> free_list_head" "chain (nnext s) pv v vs free_list_head" "free_list_head \<notin> set vs" "length vs < k'"
    using Cons.prems k by auto
  note IH = Cons.IH [OF c(3-5)]
  show ?case
  proof (cases "nsize s v \<ge> to_size_t (int n)")
    case True
    show ?thesis
      by (cases "lnext s (Head v) = Head v"; cases "filter (\<lambda>j. nsize s j \<ge> to_size_t (int n)) vs = []")
        (use True c(1,2) IH k in \<open>simp_all add: Let_def cong: list.case_cong\<close>)
  next
    case False
    then show ?thesis using c(1,2) IH k by (simp add: Let_def cong: list.case_cong)
  qed
qed

lemma fit_loop_nodes:
  assumes "nodes s ns" "16 * n < 2 ^ 64"
  shows "fit_loop (nodes_used s + 1) (nnext s free_list_head) (16 * int n) None s =
    (case dropWhile (\<lambda>j. 16 * n \<le> nsize s j \<longrightarrow> lnext s (Head j) = Head j) ns of
       [] \<Rightarrow> Some (free_list_head, if \<forall>j\<in>set ns. nsize s j < 16 * n then None
              else Some (Head (last (filter (\<lambda>j. 16 * n \<le> nsize s j) ns))))
     | v # _ \<Rightarrow> Some (v, Some (lnext s (Head v))))"
proof -
  have "chain (nnext s) (nprev s) free_list_head ns free_list_head" "free_list_head \<notin> set ns"
    "length ns < nodes_used s + 1"
    using assms(1) nodes_length [OF assms(1)] by (auto simp: nodes_def ring_def)
  from fit_loop_chain [OF this, of "16 * n" None] assms(2) show ?thesis
    by (simp add: Let_def to_size_t_nat [of "16 * n", simplified] filter_empty_conv not_le cong: list.case_cong)
qed

lemma fit_loop_none:
  assumes "nodes s ns" "16 * n < 2 ^ 64" "\<forall>j\<in>set ns. 16 * n \<le> nsize s j \<longrightarrow> lnext s (Head j) = Head j"
  shows "fit_loop (nodes_used s + 1) (nnext s free_list_head) (16 * int n) None s =
    Some (free_list_head, if \<forall>j\<in>set ns. nsize s j < 16 * n then None else Some (Head (last (filter (\<lambda>j. 16 * n \<le> nsize s j) ns))))"
proof -
  have d: "dropWhile (\<lambda>j. 16 * n \<le> nsize s j \<longrightarrow> lnext s (Head j) = Head j) ns = []" using assms(3) by (simp add: dropWhile_eq_Nil_conv)
  show ?thesis unfolding fit_loop_nodes [OF assms(1,2)] d by simp
qed

lemma fit_loop_uninitialised:
  assumes "nodes s ns" "16 * n < 2 ^ 64" "\<forall>j\<in>set ns. nsize s j < 16 * n"
  shows "fit_loop (nodes_used s + 1) (nnext s free_list_head) (16 * int n) None s = Some (free_list_head, None)"
  by (subst fit_loop_none [OF assms(1,2)]) (use assms(3) in auto)

lemma fit_loop_dummy:
  assumes "nodes s ns" "16 * n < 2 ^ 64" "\<forall>j\<in>set ns. 16 * n \<le> nsize s j \<longrightarrow> lnext s (Head j) = Head j"
    and "j \<in> set ns" "16 * n \<le> nsize s j"
  obtains i where "fit_loop (nodes_used s + 1) (nnext s free_list_head) (16 * int n) None s = Some (free_list_head, Some (Head i))"
proof -
  have "\<not> (\<forall>j\<in>set ns. nsize s j < 16 * n)" using assms(4,5) by force
  then show thesis using that unfolding fit_loop_none [OF assms(1,2,3)] by simp
qed

text \<open>The list of a node is empty exactly when no free block has its size.\<close>

lemma free_lists_head:
  assumes l: "free_lists s fs" and ns: "nodes s ns" and j: "j \<in> set ns"
  shows "lnext s (Head j) = Head j \<and> (\<forall>h n. (h, n) \<in> fs \<longrightarrow> nsize s j \<noteq> 16 * n) \<or>
    (\<exists>h n. lnext s (Head j) = Row h \<and> (h, n) \<in> fs \<and> nsize s j = 16 * n)"
proof -
  obtain ms where ms: "nodes s ms"
    "\<forall>k\<in>set ms. \<exists>xs. fl.rep s (Head k) (map Row xs) \<and> set xs = {h. \<exists>n. (h, n) \<in> fs \<and> nsize s k = 16 * n}"
    using l unfolding free_lists_def by blast
  have "ms = ns" using ms(1) ns unfolding nodes_def by (blast intro: ring_unique)
  then obtain xs where xs: "fl.rep s (Head j) (map Row xs)" "set xs = {h. \<exists>n. (h, n) \<in> fs \<and> nsize s j = 16 * n}"
    using ms(2) j by blast
  show ?thesis
  proof (cases xs)
    case Nil
    then show ?thesis using fl.rep_first [OF xs(1)] xs(2) by auto
  next
    case (Cons h ys)
    then have "h \<in> {h. \<exists>n. (h, n) \<in> fs \<and> nsize s j = 16 * n}" using xs(2) by auto
    then show ?thesis using fl.rep_first [OF xs(1)] Cons by fastforce
  qed
qed

subsection \<open>sf_malloc on a heap with a block that fits\<close>

lemma heap_ok_hend: "heap_ok s bs \<Longrightarrow> 6 \<le> hend s"
  using stop_ge [of PROLOGUE_ROWS bs] by (auto simp: heap_ok_def dest: lay_end)

text \<open>The search takes a free block of the smallest size that fits.\<close>

lemma fit_loop_best:
  assumes l: "free_lists s fs" and n: "16 * n < 2 ^ 64" and fit: "(r0, k0) \<in> fs" "n \<le> k0"
  obtains j h k where "fit_loop (nodes_used s + 1) (nnext s free_list_head) (16 * int n) None s = Some (j, Some (Row h))"
    "j \<noteq> free_list_head" "(h, k) \<in> fs" "n \<le> k" "\<forall>(r, m)\<in>fs. n \<le> m \<longrightarrow> k \<le> m"
proof -
  obtain ns where ns: "nodes s ns" "\<forall>(h, m)\<in>fs. \<exists>k\<in>set ns. nsize s k = 16 * m" using l unfolding free_lists_def by blast
  let ?P = "\<lambda>j. 16 * n \<le> nsize s j \<longrightarrow> lnext s (Head j) = Head j"
  have full: "\<not> ?P j" if "j \<in> set ns" "(r, m) \<in> fs" "nsize s j = 16 * m" "n \<le> m" for j r m
    using free_lists_head [OF l ns(1) that(1)] that by auto
  obtain j0 where j0: "j0 \<in> set ns" "nsize s j0 = 16 * k0" using ns(2) fit(1) by fastforce
  then have "\<not> ?P j0" using full fit by blast
  then have "dropWhile ?P ns \<noteq> []" using j0(1) by (auto simp: dropWhile_eq_Nil_conv)
  then obtain j zs where d: "dropWhile ?P ns = j # zs" by (cases "dropWhile ?P ns") auto
  have j: "j \<in> set ns" "\<not> ?P j" using d set_dropWhileD [of j ?P ns] hd_dropWhile [of ?P ns] by auto
  obtain h k where h: "lnext s (Head j) = Row h" "(h, k) \<in> fs" "nsize s j = 16 * k"
    using free_lists_head [OF l ns(1) j(1)] j(2) by auto
  have ord: "ns = takeWhile ?P ns @ j # zs" using takeWhile_dropWhile_id [of ?P ns] d by simp
  have srt: "sorted_wrt (<) (map (nsize s) (takeWhile ?P ns @ j # zs))" using ns(1) ord by (metis nodes_def)
  have "k \<le> m" if m: "(r, m) \<in> fs" "n \<le> m" for r m
  proof -
    obtain i where i: "i \<in> set ns" "nsize s i = 16 * m" using ns(2) m(1) by fastforce
    then have "i \<notin> set (takeWhile ?P ns)" using full m by (blast dest: set_takeWhileD)
    then have "i \<in> set (j # zs)" using i(1) ord by (metis Un_iff set_append)
    then show ?thesis using srt i(2) h(3) by (auto simp: sorted_wrt_append)
  qed
  moreover have "j \<noteq> free_list_head" using j(1) ns(1) by (auto simp: nodes_def ring_def intro!: gr0I)
  ultimately show thesis
    using that [of j h k] fit_loop_nodes [OF ns(1) n] d h j by auto
qed

lemma hole_take:
  assumes h: "heap_ok s (xs @ (k, False) # ys)" and r: "r = stop PROLOGUE_ROWS xs"
  shows "hole (removeHeader (Row r) s) xs r k ys" "lay (removeHeader (Row r) s) (r + 2 * k) False ys"
proof -
  let ?t = "removeHeader (Row r) s"
  have d: "seg s PROLOGUE_ROWS True xs" "last_alloc True xs" "block_size (info s (Row r)) = k" "2 \<le> k"
    "lay s (r + 2 * k) False ys" "hend s \<le> 2 ^ 28"
    "free_lists s (frees PROLOGUE_ROWS xs \<union> insert (r, k) (frees (r + 2 * k) ys))"
    using h r by (auto simp: heap_ok_def blk_def)
  have "(r, k) \<notin> frees PROLOGUE_ROWS xs" "(r, k) \<notin> frees (r + 2 * k) ys"
    using frees_range [OF _ d(1)] frees_range [of _ _ "r + 2 * k" ys s False] r d(4,5)
    by (fastforce simp: lay_def)+
  then have "frees PROLOGUE_ROWS xs \<union> insert (r, k) (frees (r + 2 * k) ys) - {(r, k)}
      = frees PROLOGUE_ROWS xs \<union> frees (r + 2 * k) ys" by auto
  then have l: "free_lists ?t (frees PROLOGUE_ROWS xs \<union> frees (r + 2 * k) ys)"
    using removeHeader_lists [OF d(7), of r k] by simp
  have sg: "seg ?t PROLOGUE_ROWS True xs" using d(1) by (rule seg_cong) auto
  show ly: "lay ?t (r + 2 * k) False ys" using d(5) by (rule lay_cong) auto
  show "hole ?t xs r k ys" using d sg ly l r by (auto simp: hole_def)
qed

lemma grow_loop_done: "newSize \<le> bytes_of (info s h) \<Longrightarrow> grow_loop f g (Suc k) newSize h s = MRet (Some h, s)"
  by simp

lemma grow_loop_once:
  assumes "bytes_of (info s h) < newSize" "mem_grow f g s = MRet (Some r, w)" "newSize \<le> bytes_of (info w (Row r))"
  shows "grow_loop f g GROW_MAX newSize h s = MRet (Some (Row r), w)"
proof -
  obtain k where "GROW_MAX = Suc (Suc k)" by (rule that [of "2 ^ 19"]) (simp add: GROW_MAX_def)
  moreover have "grow_loop f g (Suc (Suc k)) newSize h s = MRet (Some (Row r), w)" using assms by simp
  ultimately show ?thesis by (simp only:)
qed

lemma GROW_MAX_Suc: "GROW_MAX = Suc (2 ^ 19 + 1)"
  by (simp add: GROW_MAX_def)

lemma sf_malloc_fit:
  assumes h: "heap_ok s bs" and n: "n \<noteq> 0" "unat n \<le> 2 ^ 31 - 24" and ok: "add_ok f" "\<not> add_fails f"
    and fit: "(k0, False) \<in> set bs" "units (unat n) \<le> k0"
  obtains xs k ys s' where "bs = xs @ (k, False) # ys" "units (unat n) \<le> k"
    "\<forall>m. (m, False) \<in> set bs \<longrightarrow> units (unat n) \<le> m \<longrightarrow> k \<le> m"
    "sf_malloc f g n s = MRet (Some (stop PROLOGUE_ROWS xs + 1), None, s')"
    "heap_ok s' (alloc_block xs (units (unat n)) k ys)" "requested_size (info s' (Row (stop PROLOGUE_ROWS xs))) = unat n"
proof -
  let ?u = "units (unat n)"
  have l: "free_lists s (frees PROLOGUE_ROWS bs)" using h by (simp add: heap_ok_def)
  obtain r0 where r0: "(r0, k0) \<in> frees PROLOGUE_ROWS bs" using fit(1) frees_set [of k0 PROLOGUE_ROWS bs] by blast
  have u: "16 * ?u < 2 ^ 64" "unat n < 2 ^ 32" using n(2) by (auto simp: units_def)
  obtain j r k where j: "fit_loop (nodes_used s + 1) (nnext s free_list_head) (16 * int ?u) None s = Some (j, Some (Row r))"
    "j \<noteq> free_list_head" "(r, k) \<in> frees PROLOGUE_ROWS bs" "?u \<le> k" "\<forall>(r, m)\<in>frees PROLOGUE_ROWS bs. ?u \<le> m \<longrightarrow> k \<le> m"
    by (rule fit_loop_best [OF l u(1) r0 fit(2)])
  obtain xs ys where xy: "bs = xs @ (k, False) # ys" "stop PROLOGUE_ROWS xs = r" using frees_split [OF j(3)] by blast
  have best: "\<forall>m. (m, False) \<in> set bs \<longrightarrow> ?u \<le> m \<longrightarrow> k \<le> m" using j(5) frees_set [of _ PROLOGUE_ROWS bs] by blast
  let ?t = "removeHeader (Row r) s"
  have t: "hole ?t xs r k ys" "lay ?t (r + 2 * k) False ys" using hole_take [of s xs k ys r] h xy by auto
  have "bytes_of (info ?t (Row r)) = 16 * int k"
    using bytes_of_small [of "info ?t (Row r)"] hole_small [OF t(1)] t(1) xy(2) by (auto simp: hole_def)
  then have g: "grow_loop f g GROW_MAX (16 * int ?u) (Row r) ?t = MRet (Some (Row r), ?t)"
    unfolding GROW_MAX_Suc using j(4) by (intro grow_loop_done) simp
  obtain s' where s': "place f (unat n) r (16 * int ?u) ?t = MRet s'" "heap_ok s' (alloc_block xs ?u k ys)"
    "requested_size (info s' (Row r)) = unat n"
    by (rule place_ok [OF t units_bounds(1) j(4) units_bounds(2) u(2) ok])
  have "sf_malloc f g n s = MRet (Some (r + 1), None, s')"
    using n(1) heap_ok_hend [OF h] j(1,2) g s'(1)
    by (simp add: sf_malloc_def getNewSize_units [OF n(2)] Let_def)
  then show thesis using that [OF xy(1) j(4) best] s'(2,3) xy(2) by simp
qed

subsection \<open>Growing the heap\<close>

text \<open>
  What \<open>sfmm.h\<close> says of \<open>sf_mem_grow\<close>: it adds one page of 512 rows at the end, or returns NULL. The
  memory is taken to suffice for heaps of up to \<open>lim\<close> rows.
\<close>

definition grow_ok :: "grow_fn \<Rightarrow> nat \<Rightarrow> bool" where
  "grow_ok g lim \<longleftrightarrow>
     (\<forall>s. hend s + 512 \<le> lim \<longrightarrow> g s \<noteq> None) \<and>
     (\<forall>s s'. g s = Some s' \<longrightarrow>
        hend s' = hend s + 512 \<and> (\<forall>r<hend s. info s' (Row r) = info s (Row r)) \<and>
        (\<forall>k. info s' (Head k) = info s (Head k)) \<and> lnext s' = lnext s \<and> lprev s' = lprev s \<and>
        nsize s' = nsize s \<and> nnext s' = nnext s \<and> nprev s' = nprev s \<and> nodes_used s' = nodes_used s)"

lemma createEpilogue_simps [simp]:
  "hend (createEpilogue s) = hend s" "free_lists (createEpilogue s) = free_lists s"
  "r \<noteq> hend s - 1 \<Longrightarrow> info (createEpilogue s) (Row r) = info s (Row r)"
  by (auto simp: createEpilogue_def)

lemma createEpilogue_epi: "0 < hend s \<Longrightarrow> epi (createEpilogue s) (hend s - 1) False"
  by (simp add: createEpilogue_def epi_def)

text \<open>The blocks of a page appended to a heap: it joins a free block at the end.\<close>

definition tail_free :: "block list \<Rightarrow> block list \<times> nat" where
  "tail_free bs = (if last_alloc True bs then (bs, 0) else (butlast bs, fst (last bs)))"

lemma hole_grown:
  assumes sg: "seg s PROLOGUE_ROWS True xs" "last_alloc True xs" and h: "h = stop PROLOGUE_ROWS xs"
    and m: "block_size (info s (Row h)) = m" "h + 2 * m + 513 = hend s" and l: "free_lists s (frees PROLOGUE_ROWS xs)"
    and e: "hend s \<le> 2 ^ 28"
  shows "hole (coalesce h PAGE_SZ (createEpilogue s)) xs h (m + 256) [] \<and>
    lay (coalesce h PAGE_SZ (createEpilogue s)) (h + 2 * (m + 256)) False []"
proof -
  let ?t = "createEpilogue s"
  have sgt: "seg ?t PROLOGUE_ROWS True xs" using sg(1) by (rule seg_cong) (use m h in auto)
  have "hend s - 1 = h + 2 * (m + 256)" using m(2) by simp
  then have ep: "lay ?t (h + 2 * (m + 256)) False []" using createEpilogue_epi [of s] m(2) by simp
  have bm: "block_size (info ?t (Row h)) + 256 = m + 256" using m by simp
  have hl: "hole (coalesce h (256 * 16) ?t) xs h (m + 256) []"
    by (rule hole_coalesce [OF sgt sg(2) h bm _ ep]) (use l e in auto)
  have "coalesce h (256 * 16) ?t = ?t\<lparr>info := (info ?t)(Row h := free_info (m + 256), Row (h + 2 * (m + 256) - 1) := free_info (m + 256))\<rparr>"
    using bm hole_small [OF hl] by (intro coalesce_to) auto
  then have "lay (coalesce h (256 * 16) ?t) (h + 2 * (m + 256)) False []" using ep by (simp add: epi_def)
  then show ?thesis using hl by simp
qed

lemma mem_grow_heap:
  assumes h: "heap_ok s bs" and g: "grow_ok g lim" "hend s + 512 \<le> lim" "lim \<le> 2 ^ 28"
    and t: "tail_free bs = (xs, m)" and r: "r = stop PROLOGUE_ROWS xs"
  obtains s' where "mem_grow f g s = MRet (Some r, s')" "hole s' xs r (m + 256) []" "lay s' (r + 2 * (m + 256)) False []"
proof -
  obtain u where u: "g s = Some u" using g(1,2) by (auto simp: grow_ok_def)
  have gu: "hend u = hend s + 512" "\<forall>r<hend s. info u (Row r) = info s (Row r)" "lnext u = lnext s" "lprev u = lprev s"
    "nsize u = nsize s" "nnext u = nnext s" "nprev u = nprev s" "nodes_used u = nodes_used s"
    using g(1) u unfolding grow_ok_def by blast+
  have lu: "free_lists u fs = free_lists s fs" for fs using gu(3-8) by (simp add: free_lists_def nodes_def fl.rep_def)
  have d: "seg s PROLOGUE_ROWS True bs" "epi s (stop PROLOGUE_ROWS bs) (last_alloc True bs)"
    "free_lists s (frees PROLOGUE_ROWS bs)" using h by (simp_all add: heap_ok_def lay_def)
  have e1: "hend s - 1 = stop PROLOGUE_ROWS bs" "stop PROLOGUE_ROWS bs < hend s" using d(2) by (auto simp: epi_def)
  have e: "hend s = stop PROLOGUE_ROWS bs + 1" "prev_allocated (info u (Row (hend s - 1))) = last_alloc True bs"
    "block_size (info u (Row (hend s - 1))) = 0" unfolding e1(1) using d(2) gu(2) e1(2) by (auto simp: epi_def)
  have sgu: "seg u PROLOGUE_ROWS True bs" using d(1) by (rule seg_cong) (use gu(2) e(1) in auto)
  show thesis
  proof (cases "last_alloc True bs")
    case True
    then have x: "xs = bs" "m = 0" using t by (auto simp: tail_free_def)
    then have rr: "r = hend s - 1" using r e(1) by simp
    have "mem_grow f g s = MRet (Some r, coalesce r PAGE_SZ (createEpilogue u))"
      using u True e(2) rr by (simp add: mem_grow_def Let_def)
    then show thesis
      using that hole_grown [OF sgu True _ e(3) [folded rr]] x rr r e(1) gu(1) lu d(3) g by auto
  next
    case False
    then obtain vs k where vs: "bs = vs @ [(k, False)]" using last_alloc_snoc by blast
    then have x: "xs = vs" "m = k" using t False by (auto simp: tail_free_def)
    have b: "blk u r True m False" "last_alloc True xs" "hend s = r + 2 * m + 1" "seg u PROLOGUE_ROWS True xs"
      using sgu vs x r e(1) by (auto simp: blk_def)
    have "hend s - 2 = r + 2 * m - 1" "2 \<le> m" using b(1,3) by (auto simp: blk_def)
    then have gh: "getHeaderPointer (hend s - 2) u = r" using b(1) by (simp add: getHeaderPointer_def blk_def)
    have fb: "frees PROLOGUE_ROWS bs = insert (r, m) (frees PROLOGUE_ROWS xs)" using vs x r by simp
    obtain ns where ns: "nodes s ns" "\<forall>(h, n)\<in>frees PROLOGUE_ROWS bs. \<exists>k\<in>set ns. nsize s k = 16 * n"
      using d(3) unfolding free_lists_def by blast
    then obtain j js where j: "ns = j # js" using fb by (cases ns) auto
    then have ne: "nnext u free_list_head \<noteq> free_list_head"
      using ns(1) gu(6) by (auto simp: nodes_def ring_def)
    let ?v = "removeHeader (Row r) u"
    have fr: "frees PROLOGUE_ROWS bs - {(r, m)} = frees PROLOGUE_ROWS xs"
      using vs x r frees_range [of r m PROLOGUE_ROWS xs u True] b(1,4) by (auto simp: blk_def)
    have l: "free_lists ?v (frees PROLOGUE_ROWS xs)"
      using removeHeader_lists [of u "frees PROLOGUE_ROWS bs" r m] d(3) lu vs x r unfolding fr [symmetric] by simp
    have "mem_grow f g s = MRet (Some r, coalesce r PAGE_SZ (createEpilogue ?v))"
      using u False e(2) gh ne by (simp add: mem_grow_def Let_def numeral_2_eq_2)
    moreover have "seg ?v PROLOGUE_ROWS True xs" using b(4) by (rule seg_cong) auto
    ultimately show thesis
      using that hole_grown [of ?v xs r m] b r gu(1) l g by (auto simp: blk_def)
  qed
qed

text \<open>
  A request that no free block satisfies grows the heap, provided some list is for blocks that are
  large enough: the search then ends with \<open>header\<close> at the dummy head of that list.
\<close>

lemma sf_malloc_grow:
  assumes h: "heap_ok s bs" and n: "n \<noteq> 0" "unat n \<le> 2 ^ 31 - 24" and ok: "add_ok f" "\<not> add_fails f"
    and g: "grow_ok g lim" "hend s + 512 \<le> lim" "lim \<le> 2 ^ 28"
    and no: "\<forall>k. (k, False) \<in> set bs \<longrightarrow> k < units (unat n)"
    and node: "nodes s ns" "j \<in> set ns" "16 * units (unat n) \<le> nsize s j"
    and t: "tail_free bs = (xs, m)" and big: "units (unat n) \<le> m + 256"
  obtains s' where "sf_malloc f g n s = MRet (Some (stop PROLOGUE_ROWS xs + 1), None, s')"
    "heap_ok s' (alloc_block xs (units (unat n)) (m + 256) [])"
proof -
  let ?u = "units (unat n)"
  define r where "r = stop PROLOGUE_ROWS xs"
  have l: "free_lists s (frees PROLOGUE_ROWS bs)" using h by (simp add: heap_ok_def)
  have u: "16 * ?u < 2 ^ 64" "unat n < 2 ^ 32" "2 \<le> ?u" using n(2) units_bounds(1) by (auto simp: units_def)
  have "lnext s (Head i) = Head i" if i: "i \<in> set ns" "16 * ?u \<le> nsize s i" for i
  proof -
    have False if "(a, k) \<in> frees PROLOGUE_ROWS bs" "nsize s i = 16 * k" for a k
      using that i(2) no frees_set [of k PROLOGUE_ROWS bs] by fastforce
    then show ?thesis using free_lists_head [OF l node(1) i(1)] by blast
  qed
  then have "\<forall>j\<in>set ns. 16 * ?u \<le> nsize s j \<longrightarrow> lnext s (Head j) = Head j" by blast
  then obtain i where fl: "fit_loop (nodes_used s + 1) (nnext s free_list_head) (16 * int ?u) None s
      = Some (free_list_head, Some (Head i))" by (rule fit_loop_dummy [OF node(1) u(1) _ node(2,3)])
  define v where "v = upd_info (Head i) (\<lambda>i. i\<lparr>block_size := 0\<rparr>) s"
  have hv: "heap_ok v bs" "hend v = hend s" using h lay_cong [of s PROLOGUE_ROWS True bs v]
    by (auto simp: heap_ok_def v_def)
  obtain w where w: "mem_grow f g v = MRet (Some r, w)" "hole w xs r (m + 256) []" "lay w (r + 2 * (m + 256)) False []"
    by (rule mem_grow_heap [OF hv(1) g(1) g(2) [folded hv(2)] g(3) t r_def])
  have "bytes_of (info w (Row r)) = 16 * int (m + 256)"
    using bytes_of_small [of "info w (Row r)"] hole_small [OF w(2)] w(2) by (auto simp: hole_def r_def)
  then have "grow_loop f g GROW_MAX (16 * int ?u) (Head i) v = MRet (Some (Row r), w)"
    using u(3) big by (intro grow_loop_once [OF _ w(1)]) (simp_all add: v_def bytes_of_def)
  moreover obtain s' where "place f (unat n) r (16 * int ?u) w = MRet s'" "heap_ok s' (alloc_block xs ?u (m + 256) [])"
    by (rule place_ok [OF w(2,3) units_bounds(1) big units_bounds(2) u(2) ok])
  ultimately show thesis
    using that n(1) heap_ok_hend [OF h] fl
    by (simp add: sf_malloc_def getNewSize_units [OF n(2)] Let_def v_def r_def del: fit_loop.simps)
qed

text \<open>A request that exceeds every list uses \<open>header\<close> uninitialised.\<close>

lemma sf_malloc_no_list:
  assumes "heap_ok s bs" "n \<noteq> 0" "unat n \<le> 2 ^ 31 - 24" "nodes s ns" "\<forall>j\<in>set ns. nsize s j < 16 * units (unat n)"
  shows "sf_malloc f g n s = MUndef"
proof -
  have u: "16 * units (unat n) < 2 ^ 64" using assms(3) by (auto simp: units_def)
  have "fit_loop (nodes_used s + 1) (nnext s free_list_head) (16 * int (units (unat n))) None s = Some (free_list_head, None)"
    by (rule fit_loop_uninitialised [OF assms(4) u assms(5)])
  then show ?thesis
    using assms(2) heap_ok_hend [OF assms(1)] by (simp add: sf_malloc_def getNewSize_units [OF assms(3)] Let_def del: fit_loop.simps)
qed

subsection \<open>The first request\<close>

definition empty_lists :: "mm \<Rightarrow> bool" where
  "empty_lists s \<longleftrightarrow> nnext s free_list_head = free_list_head \<and> nprev s free_list_head = free_list_head \<and> nsize s free_list_head = 0"

definition fresh_hole :: "mm \<Rightarrow> nat \<Rightarrow> bool" where
  "fresh_hole s n \<longleftrightarrow>
     hole s [] PROLOGUE_ROWS n [] \<and> lay s (PROLOGUE_ROWS + 2 * n) False [] \<and>
     block_size (info s (Row (PROLOGUE_ROWS + 2 * n - 1))) = n \<and> empty_lists s"

lemma empty_lists_free: "empty_lists s \<Longrightarrow> free_lists s {}"
  unfolding free_lists_def empty_lists_def nodes_def by (intro exI [of _ "[]"]) (simp add: ring_empty)

lemma fresh_coalesce:
  assumes "block_size (info s (Row PROLOGUE_ROWS)) = n" "PROLOGUE_ROWS + 2 * n + 513 = hend s" "hend s \<le> 2 ^ 28" "empty_lists s"
  shows "fresh_hole (coalesce PROLOGUE_ROWS PAGE_SZ (createEpilogue s)) (n + 256)"
proof -
  let ?t = "coalesce PROLOGUE_ROWS PAGE_SZ (createEpilogue s)"
  have g: "hole ?t [] PROLOGUE_ROWS (n + 256) [] \<and> lay ?t (PROLOGUE_ROWS + 2 * (n + 256)) False []"
    using hole_grown [of s "[]" PROLOGUE_ROWS n] assms empty_lists_free by simp
  have c: "?t = (createEpilogue s)\<lparr>info := (info (createEpilogue s))(Row PROLOGUE_ROWS := free_info (n + 256),
      Row (PROLOGUE_ROWS + 2 * (n + 256) - 1) := free_info (n + 256))\<rparr>"
    using assms by (intro coalesce_to) auto
  have "block_size (info ?t (Row (PROLOGUE_ROWS + 2 * (n + 256) - 1))) = n + 256" unfolding c by simp
  moreover have "empty_lists ?t" unfolding c using assms(4) by (simp add: empty_lists_def createEpilogue_def)
  ultimately show ?thesis using g by (simp add: fresh_hole_def)
qed

lemma mem_grow_fresh:
  assumes h: "fresh_hole s n" and g: "grow_ok g lim" "hend s + 512 \<le> lim" "lim \<le> 2 ^ 28"
  obtains s' where "mem_grow f g s = MRet (Some PROLOGUE_ROWS, s')" "fresh_hole s' (n + 256)" "hend s' = hend s + 512"
proof -
  obtain u where u: "g s = Some u" using g(1,2) by (auto simp: grow_ok_def)
  have gu: "hend u = hend s + 512" "\<forall>r<hend s. info u (Row r) = info s (Row r)" "nsize u = nsize s" "nnext u = nnext s" "nprev u = nprev s"
    using g(1) u unfolding grow_ok_def by blast+
  have ep: "epi s (PROLOGUE_ROWS + 2 * n) False" "block_size (info s (Row (PROLOGUE_ROWS + 2 * n - 1))) = n"
    "hole s [] PROLOGUE_ROWS n []" "empty_lists s" using h by (simp_all add: fresh_hole_def)
  have e: "hend s = PROLOGUE_ROWS + 2 * n + 1" using ep(1) by (simp add: epi_def)
  have e2: "hend s - 2 = PROLOGUE_ROWS + 2 * n - 1" "hend s - 1 = PROLOGUE_ROWS + 2 * n" using e by simp_all
  have d: "hend s = PROLOGUE_ROWS + 2 * n + 1" "\<not> prev_allocated (info s (Row (hend s - 1)))" "2 \<le> n"
    "block_size (info s (Row PROLOGUE_ROWS)) = n" "block_size (info s (Row (hend s - 2))) = n" "empty_lists s"
    unfolding e2 using ep e by (simp_all add: epi_def hole_def)
  have "getHeaderPointer (hend s - 2) u = PROLOGUE_ROWS" using d(1,5) gu(2) by (simp add: getHeaderPointer_def)
  moreover have "\<not> prev_allocated (info u (Row (hend s - 1)))" "nnext u 0 = 0" using d(1,2,6) gu by (auto simp: empty_lists_def)
  ultimately have "mem_grow f g s = MRet (Some PROLOGUE_ROWS, coalesce PROLOGUE_ROWS PAGE_SZ (createEpilogue u))"
    using u by (simp add: mem_grow_def Let_def numeral_2_eq_2)
  moreover have "fresh_hole (coalesce PROLOGUE_ROWS PAGE_SZ (createEpilogue u)) (n + 256)"
    using d gu g by (intro fresh_coalesce) (auto simp: empty_lists_def)
  ultimately show thesis using that gu(1) by simp
qed

lemma grow_loop_fresh:
  assumes "fresh_hole s n" "u \<le> n + 256 * k" "2 * u + 517 \<le> lim" "lim \<le> 2 ^ 28" "grow_ok g lim"
  shows "\<exists>s' m. grow_loop f g (Suc k) (16 * int u) (Row PROLOGUE_ROWS) s = MRet (Some (Row PROLOGUE_ROWS), s') \<and>
    fresh_hole s' m \<and> u \<le> m \<and> (u \<le> n \<longrightarrow> m = n) \<and> (n < u \<longrightarrow> m < u + 256)"
  using assms
proof (induction k arbitrary: s n)
  case (0 s n)
  then have "bytes_of (info s (Row PROLOGUE_ROWS)) = 16 * int n"
    using hole_small [of s "[]" PROLOGUE_ROWS n "[]"] bytes_of_small [of "info s (Row PROLOGUE_ROWS)"]
    by (simp add: fresh_hole_def hole_def)
  then show ?case using 0 by auto
next
  case (Suc k s n)
  have b: "bytes_of (info s (Row PROLOGUE_ROWS)) = 16 * int n"
    using Suc.prems(1) hole_small [of s "[]" PROLOGUE_ROWS n "[]"] bytes_of_small [of "info s (Row PROLOGUE_ROWS)"]
    by (simp add: fresh_hole_def hole_def)
  show ?case
  proof (cases "u \<le> n")
    case True
    then show ?thesis using b Suc.prems(1) by (intro exI [of _ s] exI [of _ n]) simp
  next
    case False
    have "hend s = PROLOGUE_ROWS + 2 * n + 1" using Suc.prems(1) by (simp add: fresh_hole_def epi_def)
    then have "hend s + 512 \<le> lim" using False Suc.prems(3) by simp
    then obtain s' where s': "mem_grow f g s = MRet (Some PROLOGUE_ROWS, s')" "fresh_hole s' (n + 256)"
      using mem_grow_fresh [OF Suc.prems(1,5)] Suc.prems(4) by blast
    have "u \<le> n + 256 + 256 * k" using Suc.prems(2) by simp
    from Suc.IH [OF s'(2) this Suc.prems(3-5)] show ?thesis using b False s'(1) by fastforce
  qed
qed

lemma mem_init_fresh:
  assumes s: "hend s = 0" "empty_lists s" and g: "grow_ok g lim" "512 \<le> lim" "lim \<le> 2 ^ 28"
  obtains s' where "mem_init g s = Some (PROLOGUE_ROWS, s')" "fresh_hole s' 253"
proof -
  obtain u where u: "g s = Some u" using g(1,2) s(1) unfolding grow_ok_def by fastforce
  have gu: "hend u = 512" "nsize u = nsize s" "nnext u = nnext s" "nprev u = nprev s"
    using g(1) u s(1) unfolding grow_ok_def by auto
  define v where "v = createEpilogue (createPrologue u)"
  have v: "hend v = 512" "nsize v = nsize s" "nnext v = nnext s" "nprev v = nprev s" "epi v 511 False"
    using gu by (simp_all add: v_def createEpilogue_def createPrologue_def epi_def Let_def)
  define w where "w = v\<lparr>info := (info v)(Row 5 := free_info 253, Row 510 := free_info 253)\<rparr>"
  have "setFreeHeader 5 (253 * 16) v = v\<lparr>info := (info v)(Row 5 := free_info 253)\<rparr>" by (rule setFreeHeader_eq) simp
  moreover have "setFooter 510 (253 * 16) (v\<lparr>info := (info v)(Row 5 := free_info 253)\<rparr>) = w"
    unfolding w_def by (subst setFooter_eq) simp_all
  moreover have "hend (createPrologue u) = 512" using gu(1) by (simp add: createPrologue_def Let_def)
  ultimately have "mem_init g s = Some (5, w)"
    using s(1) u v(1) by (simp add: mem_init_def Let_def v_def [symmetric] getFooterPointer_def)
  moreover have "empty_lists w" using s(2) v by (simp add: empty_lists_def w_def)
  then have "fresh_hole w 253"
    using v(1,5) empty_lists_free [of w] by (simp add: fresh_hole_def hole_def epi_def) (simp add: w_def epi_def)
  ultimately show thesis using that by simp
qed

lemma sf_malloc_first:
  assumes s: "hend s = 0" "empty_lists s" and n: "n \<noteq> 0" "unat n \<le> 2 ^ 31 - 24" and ok: "add_ok f" "\<not> add_fails f"
    and g: "grow_ok g lim" "2 * units (unat n) + 517 \<le> lim" "lim \<le> 2 ^ 28"
  obtains k s' where "sf_malloc f g n s = MRet (Some (PROLOGUE_ROWS + 1), None, s')" "units (unat n) \<le> k"
    "k = 253 \<or> 253 < units (unat n) \<and> k < units (unat n) + 256"
    "heap_ok s' (alloc_block [] (units (unat n)) k [])" "requested_size (info s' (Row PROLOGUE_ROWS)) = unat n"
proof -
  let ?u = "units (unat n)"
  have "512 \<le> lim" using g(2) by simp
  then obtain t where t: "mem_init g s = Some (PROLOGUE_ROWS, t)" "fresh_hole t 253" by (rule mem_init_fresh [OF s g(1) _ g(3)])
  have u: "?u \<le> 253 + 256 * (2 ^ 19 + 1)" "unat n < 2 ^ 32" using n(2) by (auto simp: units_def)
  obtain s1 k where s1: "grow_loop f g GROW_MAX (16 * int ?u) (Row PROLOGUE_ROWS) t = MRet (Some (Row PROLOGUE_ROWS), s1)"
    "fresh_hole s1 k" "?u \<le> k" "k = 253 \<or> 253 < ?u \<and> k < ?u + 256"
    using grow_loop_fresh [OF t(2) u(1) g(2,3,1)] unfolding GROW_MAX_Suc by (metis not_le)
  obtain s' where s': "place f (unat n) PROLOGUE_ROWS (16 * int ?u) s1 = MRet s'" "heap_ok s' (alloc_block [] ?u k [])"
    "requested_size (info s' (Row PROLOGUE_ROWS)) = unat n"
    using place_ok [OF _ _ units_bounds(1) s1(3) units_bounds(2) u(2) ok, of s1 "[]" PROLOGUE_ROWS "[]"] s1(2)
    unfolding fresh_hole_def by blast
  have "sf_malloc f g n s = MRet (Some (PROLOGUE_ROWS + 1), None, s')"
    using n(1) s(1) t(1) s1(1) s'(1) by (simp add: sf_malloc_def getNewSize_units [OF n(2)] Let_def)
  then show thesis using that [OF _ s1(3,4) s'(2,3)] by blast
qed

subsection \<open>sf_realloc to a smaller size\<close>

definition shrink_block :: "block list \<Rightarrow> nat \<Rightarrow> nat \<Rightarrow> block list \<Rightarrow> block list" where
  "shrink_block xs u n ys =
     (if n - u < 2 then xs @ (n, True) # ys
      else if ys = [] \<or> snd (hd ys) then xs @ (u, True) # (n - u, False) # ys
      else xs @ (u, True) # (n - u + fst (hd ys), False) # tl ys)"

lemma splitBlock_shrink:
  assumes sg: "seg s PROLOGUE_ROWS True xs" and h: "h = stop PROLOGUE_ROWS xs"
    and b: "blk s h (last_alloc True xs) u True" and m: "2 \<le> n - u" and ly: "lay s (h + 2 * n) True ys"
    and l: "free_lists s (frees PROLOGUE_ROWS xs \<union> frees (h + 2 * n) ys)" and e: "hend s \<le> 2 ^ 28"
    and ok: "add_ok f" "\<not> add_fails f"
  obtains s' where "splitBlock f h ((n - u) * 16) s = MRet (Some (h + 2 * u), s')" "info s' (Row h) = info s (Row h)"
    "heap_ok (upd_info (Row (getNextHeaderPointer (h + 2 * u) s')) (\<lambda>i. i\<lparr>prev_allocated := False\<rparr>) s') (shrink_block xs u n ys)"
    "getNextHeaderPointer (h + 2 * u) s' \<noteq> h"
proof -
  have n: "h + 2 * n = h + 2 * u + 2 * (n - u)" "2 \<le> u" using m b by (auto simp: blk_def)
  note ly' = ly [unfolded n(1)] and l' = l [unfolded n(1)]
  show thesis
  proof (cases "ys = [] \<or> snd (hd ys)")
    case True
    obtain s' where s': "splitBlock f h ((n - u) * 16) s = MRet (Some (h + 2 * u), s')" "info s' (Row h) = info s (Row h)"
      "info s' (Row (h + 2 * u)) = free_info (n - u)"
      "heap_ok (upd_info (Row (h + 2 * u + 2 * (n - u))) (\<lambda>i. i\<lparr>prev_allocated := False\<rparr>) s') (xs @ (u, True) # (n - u, False) # ys)"
      by (rule splitBlock_ok [OF sg h b m ly' True l' e ok])
    show thesis using that [OF s'(1,2)] s'(3,4) True m n(2) by (simp add: shrink_block_def getNextHeaderPointer_def)
  next
    case False
    then obtain k zs where ys: "ys = (k, False) # zs" by (cases ys) auto
    obtain s' where s': "splitBlock f h ((n - u) * 16) s = MRet (Some (h + 2 * u), s')" "info s' (Row h) = info s (Row h)"
      "block_size (info s' (Row (h + 2 * u))) = n - u + k"
      "heap_ok (upd_info (Row (h + 2 * u + 2 * (n - u + k))) (\<lambda>i. i\<lparr>prev_allocated := False\<rparr>) s') (xs @ (u, True) # (n - u + k, False) # zs)"
      by (rule splitBlock_merge [OF sg h b m ly' [unfolded ys] l' [unfolded ys] e ok])
    show thesis using that [OF s'(1,2)] s'(3,4) ys m n(2) by (simp add: shrink_block_def getNextHeaderPointer_def)
  qed
qed

lemma sf_realloc_smaller:
  assumes h: "heap_ok s (xs @ (n, True) # ys)" and p: "p = stop PROLOGUE_ROWS xs + 1" and ok: "add_ok f" "\<not> add_fails f"
    and r: "rsize \<noteq> 0" "unat rsize < requested_size (info s (Row (p - 1)))"
  obtains s' where "sf_realloc f g (Some p) rsize s = MRet (Some p, None, s')"
    "heap_ok s' (shrink_block xs (units (unat rsize)) n ys)" "requested_size (info s' (Row (p - 1))) = unat rsize"
proof -
  note b = heap_ok_block [OF h refl]
  define q where "q = stop PROLOGUE_ROWS xs"
  let ?u = "units (unat rsize)"
  have lt: "unat rsize + 8 < 16 * n" "unat rsize \<le> 2 ^ 31 - 24" "unat rsize < 2 ^ 32" using r(2) b(4,8) p by auto
  have u: "?u \<le> n" "2 \<le> ?u" "unat rsize + 8 \<le> 16 * ?u" using lt(1) units_bounds b(5) by (auto simp: units_def)
  have hp: "getPayloadHeader p = q" "p - 1 = q" using p by (auto simp: getPayloadHeader_def q_def)
  have na: "\<not> sf_abort (Some p) s" by (rule sf_abort_valid [OF h p])
  have by16: "bytes_of (info s (Row q)) = 16 * int n" using b(1,8) by (simp add: bytes_of_small q_def)
  have d: "seg s PROLOGUE_ROWS True xs" "lay s (q + 2 * n) True ys" "hend s \<le> 2 ^ 28"
    "free_lists s (frees PROLOGUE_ROWS xs \<union> frees (q + 2 * n) ys)" using h by (auto simp: heap_ok_def q_def)
  define t where "t = (\<lambda>k. s\<lparr>info := (info s)(Row q := (info s (Row q))\<lparr>block_size := k, requested_size := unat rsize\<rparr>)\<rparr>)"
  have it: "\<And>k i. i \<noteq> q \<Longrightarrow> info (t k) (Row i) = info s (Row i)" "\<And>k. hend (t k) = hend s" by (simp_all add: t_def)
  have sg: "seg (t k) PROLOGUE_ROWS True xs" for k using d(1) by (rule seg_cong) (use it in \<open>auto simp: q_def\<close>)
  have bl: "blk (t k) q (last_alloc True xs) k True" if "?u \<le> k" for k
    using b(2,3) u that by (simp add: t_def blk_def q_def)
  have ly: "lay (t k) (q + 2 * n) True ys" for k using d(2) by (rule lay_cong) (use it b(5) in auto)
  have l: "free_lists (t k) (frees PROLOGUE_ROWS xs \<union> frees (q + 2 * n) ys)" for k using d(4) by (simp add: t_def)
  have tn: "upd_info (Row q) (\<lambda>i. i\<lparr>requested_size := unat rsize mod 2 ^ 32\<rparr>) s = t n"
    using b(1) lt(3) by (cases "info s (Row q)") (simp add: t_def q_def)
  have tu: "upd_info (Row q) (\<lambda>i. i\<lparr>block_size := nat (16 * int ?u div 16) mod 2 ^ 28\<rparr>) (t n) = t ?u"
    using u(1) b(8) by (cases "info s (Row q)") (simp add: t_def)
  show thesis
  proof (cases "n - ?u < 2")
    case True
    have "\<not> 32 \<le> 16 * int n - 16 * int ?u" using True u(1) by auto
    then have "sf_realloc f g (Some p) rsize s = MRet (Some p, None, t n)"
      using na r hp tn by16 by (simp add: sf_realloc_def getNewSize_units [OF lt(2)] Let_def)
    moreover have "heap_ok (t n) (shrink_block xs ?u n ys)"
      using sg bl [OF u(1)] ly l d(3) it(2) True by (simp add: heap_ok_def shrink_block_def q_def)
    ultimately show thesis using that hp(2) by (simp add: t_def)
  next
    case False
    have m: "2 \<le> n - ?u" "hend (t ?u) \<le> 2 ^ 28" using False d(3) it(2) by auto
    obtain w where w: "splitBlock f q ((n - ?u) * 16) (t ?u) = MRet (Some (q + 2 * ?u), w)" "info w (Row q) = info (t ?u) (Row q)"
      "heap_ok (upd_info (Row (getNextHeaderPointer (q + 2 * ?u) w)) (\<lambda>i. i\<lparr>prev_allocated := False\<rparr>) w) (shrink_block xs ?u n ys)"
      "getNextHeaderPointer (q + 2 * ?u) w \<noteq> q"
      by (rule splitBlock_shrink [OF sg q_def bl [OF order_refl] m(1) ly l m(2) ok])
    have "nat (16 * int n - 16 * int ?u) = (n - ?u) * 16" "16 * int n - 16 * int ?u \<ge> 32" using m u by auto
    then have "sf_realloc f g (Some p) rsize s =
        MRet (Some p, None, upd_info (Row (getNextHeaderPointer (q + 2 * ?u) w)) (\<lambda>i. i\<lparr>prev_allocated := False\<rparr>) w)"
      using na r hp w(1) by16 unfolding sf_realloc_def getNewSize_units [OF lt(2)] Let_def option.sel hp(1) tn tu by (simp add: t_def)
    then show thesis using that w(2,3,4) hp(2) by (simp add: t_def)
  qed
qed

end
