(* ===== verification/Heap_Theorems.thy ===== *)
theory Heap_Theorems
  imports Heap_Proofs
begin

section \<open>Memory manager: correctness\<close>

text \<open>
  The theorems on the allocator: freeing, best fit, the first request, growth, reallocation, and
  the defects the model shows. They hold for every \<open>sf_add_free_list\<close> and \<open>sf_mem_grow\<close> that behave as
  \<open>sfmm.h\<close> says; a concrete instance of both serves the witnesses.
\<close>

subsection \<open>An instance of the helper library\<close>

definition demo_add :: add_fn where
  "demo_add n cur s =
     (let k = nodes_used s + 1
      in Some (k, s\<lparr>nsize := (nsize s)(k := n), nnext := (nnext s)(k := cur, nprev s cur := k),
           nprev := (nprev s)(k := nprev s cur, cur := k), lnext := (lnext s)(Head k := Head k),
           lprev := (lprev s)(Head k := Head k), nodes_used := k\<rparr>))"

definition demo_grow :: grow_fn where
  "demo_grow s = (if hend s + 512 \<le> 2 ^ 16 then Some (s\<lparr>hend := hend s + 512\<rparr>) else None)"

definition demo_start :: mm where
  "demo_start = \<lparr>info = (\<lambda>_. free_info 0), lnext = (\<lambda>_. Row 0), lprev = (\<lambda>_. Row 0), nsize = (\<lambda>_. 0),
     nnext = (\<lambda>_. 0), nprev = (\<lambda>_. 0), hend = 0, nodes_used = 0\<rparr>"

lemma demo_add_ok: "add_ok demo_add" "\<not> add_fails demo_add"
proof -
  have "ring ((nnext s)(k := c, nprev s c := k)) ((nprev s)(k := nprev s c, c := k)) 0 (us @ k # vs)"
    if "ring (nnext s) (nprev s) 0 (us @ vs)" "\<forall>j\<in>set (us @ vs). j \<le> nodes_used s" "k = nodes_used s + 1"
      "c = (case vs of [] \<Rightarrow> 0 | v # _ \<Rightarrow> v)" for s :: mm and k c us vs
    using that by (intro ring_insert) force+
  then show "add_ok demo_add" unfolding add_ok_def demo_add_def Let_def by auto
  show "\<not> add_fails demo_add" by (simp add: add_fails_def demo_add_def Let_def)
qed

lemma demo_grow_ok: "grow_ok demo_grow (2 ^ 16)"
  by (auto simp: grow_ok_def demo_grow_def)

lemma demo_start_ok: "hend demo_start = 0" "empty_lists demo_start"
  by (simp_all add: demo_start_def empty_lists_def)

text \<open>A heap after one request of 4000 bytes: 251 units in use and 2 free.\<close>

lemma demo_heap:
  obtains s where "sf_malloc demo_add demo_grow 4000 demo_start = MRet (Some 6, None, s)" "heap_ok s [(251, True), (2, False)]"
    "requested_size (info s (Row 5)) = 4000"
proof -
  have u: "unat (4000 :: u64) = 4000" "units 4000 = 251" by (simp_all add: units_def)
  obtain k s where s: "sf_malloc demo_add demo_grow 4000 demo_start = MRet (Some (PROLOGUE_ROWS + 1), None, s)"
    "251 \<le> k" "k = 253 \<or> 253 < (251 :: nat) \<and> k < 251 + 256" "heap_ok s (alloc_block [] 251 k [])" "requested_size (info s (Row 5)) = 4000"
    by (rule sf_malloc_first [OF demo_start_ok _ _ demo_add_ok demo_grow_ok, of 4000, unfolded u]) simp_all
  then have "k = 253" by simp
  then show thesis using that s(1,4,5) by (simp add: alloc_block_def)
qed

lemma demo_heap1:
  obtains s where "heap_ok s [(8, True), (245, False)]" "requested_size (info s (Row 5)) = 112"
proof -
  have u': "unat (112 :: u64) = 112" "units 112 = 8" by (simp_all add: units_def)
  obtain a where "heap_ok a [(251, True), (2, False)]" by (rule demo_heap)
  then obtain b where b: "heap_ok b [(253, False)]"
    using sf_free_blocks [of a "[]" 251 "[(2, False)]" 6 demo_add] demo_add_ok by (auto simp: free_block_def)
  obtain xs k ys c where c: "[(253, False)] = xs @ (k, False) # ys" "heap_ok c (alloc_block xs 8 k ys)"
    "requested_size (info c (Row (stop PROLOGUE_ROWS xs))) = 112"
    by (rule sf_malloc_fit [OF b _ _ demo_add_ok, of 112 253 demo_grow, unfolded u']) simp_all
  then show thesis using that by (auto simp: Cons_eq_append_conv alloc_block_def)
qed

text \<open>A heap with two blocks of 128 bytes and the rest of the page free, and the same with the first freed.\<close>

lemma demo_heap2:
  obtains s s' where "heap_ok s [(8, True), (8, True), (237, False)]" "heap_ok s' [(8, False), (8, True), (237, False)]"
proof -
  have u': "unat (112 :: u64) = 112" "units 112 = 8" by (simp_all add: units_def)
  obtain c where "heap_ok c [(8, True), (245, False)]" by (rule demo_heap1)
  then obtain xs k ys d where d: "[(8, True), (245, False)] = xs @ (k, False) # ys" "heap_ok d (alloc_block xs 8 k ys)"
    by (rule sf_malloc_fit [OF _ _ _ demo_add_ok, of _ _ 112 245 demo_grow, unfolded u']) simp_all
  then have d': "heap_ok d [(8, True), (8, True), (237, False)]" by (auto simp: Cons_eq_append_conv alloc_block_def)
  then obtain e where "heap_ok e [(8, False), (8, True), (237, False)]"
    using sf_free_blocks [of d "[]" 8 "[(8, True), (237, False)]" 6 demo_add] demo_add_ok by (auto simp: free_block_def)
  then show thesis using that d' by blast
qed

text \<open>
  The heap after \<open>sf_malloc(4000)\<close>, and after the block was freed and \<open>sf_malloc(4040)\<close> took the page, with
  the free lists for 32 and 4048 bytes left empty.
\<close>

definition demo_full :: mm where
  "demo_full = demo_start
     \<lparr>info := (\<lambda>_. free_info 0)
        (Row 5 := \<lparr>allocated = True, prev_allocated = True, block_size = 251, requested_size = 4000\<rparr>,
         Row 507 := free_info 2, Row 510 := free_info 2,
         Row 511 := \<lparr>allocated = True, prev_allocated = False, block_size = 0, requested_size = 0\<rparr>),
      lnext := (\<lambda>_. Row 0)(Head 1 := Row 507, Row 507 := Head 1), lprev := (\<lambda>_. Row 0)(Head 1 := Row 507, Row 507 := Head 1),
      nsize := (\<lambda>_. 0)(1 := 32), nnext := (\<lambda>_. 0)(0 := 1), nprev := (\<lambda>_. 0)(0 := 1), hend := 512, nodes_used := 1\<rparr>"

definition demo_spent :: mm where
  "demo_spent = demo_start
     \<lparr>info := (\<lambda>_. free_info 0)
        (Row 5 := \<lparr>allocated = True, prev_allocated = True, block_size = 253, requested_size = 4000\<rparr>,
         Row 511 := \<lparr>allocated = True, prev_allocated = True, block_size = 0, requested_size = 0\<rparr>),
      lnext := (\<lambda>_. Row 0)(Head 1 := Head 1, Head 2 := Head 2), lprev := (\<lambda>_. Row 0)(Head 1 := Head 1, Head 2 := Head 2),
      nsize := (\<lambda>_. 0)(1 := 32, 2 := 4048), nnext := (\<lambda>_. 0)(0 := 1, 1 := 2), nprev := (\<lambda>_. 0)(0 := 2, 2 := 1),
      hend := 512, nodes_used := 2\<rparr>"

lemma demo_full_ok: "nodes demo_full [1]" "heap_ok demo_full [(251, True), (2, False)]"
proof -
  show n: "nodes demo_full [1]" by (simp add: nodes_def ring_def demo_full_def demo_start_def)
  have r: "fl.rep demo_full (Head 1) (map Row [507])" by (simp add: fl.rep_def ring_def demo_full_def)
  have z: "nsize demo_full 1 = 32" by (simp add: demo_full_def)
  have "free_lists demo_full {(507, 2)}"
    unfolding free_lists_def by (rule exI [of _ "[1]"]) (use n r z in \<open>auto intro!: exI [of _ "[507]"]\<close>)
  then show "heap_ok demo_full [(251, True), (2, False)]"
    by (simp add: heap_ok_def blk_def epi_def) (simp add: demo_full_def)
qed

lemma demo_spent_ok: "nodes demo_spent [1, 2]" "heap_ok demo_spent [(253, True)]"
proof -
  show n: "nodes demo_spent [1, 2]" by (simp add: nodes_def ring_def demo_spent_def demo_start_def)
  have r: "fl.rep demo_spent (Head 1) (map Row [])" "fl.rep demo_spent (Head 2) (map Row [])"
    by (simp_all add: fl.rep_def ring_def demo_spent_def)
  have "free_lists demo_spent {}"
    unfolding free_lists_def by (rule exI [of _ "[1, 2]"]) (use n r in \<open>auto intro!: exI [of _ "[]"]\<close>)
  then show "heap_ok demo_spent [(253, True)]"
    by (simp add: heap_ok_def blk_def epi_def) (simp add: demo_spent_def)
qed

subsection \<open>Properties\<close>

text \<open>C1: freeing an allocated block of a well-formed heap succeeds: \<open>sf_free\<close> does not abort, the block
  joins the free blocks next to it on both sides, and the heap it leaves is well-formed again, with
  the joined block in the free list of its size.\<close>

theorem sf_free_correct:
  assumes "heap_ok s (xs @ (n, True) # ys)" "p = stop PROLOGUE_ROWS xs + 1" "add_ok sf_add_free_list" "\<not> add_fails sf_add_free_list"
  shows "\<exists>s'. sf_free sf_add_free_list (Some p) s = MRet s' \<and> heap_ok s' (free_block xs n ys)"
  using sf_free_blocks [OF assms] by blast

theorem sf_free_correct_witness:
  "\<exists>s. heap_ok s [(251, True), (2, False)] \<and> (\<exists>s'. sf_free demo_add (Some 6) s = MRet s' \<and> heap_ok s' [(253, False)])"
proof -
  obtain s where s: "heap_ok s [(251, True), (2, False)]" by (rule demo_heap)
  then show ?thesis
    using sf_free_correct [of s "[]" 251 "[(2, False)]" 6, OF _ _ demo_add_ok] by (auto simp: free_block_def)
qed

text \<open>Freeing a block twice is noticed only when the block before it is in use. When the block joined
  a free block before it, its old header is still marked allocated inside the joined block, and
  \<open>sf_abort\<close> accepts the pointer again, although \<open>sf_free\<close> is to abort on a pointer that is not valid.\<close>

theorem double_free_detection:
  assumes "heap_ok s (xs @ (n, True) # ys)" "p = stop PROLOGUE_ROWS xs + 1" "add_ok sf_add_free_list" "\<not> add_fails sf_add_free_list"
  shows "\<exists>s'. sf_free sf_add_free_list (Some p) s = MRet s' \<and> (sf_abort (Some p) s' \<longleftrightarrow> last_alloc True xs)"
proof -
  obtain s' where s': "sf_free sf_add_free_list (Some p) s = MRet s'" "heap_ok s' (free_block xs n ys)" "hend s' = hend s"
    "\<not> last_alloc True xs \<Longrightarrow> info s' (Row (p - 1)) = info s (Row (p - 1)) \<and> info s' (Row (p - 2)) = info s (Row (p - 2))"
    using sf_free_blocks [OF assms] by blast
  have "sf_abort (Some p) s'" if la: "last_alloc True xs"
  proof -
    obtain k zs where "free_block xs n ys = xs @ (k, False) # zs"
      by (cases "ys = [] \<or> snd (hd ys)") (auto simp: free_block_def la)
    then have "\<not> allocated (info s' (Row (p - 1)))" using s'(2) assms(2) by (simp add: heap_ok_def blk_def)
    then show ?thesis by (simp add: sf_abort_def Let_def)
  qed
  moreover have "\<not> sf_abort (Some p) s'" if "\<not> last_alloc True xs"
    using sf_abort_valid [OF assms(1,2)] s'(3) s'(4) [OF that]
    by (simp add: sf_abort_def Let_def numeral_2_eq_2 cong: if_cong)
  ultimately show ?thesis using s'(1) by blast
qed

theorem double_free_detection_witness:
  "\<exists>s. heap_ok s [(8, False), (8, True), (237, False)] \<and>
     (\<exists>s'. sf_free demo_add (Some 22) s = MRet s' \<and> \<not> sf_abort (Some 22) s')"
proof -
  obtain s where s: "heap_ok s [(8, False), (8, True), (237, False)]" by (rule demo_heap2)
  then show ?thesis
    using double_free_detection [of s "[(8, False)]" 8 "[(237, False)]" 22, OF _ _ demo_add_ok] by auto
qed

text \<open>C2: a request that some free block can satisfy is served from a free block of the smallest sufficient
  size. The block has at least the requested bytes after its header, starts at a multiple of 16, the
  other blocks stay as they are, and what is left of the free block, if it is 32 bytes or more,
  becomes a free block. The heap stays well-formed.\<close>

theorem malloc_best_fit:
  assumes "heap_ok s bs" "n \<noteq> 0" "unat n \<le> 2 ^ 31 - 24" "add_ok sf_add_free_list" "\<not> add_fails sf_add_free_list"
    and "(k0, False) \<in> set bs" "units (unat n) \<le> k0"
  shows "\<exists>xs k ys s' p. bs = xs @ (k, False) # ys \<and> units (unat n) \<le> k \<and>
    (\<forall>m. (m, False) \<in> set bs \<and> units (unat n) \<le> m \<longrightarrow> k \<le> m) \<and>
    p = stop PROLOGUE_ROWS xs + 1 \<and> p * 8 mod 16 = 0 \<and> unat n + 8 \<le> 16 * units (unat n) \<and>
    sf_malloc sf_add_free_list sf_mem_grow n s = MRet (Some p, None, s') \<and>
    heap_ok s' (alloc_block xs (units (unat n)) k ys) \<and> requested_size (info s' (Row (p - 1))) = unat n"
proof -
  obtain xs k ys s' where x: "bs = xs @ (k, False) # ys" "units (unat n) \<le> k"
    "\<forall>m. (m, False) \<in> set bs \<longrightarrow> units (unat n) \<le> m \<longrightarrow> k \<le> m"
    "sf_malloc sf_add_free_list sf_mem_grow n s = MRet (Some (stop PROLOGUE_ROWS xs + 1), None, s')"
    "heap_ok s' (alloc_block xs (units (unat n)) k ys)" "requested_size (info s' (Row (stop PROLOGUE_ROWS xs))) = unat n"
    by (rule sf_malloc_fit [OF assms])
  have "stop PROLOGUE_ROWS xs mod 2 = 1" using stop_parity [of PROLOGUE_ROWS xs] by simp
  then have "(stop PROLOGUE_ROWS xs + 1) * 8 mod 16 = 0" by presburger
  moreover have "unat n + 8 \<le> 16 * units (unat n)" by (rule units_bounds(2))
  moreover have "stop PROLOGUE_ROWS xs + 1 - 1 = stop PROLOGUE_ROWS xs" by simp
  ultimately show ?thesis using x by metis
qed

theorem malloc_best_fit_witness:
  "\<exists>s s' xs k ys p. heap_ok s [(8, False), (8, True), (237, False)] \<and> [(8, False), (8, True), (237, False)] = xs @ (k, False) # ys \<and>
     k \<le> 8 \<and> sf_malloc demo_add demo_grow 112 s = MRet (Some p, None, s') \<and> heap_ok s' (alloc_block xs 8 k ys)"
proof -
  have u: "unat (112 :: u64) = 112" "units 112 = 8" by (simp_all add: units_def)
  obtain s where s: "heap_ok s [(8, False), (8, True), (237, False)]" by (rule demo_heap2)
  have "(112 :: u64) \<noteq> 0" "112 \<le> (2 ^ 31 - 24 :: nat)" by simp_all
  from malloc_best_fit [OF s _ _ demo_add_ok, of 112 8 demo_grow, unfolded u, OF this]
  obtain xs k ys s' p where x: "[(8, False), (8, True), (237, False)] = xs @ (k, False) # ys"
    "\<forall>m. (m, False) \<in> set [(8, False), (8, True), (237, False)] \<and> 8 \<le> m \<longrightarrow> k \<le> m"
    "sf_malloc demo_add demo_grow 112 s = MRet (Some p, None, s')" "heap_ok s' (alloc_block xs 8 k ys)" by auto
  have "k \<le> 8" using x(2) by simp
  then show ?thesis using s x(1,3,4) by blast
qed

text \<open>The first request on an empty heap, of any size for which \<open>sf_mem_grow\<close> has pages, makes the
  prologue, the epilogue and one free block, grows it page by page while it is too small, and
  returns a block at the start of a well-formed heap.\<close>

theorem malloc_first:
  assumes "hend s = 0" "empty_lists s" "n \<noteq> 0" "unat n \<le> 2 ^ 31 - 24" "add_ok sf_add_free_list" "\<not> add_fails sf_add_free_list"
    and "grow_ok sf_mem_grow lim" "2 * units (unat n) + 517 \<le> lim" "lim \<le> 2 ^ 28"
  shows "\<exists>k s'. sf_malloc sf_add_free_list sf_mem_grow n s = MRet (Some (PROLOGUE_ROWS + 1), None, s') \<and>
    (k = 253 \<or> k < units (unat n) + 256) \<and> units (unat n) \<le> k \<and> heap_ok s' (alloc_block [] (units (unat n)) k [])"
  using sf_malloc_first [OF assms, of thesis for thesis] by blast

theorem malloc_first_witness:
  "\<exists>k s'. sf_malloc demo_add demo_grow 9000 demo_start = MRet (Some 6, None, s') \<and> (k = 253 \<or> k < 819) \<and> 563 \<le> k \<and>
     heap_ok s' (alloc_block [] 563 k [])"
proof -
  have u: "unat (9000 :: u64) = 9000" "units 9000 = 563" by (simp_all add: units_def)
  show ?thesis
    using malloc_first [OF demo_start_ok _ _ demo_add_ok demo_grow_ok, of 9000, unfolded u] by simp
qed

text \<open>When no free block is large enough but some free list is for blocks that are, the heap grows by a
  page, which joins a free block at the end, and the request is served from there if that is enough.\<close>

theorem malloc_grows:
  assumes "heap_ok s bs" "n \<noteq> 0" "unat n \<le> 2 ^ 31 - 24" "add_ok sf_add_free_list" "\<not> add_fails sf_add_free_list"
    and "grow_ok sf_mem_grow lim" "hend s + 512 \<le> lim" "lim \<le> 2 ^ 28" "\<forall>k. (k, False) \<in> set bs \<longrightarrow> k < units (unat n)"
    and "nodes s ns" "j \<in> set ns" "16 * units (unat n) \<le> nsize s j"
    and "tail_free bs = (xs, m)" "units (unat n) \<le> m + 256"
  shows "\<exists>s'. sf_malloc sf_add_free_list sf_mem_grow n s = MRet (Some (stop PROLOGUE_ROWS xs + 1), None, s') \<and>
    heap_ok s' (alloc_block xs (units (unat n)) (m + 256) [])"
  using sf_malloc_grow [OF assms, of thesis for thesis] by blast

theorem malloc_grows_witness:
  "\<exists>s'. sf_malloc demo_add demo_grow 4040 demo_spent = MRet (Some 512, None, s') \<and> heap_ok s' [(253, True), (253, True), (3, False)]"
proof -
  have u: "unat (4040 :: u64) = 4040" "units 4040 = 253" by (simp_all add: units_def)
  have z: "nsize demo_spent 2 = 4048" "hend demo_spent = 512" by (simp_all add: demo_spent_def)
  show ?thesis
    using malloc_grows [OF demo_spent_ok(2) _ _ demo_add_ok demo_grow_ok _ _ _ demo_spent_ok(1), of 4040 2 "[(253, True)]" 0, unfolded u]
    by (simp add: z tail_free_def alloc_block_def)
qed

text \<open>When every free list is for smaller blocks the search never assigns \<open>header\<close>, and
  \<open>sf_malloc\<close> goes on with an uninitialised pointer instead of growing the heap.\<close>

theorem malloc_uninitialised_header:
  assumes "heap_ok s bs" "n \<noteq> 0" "unat n \<le> 2 ^ 31 - 24" "nodes s ns" "\<forall>j\<in>set ns. nsize s j < 16 * units (unat n)"
  shows "sf_malloc sf_add_free_list sf_mem_grow n s = MUndef"
  using assms by (rule sf_malloc_no_list)

theorem malloc_uninitialised_header_witness:
  "heap_ok demo_full [(251, True), (2, False)] \<and> sf_malloc demo_add demo_grow 100 demo_full = MUndef"
proof -
  have u: "unat (100 :: u64) = 100" "units 100 = 7" by (simp_all add: units_def)
  show ?thesis
    using malloc_uninitialised_header [OF demo_full_ok(2) _ _ demo_full_ok(1), of 100, unfolded u] demo_full_ok(2)
    by (simp add: demo_full_def)
qed

text \<open>The size of a block is computed in an \<open>int\<close>: sizes that differ by a multiple of 4 GB get the same
  block, so a request of 4 GB is given 32 bytes.\<close>

theorem size_taken_modulo_4GB: "getNewSize (n + 2 ^ 32) = getNewSize n \<and> sint (getNewSize (2 ^ 32)) = 32"
proof -
  have z: "(ucast (2 ^ 32 :: u64) :: i32) = 0" by simp
  have "(ucast (8 + (n + 2 ^ 32)) :: i32) = ucast (8 + n)" unfolding ucast_plus_32 z by simp
  moreover have "(ucast (8 + 2 ^ 32 :: u64) :: i32) = 8" unfolding ucast_plus_32 z by simp
  ultimately show ?thesis by (simp only: getNewSize_def Let_def) simp
qed

text \<open>C23: reallocating a block to a smaller size keeps the block where it is: what is left over, if it is 32
  bytes or more, becomes a free block, joined with a free block after it, and the heap stays
  well-formed.\<close>

theorem realloc_shrinks:
  assumes "heap_ok s (xs @ (n, True) # ys)" "p = stop PROLOGUE_ROWS xs + 1" "add_ok sf_add_free_list" "\<not> add_fails sf_add_free_list"
    and "rsize \<noteq> 0" "unat rsize < requested_size (info s (Row (p - 1)))"
  shows "\<exists>s'. sf_realloc sf_add_free_list sf_mem_grow (Some p) rsize s = MRet (Some p, None, s') \<and>
    heap_ok s' (shrink_block xs (units (unat rsize)) n ys) \<and> requested_size (info s' (Row (p - 1))) = unat rsize"
  using sf_realloc_smaller [OF assms, of thesis for thesis] by blast

theorem realloc_shrinks_witness:
  "\<exists>s'. sf_realloc demo_add demo_grow (Some 6) 1000 demo_full = MRet (Some 6, None, s') \<and> heap_ok s' [(63, True), (190, False)]"
proof -
  have u: "unat (1000 :: u64) = 1000" "units 1000 = 63" by (simp_all add: units_def)
  have "requested_size (info demo_full (Row 5)) = 4000" by (simp add: demo_full_def)
  then show ?thesis
    using realloc_shrinks [of demo_full "[]" 251 "[(2, False)]" 6 demo_add 1000 demo_grow, unfolded u] demo_full_ok(2) demo_add_ok
    by (auto simp: shrink_block_def)
qed

text \<open>C24: reallocating a block to a larger size that some free block can hold moves it: a block for the new size
  is allocated as by \<open>sf_malloc\<close>, the old block is freed as by \<open>sf_free\<close>, and the heap stays well-formed.\<close>

theorem realloc_moves:
  assumes h: "heap_ok s (us @ (m, True) # vs)" and p: "p = stop PROLOGUE_ROWS us + 1"
    and ok: "add_ok sf_add_free_list" "\<not> add_fails sf_add_free_list"
    and n: "requested_size (info s (Row (p - 1))) < unat rsize" "unat rsize \<le> 2 ^ 31 - 24"
    and fit: "(k0, False) \<in> set (us @ (m, True) # vs)" "units (unat rsize) \<le> k0"
  shows "\<exists>xs k ys us' vs' s'. us @ (m, True) # vs = xs @ (k, False) # ys \<and>
    alloc_block xs (units (unat rsize)) k ys = us' @ (m, True) # vs' \<and>
    sf_realloc sf_add_free_list sf_mem_grow (Some p) rsize s = MRet (Some (stop PROLOGUE_ROWS xs + 1), None, s') \<and>
    heap_ok s' (free_block us' m vs')"
proof -
  have r: "rsize \<noteq> 0" using n(1) by auto
  obtain xs k ys s1 where x: "us @ (m, True) # vs = xs @ (k, False) # ys" "units (unat rsize) \<le> k"
    "sf_malloc sf_add_free_list sf_mem_grow rsize s = MRet (Some (stop PROLOGUE_ROWS xs + 1), None, s1)"
    "heap_ok s1 (alloc_block xs (units (unat rsize)) k ys)"
    by (rule sf_malloc_fit [OF h r n(2) ok fit])
  obtain us' vs' where u: "alloc_block xs (units (unat rsize)) k ys = us' @ (m, True) # vs'" "stop PROLOGUE_ROWS us' = stop PROLOGUE_ROWS us"
    by (rule alloc_block_other [OF x(1,2)])
  obtain s' where s': "sf_free sf_add_free_list (Some p) s1 = MRet s'" "heap_ok s' (free_block us' m vs')"
    using sf_free_blocks [of s1 us' m vs' p] x(4) u p ok by metis
  have "\<not> sf_abort (Some p) s" by (rule sf_abort_valid [OF h p])
  then have "sf_realloc sf_add_free_list sf_mem_grow (Some p) rsize s = MRet (Some (stop PROLOGUE_ROWS xs + 1), None, s')"
    using r n(1) x(3) s'(1) by (simp add: sf_realloc_def getPayloadHeader_def Let_def)
  then show ?thesis using x(1) u(1) s'(2) by blast
qed

theorem realloc_moves_witness:
  "\<exists>s s'. heap_ok s [(8, True), (245, False)] \<and> sf_realloc demo_add demo_grow (Some 6) 1000 s = MRet (Some 22, None, s') \<and>
     heap_ok s' [(8, False), (63, True), (182, False)]"
proof -
  have u: "unat (1000 :: u64) = 1000" "units 1000 = 63" by (simp_all add: units_def)
  obtain s where s: "heap_ok s [(8, True), (245, False)]" "requested_size (info s (Row 5)) = 112" by (rule demo_heap1)
  obtain xs k ys us vs s' where x: "[(8, True), (245, False)] = xs @ (k, False) # ys" "alloc_block xs 63 k ys = us @ (8, True) # vs"
    "sf_realloc demo_add demo_grow (Some 6) 1000 s = MRet (Some (stop PROLOGUE_ROWS xs + 1), None, s')" "heap_ok s' (free_block us 8 vs)"
    using realloc_moves [of s "[]" 8 "[(245, False)]" 6 demo_add 1000 245 demo_grow, unfolded u] s demo_add_ok by fastforce
  have xs: "xs = [(8, True)]" "k = 245" "ys = []" using x(1) by (auto simp: Cons_eq_append_conv)
  then have "us = [] \<and> vs = [(63, True), (182, False)]" using x(2) by (auto simp: alloc_block_def Cons_eq_append_conv)
  then show ?thesis using s(1) x(3,4) xs by (auto simp: free_block_def)
qed

text \<open>Reallocating a block to a larger size that no free block can hold, in a heap that can grow by enough, moves
  it to the end: the new block is allocated in the page that the heap grows by, joined with a free block before
  it, the old block is freed, and the heap stays well-formed.\<close>

theorem realloc_grows:
  assumes h: "heap_ok s (us @ (m, True) # vs)" and p: "p = stop PROLOGUE_ROWS us + 1"
    and ok: "add_ok sf_add_free_list" "\<not> add_fails sf_add_free_list"
    and n: "requested_size (info s (Row (p - 1))) < unat rsize" "unat rsize \<le> 2 ^ 31 - 24"
    and g: "grow_ok sf_mem_grow lim" "hend s + 512 \<le> lim" "lim \<le> 2 ^ 28"
    and nofit: "\<forall>k. (k, False) \<in> set (us @ (m, True) # vs) \<longrightarrow> k < units (unat rsize)"
    and ns: "nodes s ns" "j \<in> set ns" "16 * units (unat rsize) \<le> nsize s j"
    and t: "tail_free (us @ (m, True) # vs) = (xs, k)" "units (unat rsize) \<le> k + 256"
  shows "\<exists>ws s'. xs = us @ (m, True) # ws \<and>
    sf_realloc sf_add_free_list sf_mem_grow (Some p) rsize s = MRet (Some (stop PROLOGUE_ROWS xs + 1), None, s') \<and>
    (\<exists>vs'. alloc_block xs (units (unat rsize)) (k + 256) [] = us @ (m, True) # vs' \<and> heap_ok s' (free_block us m vs'))"
proof -
  have r: "rsize \<noteq> 0" using n(1) by auto
  obtain s1 where s1: "sf_malloc sf_add_free_list sf_mem_grow rsize s = MRet (Some (stop PROLOGUE_ROWS xs + 1), None, s1)"
    "heap_ok s1 (alloc_block xs (units (unat rsize)) (k + 256) [])"
    by (rule sf_malloc_grow [OF h r n(2) ok g nofit ns t])
  obtain ws where ws: "xs = us @ (m, True) # ws"
  proof (cases "last_alloc True vs")
    case True
    then have "xs = us @ (m, True) # vs" using t(1) by (simp add: tail_free_def)
    then show thesis by (rule that)
  next
    case False
    then obtain ws n where "vs = ws @ [(n, False)]" using last_alloc_snoc by blast
    then have "xs = us @ (m, True) # ws" using t(1) False by (simp add: tail_free_def butlast_append)
    then show thesis by (rule that)
  qed
  then obtain vs' where vs': "alloc_block xs (units (unat rsize)) (k + 256) [] = us @ (m, True) # vs'"
    by (auto simp: alloc_block_def)
  obtain s' where s': "sf_free sf_add_free_list (Some p) s1 = MRet s'" "heap_ok s' (free_block us m vs')"
    using sf_free_blocks [of s1 us m vs' p] s1(2) vs' p ok by metis
  have "\<not> sf_abort (Some p) s" by (rule sf_abort_valid [OF h p])
  then have "sf_realloc sf_add_free_list sf_mem_grow (Some p) rsize s = MRet (Some (stop PROLOGUE_ROWS xs + 1), None, s')"
    using r n(1) s1(1) s'(1) by (simp add: sf_realloc_def getPayloadHeader_def Let_def)
  then show ?thesis using ws vs' s'(2) by blast
qed

theorem realloc_grows_witness:
  "\<exists>s'. sf_realloc demo_add demo_grow (Some 6) 4040 demo_spent = MRet (Some 512, None, s') \<and>
     heap_ok s' [(253, False), (253, True), (3, False)]"
proof -
  have u: "unat (4040 :: u64) = 4040" "units 4040 = 253" by (simp_all add: units_def)
  have z: "nsize demo_spent 2 = 4048" "hend demo_spent = 512" "requested_size (info demo_spent (Row 5)) = 4000" by (simp_all add: demo_spent_def)
  have h: "heap_ok demo_spent ([] @ (253, True) # [])" using demo_spent_ok(2) by simp
  have t: "tail_free ([] @ (253, True) # []) = ([(253, True)], 0)" by (simp add: tail_free_def)
  obtain s' where "sf_realloc demo_add demo_grow (Some 6) 4040 demo_spent = MRet (Some 512, None, s')"
    "\<exists>vs'. alloc_block [(253, True)] 253 256 [] = [] @ (253, True) # vs' \<and> heap_ok s' (free_block [] 253 vs')"
    using realloc_grows [OF h _ demo_add_ok _ _ demo_grow_ok _ _ _ demo_spent_ok(1) _ _ t, of 6 4040 2, unfolded u] z by auto
  then show ?thesis by (auto simp: alloc_block_def free_block_def)
qed

subsection \<open>The demonstration program\<close>

text \<open>
  \<open>main\<close> of \<open>src/main.c\<close>, from the state that \<open>sf_mem_init\<close> leaves on: it writes a \<open>double\<close> through the pointer that
  \<open>sf_malloc\<close> returned without looking at it. The number that it prints is not modelled.
\<close>

definition mm_main :: "add_fn \<Rightarrow> grow_fn \<Rightarrow> mm \<Rightarrow> (int \<times> mm) mres" where
  "mm_main sf_add_free_list sf_mem_grow s =
     (case sf_malloc sf_add_free_list sf_mem_grow 8 s of
        MRet (None, _, s) \<Rightarrow> MUndef
      | MRet (Some ptr, _, s) \<Rightarrow>
          (case sf_free sf_add_free_list (Some ptr) s of MRet s \<Rightarrow> MRet (0, s) | MAbort \<Rightarrow> MAbort | MUndef \<Rightarrow> MUndef)
      | MAbort \<Rightarrow> MAbort | MUndef \<Rightarrow> MUndef)"

text \<open>On a fresh heap that can grow the program returns EXIT_SUCCESS, and the heap is one free block again.\<close>

theorem mm_main_returns:
  assumes "hend s = 0" "empty_lists s" "add_ok sf_add_free_list" "\<not> add_fails sf_add_free_list"
    and "grow_ok sf_mem_grow lim" "521 \<le> lim" "lim \<le> 2 ^ 28"
  shows "\<exists>k s'. mm_main sf_add_free_list sf_mem_grow s = MRet (0, s') \<and> heap_ok s' [(k, False)]"
proof -
  have u: "unat (8 :: u64) = 8" "units 8 = 2" by (simp_all add: units_def)
  obtain k s1 where m: "sf_malloc sf_add_free_list sf_mem_grow 8 s = MRet (Some (PROLOGUE_ROWS + 1), None, s1)"
      "2 \<le> k" "heap_ok s1 (alloc_block [] 2 k [])"
  proof (rule sf_malloc_first [OF assms(1,2) _ _ assms(3-5) _ assms(7), of 8, unfolded u])
    fix k s' assume "sf_malloc sf_add_free_list sf_mem_grow 8 s = MRet (Some (PROLOGUE_ROWS + 1), None, s')" "2 \<le> k"
      "heap_ok s' (alloc_block [] 2 k [])"
    then show thesis by (rule that)
  qed (use assms(6) in simp_all)
  obtain n ys where b: "alloc_block [] 2 k [] = [] @ (n, True) # ys" "free_block [] n ys = [(k, False)]"
  proof (cases "k - 2 < 2")
    case True
    then show thesis by (intro that [of k "[]"]) (simp_all add: alloc_block_def free_block_def)
  next
    case False
    then show thesis using m(2) by (intro that [of 2 "[(k - 2, False)]"]) (simp_all add: alloc_block_def free_block_def)
  qed
  obtain s2 where "sf_free sf_add_free_list (Some (PROLOGUE_ROWS + 1)) s1 = MRet s2" "heap_ok s2 [(k, False)]"
    by (rule sf_free_blocks [OF m(3) [unfolded b(1)] _ assms(3,4), of "PROLOGUE_ROWS + 1"]) (use b(2) in simp_all)
  then show ?thesis using m(1) by (auto simp: mm_main_def)
qed

theorem mm_main_returns_witness:
  "\<exists>k s. mm_main demo_add demo_grow demo_start = MRet (0, s) \<and> heap_ok s [(k, False)]"
  using mm_main_returns [OF demo_start_ok demo_add_ok demo_grow_ok] by simp

end
