(* ===== verification/Printer_Types.thy ===== *)
theory Printer_Types
  imports Prelude
begin

section \<open>Printer spooler: file types, conversions and conversion paths\<close>

text \<open>
  \<open>Printer/src/types.c\<close>, \<open>conversions.c\<close> and \<open>helpers.c\<close>. The arrays \<open>typeArray\<close>, \<open>printerArray\<close> and the
  \<open>conversions\<close> of a type are filled from the front and never shrink: each is the list of its entries
  before the first NULL. Strings are \<open>option\<close>s where the code passes a pointer that may be NULL;
  dereferencing NULL is \<open>Crash\<close>. Memory allocation is taken to succeed. Messages of \<open>messages.c\<close> are
  recorded in the order they are printed.
\<close>

abbreviation MAX_TYPES :: nat where "MAX_TYPES \<equiv> 31"
abbreviation MAX_CONVERSIONS :: nat where "MAX_CONVERSIONS \<equiv> 63"

record CONVERSION =
  c_type :: string
  program :: string
  args :: "string option"

record TYPE_t =
  t_type :: string
  conversions :: "CONVERSION list"

datatype 'a ptr_res = Val 'a | Crash

subsection \<open>Lookup in an array\<close>

text \<open>
  \<open>getType\<close>, \<open>getConversion\<close>, \<open>getPrinter\<close> and \<open>getJobByID\<close> all scan an array or list for the first entry
  with a key. The locale is that contract; the facts below are proved once for all four.
\<close>

locale first_match =
  fixes look :: "'k \<Rightarrow> 'a list \<Rightarrow> 'a option" and key :: "'a \<Rightarrow> 'k"
  assumes look_Nil [simp]: "look k [] = None"
    and look_Cons [simp]: "look k (x # xs) = (if k = key x then Some x else look k xs)"
begin

lemma look_None: "look k xs = None \<longleftrightarrow> k \<notin> key ` set xs"
  by (induction xs) auto

lemma look_append: "look k (xs @ ys) = (case look k xs of Some x \<Rightarrow> Some x | None \<Rightarrow> look k ys)"
  by (induction xs) auto

lemma look_Some: "look k xs = Some x \<Longrightarrow> x \<in> set xs \<and> key x = k"
  by (induction xs) (auto split: if_splits)

lemma look_index:
  "look k xs = Some x \<Longrightarrow> \<exists>i<length xs. xs ! i = x \<and> key x = k \<and> (\<forall>j<i. key (xs ! j) \<noteq> k)"
proof (induction xs)
  case (Cons y ys)
  show ?case
  proof (cases "k = key y")
    case True
    then show ?thesis using Cons.prems by (intro exI [of _ 0]) auto
  next
    case False
    then obtain i where i: "i < length ys" "ys ! i = x" "key x = k" "\<forall>j<i. key (ys ! j) \<noteq> k" using Cons by auto
    have "key ((y # ys) ! j) \<noteq> k" if "j < Suc i" for j using that i(4) False by (cases j) auto
    then show ?thesis using i by (intro exI [of _ "Suc i"]) auto
  qed
qed simp

lemma look_first: "i < length xs \<Longrightarrow> \<forall>l<i. key (xs ! l) \<noteq> key (xs ! i) \<Longrightarrow> look (key (xs ! i)) xs = Some (xs ! i)"
proof (induction xs arbitrary: i)
  case (Cons x xs)
  show ?case
  proof (cases i)
    case (Suc j)
    have ne: "key x \<noteq> key (xs ! j)" using Cons.prems(2) Suc by force
    have "\<forall>l<j. key (xs ! l) \<noteq> key (xs ! j)" using Cons.prems(2) Suc by (metis Suc_less_eq nth_Cons_Suc)
    then show ?thesis using Cons Suc ne by auto
  qed simp
qed simp

lemma look_distinct: "distinct (map key xs) \<Longrightarrow> x \<in> set xs \<Longrightarrow> look (key x) xs = Some x"
  by (induction xs) (auto, metis imageI)

lemma look_map: "(\<And>x. key (f x) = key x) \<Longrightarrow> look k (map f xs) = map_option f (look k xs)"
  by (induction xs) auto

end

subsection \<open>File types\<close>

fun getType_loop :: "string \<Rightarrow> TYPE_t list \<Rightarrow> TYPE_t option" where
  "getType_loop name [] = None"
| "getType_loop name (t # ts) = (if name = t_type t then Some t else getType_loop name ts)"

interpretation ty: first_match getType_loop t_type
  by unfold_locales simp_all

definition getType :: "string \<Rightarrow> TYPE_t list \<Rightarrow> TYPE_t option" where
  "getType name ts = getType_loop name ts"

text \<open>\<open>addType\<close>: the message, if any, and the array.\<close>

definition addType :: "TYPE_t \<Rightarrow> TYPE_t list \<Rightarrow> string list \<times> TYPE_t list" where
  "addType t ts =
     (if MAX_TYPES \<le> length ts then ([''Max types reached. Unable to add type.''], ts) else ([], ts @ [t]))"

definition newExtension :: "string option \<Rightarrow> TYPE_t list \<Rightarrow> string list \<times> TYPE_t list" where
  "newExtension name ts =
     (case name of None \<Rightarrow> ([], ts)
      | Some n \<Rightarrow>
          (let m = (if getType n ts \<noteq> None then [''Type already defined.''] else []);
               (m', ts') = addType \<lparr>t_type = n, conversions = []\<rparr> ts
           in (m @ m', ts')))"

subsection \<open>Conversions\<close>

fun getConversion_loop :: "string \<Rightarrow> CONVERSION list \<Rightarrow> CONVERSION option" where
  "getConversion_loop t [] = None"
| "getConversion_loop t (c # cs) = (if t = c_type c then Some c else getConversion_loop t cs)"

interpretation cv: first_match getConversion_loop c_type
  by unfold_locales simp_all

definition getConversion :: "string \<Rightarrow> string \<Rightarrow> TYPE_t list \<Rightarrow> CONVERSION option" where
  "getConversion t1 t2 ts = (case getType t1 ts of None \<Rightarrow> None | Some t \<Rightarrow> getConversion_loop t2 (conversions t))"

text \<open>\<open>addConversion\<close> stores into the first type of that name, the one \<open>getType\<close> finds.\<close>

fun addConversion :: "string \<Rightarrow> CONVERSION \<Rightarrow> TYPE_t list \<Rightarrow> string list \<times> TYPE_t list" where
  "addConversion n c [] = ([], [])"
| "addConversion n c (t # ts) =
     (if n = t_type t then
        (if MAX_CONVERSIONS \<le> length (conversions t)
         then ([''Max conversions reached. Unable to add conversion.''], t # ts)
         else ([], t\<lparr>conversions := conversions t @ [c]\<rparr> # ts))
      else (let (m, ts') = addConversion n c ts in (m, t # ts')))"

definition newConversion ::
  "string option \<Rightarrow> string option \<Rightarrow> string option \<Rightarrow> string option \<Rightarrow> TYPE_t list \<Rightarrow> string list \<times> TYPE_t list" where
  "newConversion type1 type2 prog as ts =
     (case (type1, type2, prog) of
        (Some t1, Some t2, Some p) \<Rightarrow>
          if getType t1 ts = None \<or> getType t2 ts = None then ([''file types are not defined.''], ts)
          else if getConversion t1 t2 ts \<noteq> None then ([''conversion for these files is already defined.''], ts)
          else addConversion t1 \<lparr>c_type = t2, program = p, args = as\<rparr> ts
      | _ \<Rightarrow> ([], ts))"

subsection \<open>Conversion paths\<close>

text \<open>
  \<open>getConversionPath\<close> and its loop over the conversions of a type, which counts \<open>loops\<close> down once per
  entry. \<open>Val None\<close> is the result NULL.
\<close>

function getConversionPath :: "TYPE_t list \<Rightarrow> string \<Rightarrow> string \<Rightarrow> int \<Rightarrow> CONVERSION list option ptr_res"
  and path_loop :: "TYPE_t list \<Rightarrow> CONVERSION list \<Rightarrow> string \<Rightarrow> int \<Rightarrow> CONVERSION list option ptr_res" where
  "getConversionPath ts fileType printerType loops =
     (case getType fileType ts of
        None \<Rightarrow> Crash
      | Some t \<Rightarrow>
          if conversions t = [] \<or> fileType = printerType \<or> loops \<le> 0 then Val None
          else (case getConversion fileType printerType ts of
                  Some c \<Rightarrow> Val (Some [c])
                | None \<Rightarrow> path_loop ts (conversions t) printerType loops))"
| "path_loop ts [] printerType loops = Val None"
| "path_loop ts (c # cs) printerType loops =
     (case getConversionPath ts (c_type c) printerType (loops - 1) of
        Crash \<Rightarrow> Crash
      | Val (Some path) \<Rightarrow> Val (Some (c # path))
      | Val None \<Rightarrow> path_loop ts cs printerType (loops - 1))"
  by pat_completeness auto

termination
  by (relation "inv_image (less_than <*lex*> less_than <*lex*> less_than)
      (\<lambda>x. case x of Inl (ts, f, p, l) \<Rightarrow> (nat l, if l \<le> 0 then 0 else 2, 0)
           | Inr (ts, cs, p, l) \<Rightarrow> (nat l, 1, length cs))")
    auto

text \<open>The argument vector of a conversion program: the program, then its arguments split at spaces.\<close>

text \<open>\<open>strtok\<close>: skips delimiters, takes a token, and keeps what follows the delimiter that ends it.\<close>

definition strtok :: "char list \<Rightarrow> string \<Rightarrow> string option \<times> string" where
  "strtok delims s =
     (let r = dropWhile (\<lambda>c. c \<in> set delims) s
      in if r = [] then (None, [])
         else (Some (takeWhile (\<lambda>c. c \<notin> set delims) r), drop 1 (dropWhile (\<lambda>c. c \<notin> set delims) r)))"

lemma strtok_shorter: "strtok d s = (Some t, r) \<Longrightarrow> length r < length s"
  using length_dropWhile_le [of "\<lambda>c. c \<in> set d" s]
    length_dropWhile_le [of "\<lambda>c. c \<notin> set d" "dropWhile (\<lambda>c. c \<in> set d) s"]
  by (cases "dropWhile (\<lambda>c. c \<in> set d) s") (auto simp: strtok_def Let_def split: if_splits)

function strtok_all :: "char list \<Rightarrow> string \<Rightarrow> string list" where
  "strtok_all d s = (case strtok d s of (None, r) \<Rightarrow> [] | (Some t, r) \<Rightarrow> t # strtok_all d r)"
  by pat_completeness auto

termination
  by (relation "measure (\<lambda>(d, s). length s)") (auto intro: strtok_shorter [OF sym])

declare strtok_all.simps [simp del]

definition getConversionArgs :: "CONVERSION \<Rightarrow> string list" where
  "getConversionArgs c = program c # (case args c of None \<Rightarrow> [] | Some a \<Rightarrow> strtok_all '' '' a)"

definition getPrinterArgs :: "string list" where
  "getPrinterArgs = [''/bin/cat'']"

subsection \<open>Well-formed type tables\<close>

definition types_ok :: "TYPE_t list \<Rightarrow> bool" where
  "types_ok ts \<longleftrightarrow>
     length ts \<le> MAX_TYPES \<and>
     (\<forall>t\<in>set ts. length (conversions t) \<le> MAX_CONVERSIONS \<and> distinct (map c_type (conversions t)) \<and>
        (\<forall>c\<in>set (conversions t). getType (c_type c) ts \<noteq> None))"

lemma getType_defined: "getType n ts \<noteq> None \<longleftrightarrow> n \<in> t_type ` set ts"
  using ty.look_None [of n ts] by (auto simp: getType_def)

lemma addConversion_types:
  "map t_type (snd (addConversion n c ts)) = map t_type ts"
  by (induction n c ts rule: addConversion.induct) (auto split: prod.splits)

lemma addConversion_conversions:
  "t \<in> set (snd (addConversion n c ts)) \<Longrightarrow>
     t \<in> set ts \<or> (\<exists>u. getType n ts = Some u \<and> t = u\<lparr>conversions := conversions u @ [c]\<rparr> \<and> length (conversions u) < MAX_CONVERSIONS)"
  by (induction n c ts rule: addConversion.induct) (auto simp: getType_def split: if_splits prod.splits)

lemma newExtension_ok: "types_ok ts \<Longrightarrow> types_ok (snd (newExtension n ts))"
  by (fastforce simp: types_ok_def newExtension_def addType_def getType_def ty.look_append split: option.splits)

lemma newConversion_ok:
  assumes ok: "types_ok ts"
  shows "types_ok (snd (newConversion a b p as ts))"
proof (cases "\<exists>t1 t2 q. a = Some t1 \<and> b = Some t2 \<and> p = Some q \<and> getType t1 ts \<noteq> None \<and> getType t2 ts \<noteq> None \<and> getConversion t1 t2 ts = None")
  case False
  then have "snd (newConversion a b p as ts) = ts" by (auto simp: newConversion_def split: option.splits)
  then show ?thesis using ok by simp
next
  case True
  then obtain t1 t2 q where t: "a = Some t1" "b = Some t2" "p = Some q" "getType t1 ts \<noteq> None" "getType t2 ts \<noteq> None" "getConversion t1 t2 ts = None"
    by blast
  define c where "c = \<lparr>c_type = t2, program = q, args = as\<rparr>"
  define us where "us = snd (addConversion t1 c ts)"
  have u: "snd (newConversion a b p as ts) = us" using t by (auto simp: newConversion_def us_def c_def)
  have names: "map t_type us = map t_type ts" unfolding us_def by (rule addConversion_types)
  then have def: "getType n us \<noteq> None \<longleftrightarrow> getType n ts \<noteq> None" for n
    unfolding getType_defined by (metis set_map)
  have len: "length us = length ts" using names by (metis length_map)
  have "length (conversions x) \<le> MAX_CONVERSIONS \<and> distinct (map c_type (conversions x)) \<and>
      (\<forall>d\<in>set (conversions x). getType (c_type d) us \<noteq> None)" if x: "x \<in> set us" for x
  proof (cases "x \<in> set ts")
    case True
    then show ?thesis using ok def by (auto simp: types_ok_def)
  next
    case False
    then obtain y where y: "getType t1 ts = Some y" "x = y\<lparr>conversions := conversions y @ [c]\<rparr>" "length (conversions y) < MAX_CONVERSIONS"
      using addConversion_conversions x us_def by blast
    have "y \<in> set ts" using y(1) ty.look_Some by (auto simp: getType_def)
    moreover have "t2 \<notin> c_type ` set (conversions y)" using t(6) y(1) cv.look_None by (auto simp: getConversion_def)
    ultimately show ?thesis using y(2,3) ok def t(5) by (auto simp: types_ok_def c_def)
  qed
  then show ?thesis using ok len unfolding u types_ok_def by simp
qed

subsection \<open>What a conversion path is\<close>

fun route :: "TYPE_t list \<Rightarrow> string \<Rightarrow> CONVERSION list \<Rightarrow> string \<Rightarrow> bool" where
  "route ts a [] b \<longleftrightarrow> a = b"
| "route ts a (c # cs) b \<longleftrightarrow>
     (case getType a ts of None \<Rightarrow> False | Some t \<Rightarrow> c \<in> set (conversions t)) \<and> route ts (c_type c) cs b"

lemma path_sound_both:
  "getConversionPath ts f p l = Val (Some cs) \<Longrightarrow> route ts f cs p \<and> cs \<noteq> [] \<and> int (length cs) \<le> l"
  "path_loop ts xs p l = Val (Some cs) \<Longrightarrow>
     \<exists>c ds. cs = c # ds \<and> c \<in> set xs \<and> route ts (c_type c) ds p \<and> int (length cs) \<le> l"
proof (induction ts f p l and ts xs p l arbitrary: cs and cs rule: getConversionPath_path_loop.induct)
  case (1 ts f p l)
  from "1.prems" show ?case
    using "1.IH" cv.look_Some [of p]
    by (auto simp: getConversion_def split: option.splits if_splits)
      (fastforce split: option.splits)+
next
  case (3 ts c cs p l)
  then show ?case by (auto split: ptr_res.splits option.splits) force+
qed simp

lemma path_defined_both:
  "types_ok ts \<Longrightarrow> getType f ts \<noteq> None \<Longrightarrow> getConversionPath ts f p l \<noteq> Crash"
  "types_ok ts \<Longrightarrow> \<forall>c\<in>set xs. getType (c_type c) ts \<noteq> None \<Longrightarrow> path_loop ts xs p l \<noteq> Crash"
proof (induction ts f p l and ts xs p l rule: getConversionPath_path_loop.induct)
  case (1 ts f p l)
  obtain t where t: "getType f ts = Some t" using "1.prems" by blast
  then have "t \<in> set ts" using ty.look_Some by (auto simp: getType_def)
  then show ?case using "1.IH" [OF t] "1.prems"(1) t by (auto simp: types_ok_def split: option.splits)
qed (auto split: ptr_res.splits option.splits)

declare getConversionPath.simps [simp del]

text \<open>
  The counter goes down by one for every conversion tried at a type, so a route costs, for each step
  but the last, the position of its conversion plus one.
\<close>

fun pos :: "'a \<Rightarrow> 'a list \<Rightarrow> nat" where
  "pos c [] = 0"
| "pos c (x # xs) = (if c = x then 0 else Suc (pos c xs))"

fun cost :: "TYPE_t list \<Rightarrow> string \<Rightarrow> CONVERSION list \<Rightarrow> nat" where
  "cost ts a [] = 0"
| "cost ts a [c] = 1"
| "cost ts a (c # d # cs) =
     (case getType a ts of None \<Rightarrow> 0 | Some t \<Rightarrow> pos c (conversions t) + 1) + cost ts (c_type c) (d # cs)"

lemma path_loop_finds:
  assumes ok: "types_ok ts" "\<forall>c\<in>set xs. getType (c_type c) ts \<noteq> None"
    and c: "c \<in> set xs" "getConversionPath ts (c_type c) p (l - int (pos c xs) - 1) = Val (Some q)"
  shows "\<exists>r. path_loop ts xs p l = Val (Some r)"
  using ok(2) c
proof (induction xs arbitrary: l)
  case (Cons x xs)
  show ?case
  proof (cases "c = x")
    case True
    then show ?thesis using Cons.prems by simp
  next
    case False
    have nc: "getConversionPath ts (c_type x) p (l - 1) \<noteq> Crash"
      using path_defined_both(1) [OF ok(1)] Cons.prems(1) by simp
    have e: "l - int (pos c (x # xs)) - 1 = l - 1 - int (pos c xs) - 1" using False by simp
    have "\<exists>r. path_loop ts xs p (l - 1) = Val (Some r)"
      by (rule Cons.IH) (use Cons.prems False in \<open>simp_all only: e, auto\<close>)
    then show ?thesis using nc by (auto split: ptr_res.splits option.splits)
  qed
qed simp

lemma path_complete:
  assumes ok: "types_ok ts"
  shows "route ts a cs b \<Longrightarrow> cs \<noteq> [] \<Longrightarrow> a \<noteq> b \<Longrightarrow> \<forall>c\<in>set (butlast cs). c_type c \<noteq> b \<Longrightarrow> int (cost ts a cs) \<le> l \<Longrightarrow>
    \<exists>r. getConversionPath ts a b l = Val (Some r)"
proof (induction cs arbitrary: a l)
  case (Cons c cs)
  obtain t where t: "getType a ts = Some t" "c \<in> set (conversions t)" using Cons.prems(1) by (auto split: option.splits)
  have tin: "t \<in> set ts" using t(1) ty.look_Some by (auto simp: getType_def)
  have pos: "0 < l" using Cons.prems(5) t(1) by (cases cs) auto
  show ?case
  proof (cases "getConversion a b ts")
    case None
    have ne: "cs \<noteq> []"
    proof
      assume "cs = []"
      then have "c_type c = b" using Cons.prems(1) by simp
      then show False using None t cv.look_None by (auto simp: getConversion_def)
    qed
    then obtain d ds where ds: "cs = d # ds" by (cases cs) auto
    have "\<exists>r. getConversionPath ts (c_type c) b (l - int (pos c (conversions t)) - 1) = Val (Some r)"
      using Cons.prems ne ds t(1) by (intro Cons.IH) auto
    then have "\<exists>r. path_loop ts (conversions t) b l = Val (Some r)"
      using path_loop_finds [OF ok _ t(2)] ok tin by (auto simp: types_ok_def)
    then show ?thesis using t pos None Cons.prems(3) by (subst getConversionPath.simps) auto
  next
    case (Some d)
    then show ?thesis using t pos Cons.prems(3) by (subst getConversionPath.simps) auto
  qed
qed simp

subsection \<open>Properties\<close>

text \<open>C12: a conversion path that \<open>getConversionPath\<close> finds is a chain of declared conversions from the file's
  type to the printer's type, no longer than the bound, on any type table that \<open>type\<close> and \<open>conversion\<close>
  commands can build; and on such a table the search ends without dereferencing NULL.\<close>

theorem conversion_path_sound:
  assumes "types_ok ts" "getType fileType ts \<noteq> None"
  shows "case getConversionPath ts fileType printerType loops of
      Crash \<Rightarrow> False
    | Val None \<Rightarrow> True
    | Val (Some cs) \<Rightarrow> cs \<noteq> [] \<and> route ts fileType cs printerType \<and> int (length cs) \<le> loops"
  using path_defined_both(1) [OF assms] path_sound_both(1)
  by (auto split: ptr_res.splits option.splits)

definition demo_types :: "TYPE_t list" where
  "demo_types = snd (newConversion (Some ''txt'') (Some ''ps'') (Some ''t2p'') None
     (snd (newConversion (Some ''ps'') (Some ''pdf'') (Some ''p2p'') (Some ''-o x'')
       (snd (newExtension (Some ''pdf'') (snd (newExtension (Some ''ps'') (snd (newExtension (Some ''txt'') []))))))))) "

lemma demo_types_ok: "types_ok demo_types"
  unfolding demo_types_def by (intro newConversion_ok newExtension_ok) (simp add: types_ok_def)

theorem conversion_path_sound_witness:
  "types_ok demo_types \<and>
   getConversionPath demo_types ''txt'' ''pdf'' 63 = Val (Some [\<lparr>c_type = ''ps'', program = ''t2p'', args = None\<rparr>,
     \<lparr>c_type = ''pdf'', program = ''p2p'', args = Some ''-o x''\<rparr>]) \<and>
   route demo_types ''txt'' [\<lparr>c_type = ''ps'', program = ''t2p'', args = None\<rparr>,
     \<lparr>c_type = ''pdf'', program = ''p2p'', args = Some ''-o x''\<rparr>] ''pdf''"
proof -
  have g: "getType ''txt'' demo_types \<noteq> None" by code_simp
  have "getConversionPath demo_types ''txt'' ''pdf'' 63 = Val (Some [\<lparr>c_type = ''ps'', program = ''t2p'', args = None\<rparr>,
     \<lparr>c_type = ''pdf'', program = ''p2p'', args = Some ''-o x''\<rparr>])" by code_simp
  then show ?thesis
    using conversion_path_sound [OF demo_types_ok g, of "''pdf''" 63] demo_types_ok by simp
qed

text \<open>C26: the search finds a path whenever there is a route whose cost is within the bound, where a step costs
  the position of its conversion among those of its type plus one; so a route of one or two
  conversions from types with few conversions is always found with the bound of 63.\<close>

theorem conversion_path_complete:
  assumes "types_ok ts" "route ts fileType cs printerType" "fileType \<noteq> printerType"
    and "\<forall>c\<in>set (butlast cs). c_type c \<noteq> printerType" "int (cost ts fileType cs) \<le> loops"
  shows "\<exists>path. getConversionPath ts fileType printerType loops = Val (Some path)"
proof -
  have "cs \<noteq> []" using assms(2,3) by auto
  then show ?thesis using path_complete [OF assms(1,2) _ assms(3-5)] by simp
qed

theorem conversion_path_complete_witness:
  "\<exists>path. getConversionPath demo_types ''txt'' ''pdf'' 63 = Val (Some path)"
proof -
  let ?cs = "[\<lparr>c_type = ''ps'', program = ''t2p'', args = None\<rparr>, \<lparr>c_type = ''pdf'', program = ''p2p'', args = Some ''-o x''\<rparr>]"
  have "route demo_types ''txt'' ?cs ''pdf''" by code_simp
  moreover have "cost demo_types ''txt'' ?cs = 2" by code_simp
  ultimately show ?thesis by (intro conversion_path_complete [OF demo_types_ok, of _ ?cs]) simp_all
qed

end
