(* ===== verification/Printer_Spool.thy ===== *)
theory Printer_Spool
  imports Printer_Types
begin

unbundle bit_operations_syntax

section \<open>Printer spooler: printers and jobs\<close>

text \<open>
  \<open>Printer/src/printers.c\<close>, \<open>jobs.c\<close> and \<open>helpers.c\<close>. The state holds the tables, the list of jobs, the
  clock that \<open>gettimeofday\<close> reads, the results that the next calls of \<open>fork\<close> give the parent, and the
  messages and signals sent so far. A pointer to a printer is its position in \<open>printerArray\<close>, which is
  its \<open>id\<close>; a pointer to a job is its position in the job list. An operation returns, exits the
  program, or dereferences NULL.
\<close>

abbreviation MAX_PRINTERS :: nat where "MAX_PRINTERS \<equiv> 32"
abbreviation ANY_PRINTER :: u32 where "ANY_PRINTER \<equiv> 0xffffffff"

record PRINTER =
  p_id :: nat
  p_name :: string
  p_type :: string
  enabled :: int
  busy :: int

datatype JOB_STATUS = QUEUED | RUNNING | PAUSED | COMPLETED | ABORTED

record JOB =
  jobid :: int
  status :: JOB_STATUS
  pgid :: int
  file_name :: string
  file_type :: string
  eligible_printers :: u32
  chosen_printer :: "nat option"
  creation_time :: int
  change_time :: int

datatype signal = SIGTSTP | SIGCONT | SIGTERM

datatype event = ErrorMsg string | PrinterMsg PRINTER | JobMsg JOB | Killpg int signal | Batch string | Usage "string list"
  | Started int string "CONVERSION list option ptr_res"

record imp =
  types :: "TYPE_t list"
  printers :: "PRINTER list"
  jobs :: "JOB list"
  job_index :: int
  clock :: int
  forks :: "int list"
  out :: "event list"

datatype 'a ires = IRet 'a imp | IExit int | ICrash

definition say :: "event \<Rightarrow> imp \<Rightarrow> imp" where
  "say e s = s\<lparr>out := out s @ [e]\<rparr>"

definition errorMessage :: "string \<Rightarrow> imp \<Rightarrow> imp" where
  "errorMessage m = say (ErrorMsg m)"

definition printerMessage :: "nat \<Rightarrow> imp \<Rightarrow> imp" where
  "printerMessage i s = say (PrinterMsg (printers s ! i)) s"

definition jobMessage :: "nat \<Rightarrow> imp \<Rightarrow> imp" where
  "jobMessage k s = say (JobMsg (jobs s ! k)) s"

abbreviation upd_printer :: "nat \<Rightarrow> (PRINTER \<Rightarrow> PRINTER) \<Rightarrow> imp \<Rightarrow> imp" where
  "upd_printer i f s \<equiv> s\<lparr>printers := (printers s)[i := f (printers s ! i)]\<rparr>"

abbreviation upd_job :: "nat \<Rightarrow> (JOB \<Rightarrow> JOB) \<Rightarrow> imp \<Rightarrow> imp" where
  "upd_job k f s \<equiv> s\<lparr>jobs := (jobs s)[k := f (jobs s ! k)]\<rparr>"

subsection \<open>Printers\<close>

fun getPrinter_loop :: "string \<Rightarrow> PRINTER list \<Rightarrow> PRINTER option" where
  "getPrinter_loop n [] = None"
| "getPrinter_loop n (p # ps) = (if n = p_name p then Some p else getPrinter_loop n ps)"

interpretation pr: first_match getPrinter_loop p_name
  by unfold_locales simp_all

definition getPrinter :: "string \<Rightarrow> imp \<Rightarrow> PRINTER option" where
  "getPrinter n s = getPrinter_loop n (printers s)"

definition addPrinter :: "PRINTER \<Rightarrow> imp \<Rightarrow> imp" where
  "addPrinter p s = s\<lparr>printers := printers s @ [p]\<rparr>"

text \<open>The position of the new printer, or \<open>None\<close> for NULL. The static \<open>index\<close> is the number of printers.\<close>

definition newPrinter :: "string option \<Rightarrow> string option \<Rightarrow> imp \<Rightarrow> nat option \<times> imp" where
  "newPrinter name type s =
     (case (name, type) of
        (Some n, Some t) \<Rightarrow>
          if getType t (types s) = None then (None, errorMessage ''File type is not defined.'' s)
          else if MAX_PRINTERS \<le> length (printers s) then (None, errorMessage ''Max printers reached. Unable to add printer.'' s)
          else (Some (length (printers s)),
                addPrinter \<lparr>p_id = length (printers s), p_name = n, p_type = t, enabled = 0, busy = 0\<rparr> s)
      | _ \<Rightarrow> (None, s))"

definition disablePrinter :: "string \<Rightarrow> imp \<Rightarrow> imp" where
  "disablePrinter n s =
     (case getPrinter n s of
        None \<Rightarrow> errorMessage ''No printer with that name exists.'' s
      | Some p \<Rightarrow>
          if enabled p = 0 then errorMessage ''Printer is already disabled.'' s
          else printerMessage (p_id p) (upd_printer (p_id p) (\<lambda>p. p\<lparr>enabled := 0\<rparr>) s))"

definition enablePrinter :: "string \<Rightarrow> imp \<Rightarrow> imp" where
  "enablePrinter n s =
     (case getPrinter n s of
        None \<Rightarrow> errorMessage ''No printer with that name exists.'' s
      | Some p \<Rightarrow>
          if enabled p > 0 then errorMessage ''Printer is already enabled.'' s
          else printerMessage (p_id p) (upd_printer (p_id p) (\<lambda>p. p\<lparr>enabled := 1\<rparr>) s))"

definition busyPrinter :: "string \<Rightarrow> imp \<Rightarrow> imp" where
  "busyPrinter n s =
     (case getPrinter n s of
        None \<Rightarrow> errorMessage ''No printer with that name exists.'' s
      | Some p \<Rightarrow> printerMessage (p_id p) (upd_printer (p_id p) (\<lambda>p. p\<lparr>busy := 1\<rparr>) s))"

definition freePrinter :: "string \<Rightarrow> imp \<Rightarrow> imp" where
  "freePrinter n s =
     (case getPrinter n s of
        None \<Rightarrow> errorMessage ''No printer with that name exists.'' s
      | Some p \<Rightarrow> printerMessage (p_id p) (upd_printer (p_id p) (\<lambda>p. p\<lparr>busy := 0\<rparr>) s))"

text \<open>The set of the named printers; 0, after a message, when one does not exist.\<close>

fun set_loop :: "string list \<Rightarrow> u32 \<Rightarrow> imp \<Rightarrow> u32 \<times> imp" where
  "set_loop [] acc s = (acc, s)"
| "set_loop (n # ns) acc s =
     (case getPrinter n s of
        None \<Rightarrow> (0, errorMessage (''Printer '' @ n @ '' is not defined.'') s)
      | Some p \<Rightarrow> set_loop ns (acc OR push_bit (p_id p) 1) s)"

definition getPrinterSet :: "string option \<Rightarrow> imp \<Rightarrow> u32 \<times> imp" where
  "getPrinterSet ps s = (case ps of None \<Rightarrow> (ANY_PRINTER, s) | Some l \<Rightarrow> set_loop (strtok_all '' '' l) 0 s)"

subsection \<open>Choosing a printer\<close>

definition usable :: "JOB \<Rightarrow> PRINTER \<Rightarrow> bool" where
  "usable j p \<longleftrightarrow> enabled p \<noteq> 0 \<and> eligible_printers j AND push_bit (p_id p) 1 \<noteq> 0"

fun free_loop :: "JOB \<Rightarrow> string \<Rightarrow> PRINTER list \<Rightarrow> PRINTER option" where
  "free_loop j t [] = None"
| "free_loop j t (p # ps) = (if usable j p \<and> busy p = 0 \<and> p_type p = t then Some p else free_loop j t ps)"

fun convert_loop :: "TYPE_t list \<Rightarrow> JOB \<Rightarrow> string \<Rightarrow> PRINTER list \<Rightarrow> PRINTER option ptr_res" where
  "convert_loop ts j t [] = Val None"
| "convert_loop ts j t (p # ps) =
     (if usable j p then
        (case getConversionPath ts t (p_type p) (int MAX_CONVERSIONS) of
           Crash \<Rightarrow> Crash | Val (Some _) \<Rightarrow> Val (Some p) | Val None \<Rightarrow> convert_loop ts j t ps)
      else convert_loop ts j t ps)"

fun same_loop :: "JOB \<Rightarrow> string \<Rightarrow> PRINTER list \<Rightarrow> PRINTER option" where
  "same_loop j t [] = None"
| "same_loop j t (p # ps) = (if usable j p \<and> p_type p = t then Some p else same_loop j t ps)"

definition getEligiblePrinter :: "JOB \<Rightarrow> imp \<Rightarrow> PRINTER option ires" where
  "getEligiblePrinter j s =
     (case getType (file_type j) (types s) of
        None \<Rightarrow> IRet None (errorMessage ''File type of job is not supported.'' s)
      | Some t \<Rightarrow>
          (case free_loop j (t_type t) (printers s) of
             Some p \<Rightarrow> IRet (Some p) s
           | None \<Rightarrow>
               (case convert_loop (types s) j (t_type t) (printers s) of
                  Crash \<Rightarrow> ICrash
                | Val (Some p) \<Rightarrow> IRet (Some p) s
                | Val None \<Rightarrow> IRet (same_loop j (t_type t) (printers s)) s)))"

subsection \<open>Jobs\<close>

fun getJobByID_loop :: "int \<Rightarrow> JOB list \<Rightarrow> JOB option" where
  "getJobByID_loop i [] = None"
| "getJobByID_loop i (j # js) = (if i = jobid j then Some j else getJobByID_loop i js)"

interpretation ji: first_match getJobByID_loop jobid
  by unfold_locales simp_all

definition getJobByID :: "int \<Rightarrow> imp \<Rightarrow> JOB option" where
  "getJobByID i s = getJobByID_loop i (jobs s)"

text \<open>\<open>getJobByPID\<close>: the position of the first job with the process group.\<close>

fun getJobByPID_loop :: "int \<Rightarrow> JOB list \<Rightarrow> nat option" where
  "getJobByPID_loop pid [] = None"
| "getJobByPID_loop pid (j # js) = (if pid = pgid j then Some 0 else map_option Suc (getJobByPID_loop pid js))"

definition getJobByPID :: "int \<Rightarrow> imp \<Rightarrow> nat option" where
  "getJobByPID pid s = getJobByPID_loop pid (jobs s)"

definition addJob :: "JOB \<Rightarrow> imp \<Rightarrow> nat \<times> imp" where
  "addJob j s = (length (jobs s), s\<lparr>jobs := jobs s @ [j]\<rparr>)"

definition newJob :: "string \<Rightarrow> string \<Rightarrow> int \<Rightarrow> u32 \<Rightarrow> imp \<Rightarrow> nat option \<times> imp" where
  "newJob name type pg pset s =
     (if pset = 0 then (None, s)
      else
        (let j = \<lparr>jobid = job_index s, status = QUEUED, pgid = pg, file_name = name, file_type = type,
                   eligible_printers = pset, chosen_printer = None, creation_time = clock s, change_time = clock s\<rparr>;
             (k, s) = addJob j (s\<lparr>job_index := job_index s + 1\<rparr>)
         in (Some k, s)))"

fun removeJob :: "int \<Rightarrow> JOB list \<Rightarrow> JOB list" where
  "removeJob i [] = []"
| "removeJob i (j # js) = (if jobid j = i then js else j # removeJob i js)"

text \<open>
  A removed node keeps its \<open>next\<close>, so the loop of \<open>removeJobs\<close> visits the jobs of the list it began with.
\<close>

fun removeJobs_loop :: "JOB list \<Rightarrow> int \<Rightarrow> JOB list \<Rightarrow> JOB list" where
  "removeJobs_loop [] now js = js"
| "removeJobs_loop (j # rest) now js =
     removeJobs_loop rest now
       (if (status j = COMPLETED \<or> status j = ABORTED) \<and> now - change_time j \<ge> 60 then removeJob (jobid j) js else js)"

definition removeJobs :: "imp \<Rightarrow> imp" where
  "removeJobs s = s\<lparr>jobs := removeJobs_loop (jobs s) (clock s) (jobs s)\<rparr>"

definition getFile :: "JOB \<Rightarrow> string" where
  "getFile j = file_name j @ ''.'' @ file_type j"

subsection \<open>Status changes\<close>

definition set_status :: "nat \<Rightarrow> JOB_STATUS \<Rightarrow> imp \<Rightarrow> imp" where
  "set_status k st s = upd_job k (\<lambda>j. j\<lparr>status := st, change_time := clock s\<rparr>) s"

definition pauseJob :: "nat \<Rightarrow> imp \<Rightarrow> imp" where
  "pauseJob k s =
     (if status (jobs s ! k) = RUNNING then jobMessage k (set_status k PAUSED s)
      else errorMessage ''This job is not running.'' s)"

definition resumeJob :: "nat \<Rightarrow> imp \<Rightarrow> imp" where
  "resumeJob k s =
     (if status (jobs s ! k) = PAUSED then jobMessage k (set_status k RUNNING s)
      else errorMessage ''This job is not paused.'' s)"

definition completeJob :: "nat \<Rightarrow> imp \<Rightarrow> imp" where
  "completeJob k s =
     (if status (jobs s ! k) = RUNNING then jobMessage k (set_status k COMPLETED s)
      else errorMessage ''This job is not running.'' s)"

definition abortJob :: "nat \<Rightarrow> imp \<Rightarrow> imp" where
  "abortJob k s =
     (if status (jobs s ! k) = RUNNING \<or> status (jobs s ! k) = PAUSED then jobMessage k (set_status k ABORTED s)
      else errorMessage ''This job is not running.'' s)"

subsection \<open>Running jobs\<close>

text \<open>
  The parent's side of \<open>runJobProcess\<close>: \<open>forks\<close> holds the process ids that \<open>fork\<close> will return, and a failure
  when it is empty. The event \<open>Started\<close> records what the child works on: the file it opens and the
  conversion path from the type of the file to that of the printer.
\<close>

definition runJobProcess :: "string \<Rightarrow> nat \<Rightarrow> nat \<Rightarrow> imp \<Rightarrow> int ires" where
  "runJobProcess file k i s =
     (case forks s of
        [] \<Rightarrow> IExit 1
      | pid # fs \<Rightarrow>
          if pid < 0 then IExit 1
          else
            (let path = getConversionPath (types s) (file_type (jobs s ! k)) (p_type (printers s ! i)) (int MAX_CONVERSIONS)
             in IRet pid (say (Started pid file path) (upd_job k (\<lambda>j. j\<lparr>pgid := pid\<rparr>) (s\<lparr>forks := fs\<rparr>)))))"

definition runJob :: "string \<Rightarrow> nat \<Rightarrow> string \<Rightarrow> imp \<Rightarrow> int ires" where
  "runJob file k printername s =
     (case getPrinter printername s of
        None \<Rightarrow> IRet 0 s
      | Some p \<Rightarrow>
          if busy p \<noteq> 0 then IRet 0 s
          else
            (let s = upd_job k (\<lambda>j. j\<lparr>status := RUNNING, chosen_printer := Some (p_id p), change_time := clock s\<rparr>) s;
                 s = jobMessage k s;
                 s = busyPrinter printername s
             in runJobProcess file k (p_id p) s))"

fun runJobs_loop :: "nat list \<Rightarrow> imp \<Rightarrow> unit ires" where
  "runJobs_loop [] s = IRet () s"
| "runJobs_loop (k # ks) s =
     (if status (jobs s ! k) = QUEUED then
        (case getEligiblePrinter (jobs s ! k) s of
           IRet None s \<Rightarrow> runJobs_loop ks s
         | IRet (Some p) s \<Rightarrow>
             (case runJob (getFile (jobs s ! k)) k (p_name p) s of
                IRet _ s \<Rightarrow> runJobs_loop ks s | IExit c \<Rightarrow> IExit c | ICrash \<Rightarrow> ICrash)
         | IExit c \<Rightarrow> IExit c | ICrash \<Rightarrow> ICrash)
      else runJobs_loop ks s)"

definition runJobs :: "imp \<Rightarrow> unit ires" where
  "runJobs s = runJobs_loop [0..<length (jobs s)] s"

subsection \<open>The process of a job\<close>

text \<open>
  The child's side of \<open>runJobProcess\<close>, up to its exit code: whether the file and the pipes open, how each
  conversion of the path ends, and how the printing process ends. Only an exit code of 1 counts as
  a failure of a conversion or of the printing process.
\<close>

datatype wstatus = WExited int | WSignaled

datatype stage = ForkFailed | Ran wstatus

definition stage_ok :: "stage \<Rightarrow> bool" where
  "stage_ok st = (case st of ForkFailed \<Rightarrow> False | Ran (WExited c) \<Rightarrow> c \<noteq> 1 | Ran WSignaled \<Rightarrow> True)"

fun conversion_stages :: "(nat \<Rightarrow> stage) \<Rightarrow> (nat \<Rightarrow> bool) \<Rightarrow> nat \<Rightarrow> CONVERSION list \<Rightarrow> bool" where
  "conversion_stages run pipes i [] = True"
| "conversion_stages run pipes i (c # cs) =
     (if \<not> stage_ok (run i) then False
      else if cs = [] then True
      else if \<not> pipes (Suc i) then False
      else conversion_stages run pipes (Suc i) cs)"

definition job_process :: "bool \<Rightarrow> (nat \<Rightarrow> bool) \<Rightarrow> (nat \<Rightarrow> stage) \<Rightarrow> stage \<Rightarrow> CONVERSION list option \<Rightarrow> int" where
  "job_process opened pipes run printing path =
     (if \<not> opened then 1
      else if \<not> pipes 0 then 1
      else if \<not> conversion_stages run pipes 0 (case path of None \<Rightarrow> [] | Some cs \<Rightarrow> cs) then 1
      else if \<not> stage_ok printing then 1
      else 0)"

end
