(* ===== verification/Printer_Commands.thy ===== *)
theory Printer_Commands
  imports Printer_Spool
begin

section \<open>Printer spooler: commands, signals and the main loop\<close>

text \<open>
  \<open>Printer/src/main.c\<close> and the listings of \<open>messages.c\<close>. A command line is split by \<open>strtok\<close>; \<open>SIGCHLD\<close> is
  handled between commands. The files of batch mode are a map from names to contents.
\<close>

subsection \<open>Parsing\<close>

definition isspace :: "char \<Rightarrow> bool" where
  "isspace c \<longleftrightarrow> c = CHR '' '' \<or> 9 \<le> (of_char c :: nat) \<and> (of_char c :: nat) \<le> 13"

definition isdigit :: "char \<Rightarrow> bool" where
  "isdigit c \<longleftrightarrow> 48 \<le> (of_char c :: nat) \<and> (of_char c :: nat) \<le> 57"

fun digits :: "int \<Rightarrow> string \<Rightarrow> int" where
  "digits acc [] = acc"
| "digits acc (c # cs) = (if isdigit c then digits (10 * acc + (of_char c - 48)) cs else acc)"

text \<open>\<open>atoi\<close> is \<open>strtol\<close>, which saturates at 64 bits, cut to an \<open>int\<close>.\<close>

definition atoi :: "string \<Rightarrow> int" where
  "atoi s =
     (let r = dropWhile isspace s;
          v = (case r of [] \<Rightarrow> 0
               | c # cs \<Rightarrow> if c = CHR ''-'' then - digits 0 cs else if c = CHR ''+'' then digits 0 cs else digits 0 r)
      in sint (word_of_int (max (- (2 ^ 63)) (min (2 ^ 63 - 1) v)) :: i32))"

subsection \<open>Listings\<close>

definition printerStatus :: "imp \<Rightarrow> imp" where
  "printerStatus s = fold printerMessage [0..<length (printers s)] s"

definition jobStatus :: "imp \<Rightarrow> imp" where
  "jobStatus s = fold jobMessage [0..<length (jobs s)] s"

text \<open>The table of \<open>messages.c\<close> and the lines that \<open>usage\<close> prints of it; \<open>%-ns\<close> pads to \<open>n\<close> characters.\<close>

record option_info =
  o_name :: string
  has_arg :: bool
  argname :: "string option"
  descr :: string

definition option_table :: "option_info list" where
  "option_table =
    [\<lparr>o_name = ''quit'', has_arg = False, argname = None, descr = ''Cause execution to terminate.''\<rparr>,
     \<lparr>o_name = ''type'', has_arg = True, argname = Some ''type'',
      descr = ''Declare type to be a file type to be supported by the program.''\<rparr>,
     \<lparr>o_name = ''printer'', has_arg = True, argname = Some ''printer_name type'',
      descr = ''Declare the existence of a printer which is capable of printing files of type type.''\<rparr>,
     \<lparr>o_name = ''conversion'', has_arg = True, argname = Some ''type1 type2 con_prog'',
      descr = ''Declare that files of type type1 can be converted into type2 by running con_prog.''\<rparr>,
     \<lparr>o_name = ''printers'', has_arg = False, argname = None, descr = ''Print current status of the declared printers.''\<rparr>,
     \<lparr>o_name = ''jobs'', has_arg = False, argname = None, descr = ''Print current status of the print jobs.''\<rparr>,
     \<lparr>o_name = ''print'', has_arg = True, argname = Some ''name [printer1 ...]'', descr = ''Print a job for printing file_name.''\<rparr>,
     \<lparr>o_name = ''cancel'', has_arg = True, argname = Some ''job_number'', descr = ''Cancel an existing job.''\<rparr>,
     \<lparr>o_name = ''pause'', has_arg = True, argname = Some ''job_number'', descr = ''Pause a job that is currently being processed.''\<rparr>,
     \<lparr>o_name = ''resume'', has_arg = True, argname = Some ''job_number'', descr = ''Resume a job that was previously paused.''\<rparr>,
     \<lparr>o_name = ''disable'', has_arg = True, argname = Some ''printer_name'',
      descr = ''Set the state of a specified printer to '' @ [CHR 39] @ ''disabled'' @ [CHR 39] @ ''.''\<rparr>,
     \<lparr>o_name = ''enable'', has_arg = True, argname = Some ''printer_name'',
      descr = ''Set the state of a specified printer to '' @ [CHR 39] @ ''enabled'' @ [CHR 39] @ ''.''\<rparr>]"

definition pad :: "nat \<Rightarrow> string \<Rightarrow> string" where
  "pad n s = s @ replicate (n - length s) CHR '' ''"

definition usage_arg :: "option_info \<Rightarrow> string" where
  "usage_arg opt = (if has_arg opt then '' <'' @ take 30 (the (argname opt)) @ ''>'' else [])"

definition usage_line :: "option_info \<Rightarrow> string" where
  "usage_line opt =
     [CHR 9] @ pad 10 (o_name opt) @ pad 13 (usage_arg opt) @ [CHR 9, CHR 9] @ descr opt @ ''\<newline>''"

definition usage :: "imp \<Rightarrow> imp" where
  "usage = say (Usage (''Valid options are:\<newline>'' # map usage_line option_table))"

text \<open>The buffer \<open>arg\<close> of 32 bytes is large enough for the arguments of the table.\<close>

lemma usage_arg_fits: "\<forall>opt\<in>set option_table. length (usage_arg opt) < 32"
  by code_simp

definition errors :: "string list \<Rightarrow> imp \<Rightarrow> imp" where
  "errors = fold errorMessage"

subsection \<open>Commands on jobs and printers\<close>

text \<open>\<open>pause\<close>, \<open>resume\<close> and \<open>cancel\<close>: send a signal to the process group of a job in the right status.\<close>

definition job_command :: "string \<Rightarrow> JOB_STATUS \<Rightarrow> signal \<Rightarrow> string \<Rightarrow> string option \<Rightarrow> imp \<Rightarrow> imp" where
  "job_command cmd st sig msg jobID s =
     (case jobID of None \<Rightarrow> s
      | Some i \<Rightarrow>
          if atoi i = 0 \<and> i \<noteq> ''0'' then errorMessage (''Correct Use: '' @ cmd @ '' jobID'') s
          else (case getJobByID (atoi i) s of
                  None \<Rightarrow> errorMessage ''No job with that ID.'' s
                | Some j \<Rightarrow> if status j = st then say (Killpg (pgid j) sig) s else errorMessage msg s))"

text \<open>\<open>disable\<close> and \<open>enable\<close> pass on a missing name: \<open>getPrinter\<close> then compares NULL, if there is a printer.\<close>

definition on_printer :: "(string \<Rightarrow> imp \<Rightarrow> imp) \<Rightarrow> string option \<Rightarrow> imp \<Rightarrow> unit ires" where
  "on_printer f name s =
     (case name of
        Some n \<Rightarrow> IRet () (f n s)
      | None \<Rightarrow> if printers s = [] then IRet () (errorMessage ''No printer with that name exists.'' s) else ICrash)"

definition print :: "string option \<Rightarrow> string option \<Rightarrow> imp \<Rightarrow> int ires" where
  "print file ps s =
     (case file of None \<Rightarrow> ICrash
      | Some f \<Rightarrow>
          (let (name, r) = strtok ''.'' f; (type, r') = strtok ''\<newline>'' r
           in case (name, type) of
                (Some n, Some t) \<Rightarrow>
                  if getType t (types s) = None then IRet 0 (errorMessage ''File type is not defined.'' s)
                  else
                    (let (pset, s) = getPrinterSet ps s
                     in if pset = 0 then IRet 0 s
                        else (case newJob n t 0 pset s of
                                (None, s) \<Rightarrow> ICrash
                              | (Some k, s) \<Rightarrow>
                                  (let s = jobMessage k s
                                   in case getEligiblePrinter (jobs s ! k) s of
                                        IRet (Some p) s \<Rightarrow> runJob f k (p_name p) s
                                      | IRet None s \<Rightarrow> IRet 0 s
                                      | IExit c \<Rightarrow> IExit c | ICrash \<Rightarrow> ICrash)))
              | _ \<Rightarrow> IRet 0 (errorMessage ''File type is not defined.'' s)))"

definition runCommand :: "string \<Rightarrow> imp \<Rightarrow> unit ires" where
  "runCommand input s =
     (case strtok '' '' input of
        (None, r) \<Rightarrow> IRet () s
      | (Some flag1, r) \<Rightarrow>
          (let (a1, r1) = strtok '' '' r; (a2, r2) = strtok '' '' r1; (a3, r3) = strtok '' '' r2
           in if flag1 = ''help'' then IRet () (usage s)
              else if flag1 = ''type'' then
                (let (m, ts) = newExtension a1 (types s) in IRet () (errors m (s\<lparr>types := ts\<rparr>)))
              else if flag1 = ''printer'' then
                (case newPrinter a1 a2 s of
                   (None, s) \<Rightarrow> IRet () s | (Some i, s) \<Rightarrow> IRet () (printerMessage i s))
              else if flag1 = ''printers'' then IRet () (printerStatus s)
              else if flag1 = ''jobs'' then IRet () (jobStatus s)
              else if flag1 = ''pause'' then IRet () (job_command ''pause'' RUNNING SIGTSTP ''Job is not running.'' a1 s)
              else if flag1 = ''resume'' then IRet () (job_command ''resume'' PAUSED SIGCONT ''Job is not paused.'' a1 s)
              else if flag1 = ''cancel'' then IRet () (job_command ''cancel'' RUNNING SIGTERM ''Job is not running.'' a1 s)
              else if flag1 = ''conversion'' then
                (let (as, r4) = strtok ''\<newline>'' r3; (m, ts) = newConversion a1 a2 a3 as (types s)
                 in IRet () (errors m (s\<lparr>types := ts\<rparr>)))
              else if flag1 = ''print'' then
                (case print a1 (fst (strtok ''\<newline>'' r1)) s of
                   IRet _ s \<Rightarrow> IRet () s | IExit c \<Rightarrow> IExit c | ICrash \<Rightarrow> ICrash)
              else if flag1 = ''disable'' then on_printer disablePrinter a1 s
              else if flag1 = ''enable'' then on_printer enablePrinter a1 s
              else if flag1 = ''quit'' then IExit 0
              else IRet () s))"

subsection \<open>SIGCHLD\<close>

text \<open>What \<open>waitpid\<close> reports of one child; \<open>NoChild\<close> leaves the status at -1, which matches no test.\<close>

datatype wait_event = Exited int | Stopped | Continued | Signaled | NoChild

definition finish :: "(nat \<Rightarrow> imp \<Rightarrow> imp) \<Rightarrow> int \<Rightarrow> imp \<Rightarrow> unit ires" where
  "finish change pid s =
     (case getJobByPID pid s of None \<Rightarrow> ICrash
      | Some k \<Rightarrow>
          (let s = change k s
           in case chosen_printer (jobs s ! k) of None \<Rightarrow> ICrash
              | Some i \<Rightarrow> runJobs (freePrinter (p_name (printers s ! i)) s)))"

definition printHandler :: "wait_event \<Rightarrow> int \<Rightarrow> imp \<Rightarrow> unit ires" where
  "printHandler e pid s =
     (case e of
        Exited c \<Rightarrow>
          if c = 0 then finish completeJob pid s
          else if c = 1 then finish abortJob pid s
          else IRet () s
      | Stopped \<Rightarrow> (case getJobByPID pid s of None \<Rightarrow> ICrash | Some k \<Rightarrow> IRet () (pauseJob k s))
      | Continued \<Rightarrow> (case getJobByPID pid s of None \<Rightarrow> ICrash | Some k \<Rightarrow> IRet () (resumeJob k s))
      | Signaled \<Rightarrow> finish abortJob pid s
      | NoChild \<Rightarrow> IRet () s)"

subsection \<open>The main loop and batch mode\<close>

definition main_step :: "string \<Rightarrow> imp \<Rightarrow> unit ires" where
  "main_step input s =
     (case runCommand input s of
        IRet _ s \<Rightarrow> (case runJobs s of IRet _ s \<Rightarrow> IRet () (removeJobs s) | IExit c \<Rightarrow> IExit c | ICrash \<Rightarrow> ICrash)
      | IExit c \<Rightarrow> IExit c | ICrash \<Rightarrow> ICrash)"

fun main_loop :: "string list \<Rightarrow> imp \<Rightarrow> unit ires" where
  "main_loop [] s = IExit 0"
| "main_loop (l # ls) s =
     (case main_step l s of IRet _ s \<Rightarrow> main_loop ls s | IExit c \<Rightarrow> IExit c | ICrash \<Rightarrow> ICrash)"

fun getFlag_loop :: "string \<Rightarrow> int \<Rightarrow> string list \<Rightarrow> int" where
  "getFlag_loop flag i [] = -1"
| "getFlag_loop flag i (a # as) = (if flag = a then i else getFlag_loop flag (i + 1) as)"

definition getFlag :: "string \<Rightarrow> string list \<Rightarrow> int" where
  "getFlag flag argv = getFlag_loop flag 0 argv"

text \<open>\<open>fgets\<close> with a buffer of \<open>MAX_CHARS\<close>: at most 254 characters, up to and with a newline.\<close>

abbreviation MAX_CHARS :: nat where "MAX_CHARS \<equiv> 255"

fun fgets :: "nat \<Rightarrow> string \<Rightarrow> string \<times> string" where
  "fgets 0 cs = ([], cs)"
| "fgets (Suc n) [] = ([], [])"
| "fgets (Suc n) (c # cs) =
     (if c = CHR ''\<newline>'' then ([c], cs) else (let (l, r) = fgets n cs in (c # l, r)))"

lemma fgets_append: "fgets n cs = (l, r) \<Longrightarrow> cs = l @ r"
  by (induction n cs arbitrary: l rule: fgets.induct) (auto split: if_splits prod.splits)

function batch_loop :: "string \<Rightarrow> imp \<Rightarrow> unit ires" where
  "batch_loop script s =
     (case fgets (MAX_CHARS - 1) script of
        ([], r) \<Rightarrow> IRet () s
      | (l # ls, r) \<Rightarrow>
          (case strtok ''\<newline>'' (l # ls) of
             (None, _) \<Rightarrow> batch_loop r s
           | (Some line, _) \<Rightarrow>
               (case runCommand line (say (Batch line) s) of
                  IRet _ s \<Rightarrow> batch_loop r s | IExit c \<Rightarrow> IExit c | ICrash \<Rightarrow> ICrash)))"
  by pat_completeness auto

termination
proof (relation "measure (\<lambda>(script, s). length script)")
  show "wf (measure (\<lambda>(script, s). length script))" by simp
qed (auto dest!: sym [of _ "fgets _ _"] fgets_append)

declare batch_loop.simps [simp del]

definition batchMode :: "(string \<Rightarrow> bool) \<Rightarrow> (string \<Rightarrow> string option) \<Rightarrow> string list \<Rightarrow> imp \<Rightarrow> unit ires" where
  "batchMode writable files argv s =
     (if length argv \<le> 1 then IRet () s
      else
        (let argc = int (length argv); oFlag = getFlag ''-o'' argv; iFlag = getFlag ''-i'' argv
         in if oFlag \<ge> argc - 1 then IExit 1
            else if oFlag > 0 \<and> \<not> writable (argv ! nat (oFlag + 1)) then IExit 1
            else if iFlag \<ge> argc - 1 then IExit 1
            else if iFlag > 0 then
              (case files (argv ! nat (iFlag + 1)) of None \<Rightarrow> IExit 1 | Some script \<Rightarrow> batch_loop script s)
            else IRet () s))"

definition imp_main :: "(string \<Rightarrow> bool) \<Rightarrow> (string \<Rightarrow> string option) \<Rightarrow> string list \<Rightarrow> string list \<Rightarrow> imp \<Rightarrow> unit ires" where
  "imp_main writable files argv lines s =
     (case batchMode writable files argv s of IRet _ s \<Rightarrow> main_loop lines s | IExit c \<Rightarrow> IExit c | ICrash \<Rightarrow> ICrash)"

end
