(* ===== verification/Printer_Invariant.thy ===== *)
theory Printer_Invariant
  imports Printer_Commands
begin

section \<open>Printer spooler: the invariant of its state\<close>

text \<open>
  The invariant that the commands and the signal handler keep: the tables are well-formed, job ids are
  unique, process ids are unique, and jobs and printers agree on who prints where. A job is active
  when it runs or is paused; it then holds its chosen printer, which is busy, and no other active
  job holds it; a busy printer is held by some active job.
\<close>

definition active :: "JOB \<Rightarrow> bool" where
  "active j \<longleftrightarrow> status j = RUNNING \<or> status j = PAUSED"

definition holding :: "JOB list \<Rightarrow> PRINTER list \<Rightarrow> bool" where
  "holding js ps \<longleftrightarrow>
     (\<forall>k<length js. active (js ! k) \<longrightarrow>
        (\<exists>i<length ps. chosen_printer (js ! k) = Some i \<and> busy (ps ! i) \<noteq> 0 \<and> (\<forall>l<i. p_name (ps ! l) \<noteq> p_name (ps ! i)))) \<and>
     (\<forall>k<length js. \<forall>l<length js. active (js ! k) \<longrightarrow> active (js ! l) \<longrightarrow> chosen_printer (js ! k) = chosen_printer (js ! l) \<longrightarrow> k = l) \<and>
     (\<forall>i<length ps. busy (ps ! i) \<noteq> 0 \<longrightarrow> (\<exists>k<length js. active (js ! k) \<and> chosen_printer (js ! k) = Some i))"

definition pids_ok :: "JOB list \<Rightarrow> int list \<Rightarrow> bool" where
  "pids_ok js fs \<longleftrightarrow>
     distinct fs \<and> (\<forall>f\<in>set fs. 0 < f) \<and> (\<forall>j\<in>set js. pgid j \<notin> set fs \<and> (active j \<longrightarrow> 0 < pgid j)) \<and>
     (\<forall>k<length js. \<forall>l<length js. pgid (js ! k) = pgid (js ! l) \<longrightarrow> 0 < pgid (js ! k) \<longrightarrow> k = l)"

definition spool_ok :: "imp \<Rightarrow> bool" where
  "spool_ok s \<longleftrightarrow>
     types_ok (types s) \<and>
     length (printers s) \<le> MAX_PRINTERS \<and> (\<forall>i<length (printers s). p_id (printers s ! i) = i) \<and>
     distinct (map jobid (jobs s)) \<and> (\<forall>j\<in>set (jobs s). jobid j < job_index s \<and> getType (file_type j) (types s) \<noteq> None) \<and>
     holding (jobs s) (printers s) \<and> pids_ok (jobs s) (forks s)"

subsection \<open>Messages do not matter\<close>

lemma say_simps [simp]:
  "types (say e s) = types s" "printers (say e s) = printers s" "jobs (say e s) = jobs s"
  "job_index (say e s) = job_index s" "forks (say e s) = forks s" "clock (say e s) = clock s"
  by (simp_all add: say_def)

lemma spool_ok_say [simp]: "spool_ok (say e s) = spool_ok s"
  by (simp add: spool_ok_def)

lemma message_simps [simp]:
  "spool_ok (errorMessage m s) = spool_ok s" "spool_ok (printerMessage i s) = spool_ok s" "spool_ok (jobMessage k s) = spool_ok s"
  "jobs (errorMessage m s) = jobs s" "jobs (printerMessage i s) = jobs s" "jobs (jobMessage k s) = jobs s"
  "printers (errorMessage m s) = printers s" "printers (printerMessage i s) = printers s" "printers (jobMessage k s) = printers s"
  "forks (errorMessage m s) = forks s" "forks (printerMessage i s) = forks s" "forks (jobMessage k s) = forks s"
  "types (errorMessage m s) = types s" "types (printerMessage i s) = types s" "types (jobMessage k s) = types s"
  "clock (errorMessage m s) = clock s" "clock (printerMessage i s) = clock s" "clock (jobMessage k s) = clock s"
  "job_index (errorMessage m s) = job_index s" "job_index (printerMessage i s) = job_index s" "job_index (jobMessage k s) = job_index s"
  by (simp_all add: errorMessage_def printerMessage_def jobMessage_def)

lemma errors_ok [simp]: "spool_ok (errors ms s) = spool_ok s"
  by (induction ms arbitrary: s) (simp_all add: errors_def)

lemma fold_message_ok: "(\<And>k s. spool_ok (f k s) = spool_ok s) \<Longrightarrow> spool_ok (fold f ks s) = spool_ok s"
  by (induction ks arbitrary: s) simp_all

subsection \<open>Looking up printers and jobs\<close>

lemma getPrinter_Some:
  assumes "spool_ok s" "getPrinter n s = Some p"
  shows "p_id p < length (printers s) \<and> printers s ! p_id p = p \<and> p_name p = n \<and> (\<forall>l<p_id p. p_name (printers s ! l) \<noteq> n)"
proof -
  obtain i where i: "i < length (printers s)" "printers s ! i = p" "p_name p = n" "\<forall>l<i. p_name (printers s ! l) \<noteq> n"
    using pr.look_index [of n "printers s" p] assms(2) by (auto simp: getPrinter_def)
  moreover have "p_id p = i" using assms(1) i(1,2) by (auto simp: spool_ok_def)
  ultimately show ?thesis by simp
qed

lemma getPrinter_first:
  "i < length (printers s) \<Longrightarrow> \<forall>l<i. p_name (printers s ! l) \<noteq> p_name (printers s ! i) \<Longrightarrow>
     getPrinter (p_name (printers s ! i)) s = Some (printers s ! i)"
  unfolding getPrinter_def by (rule pr.look_first)

lemma getJobByPID_loop_find:
  "k < length js \<Longrightarrow> (\<forall>l<k. pgid (js ! l) \<noteq> pgid (js ! k)) \<Longrightarrow> getJobByPID_loop (pgid (js ! k)) js = Some k"
proof (induction js arbitrary: k)
  case (Cons j js)
  show ?case
  proof (cases k)
    case (Suc m)
    have "pgid j \<noteq> pgid (js ! m)" using Cons.prems(2) Suc by force
    moreover have "\<forall>l<m. pgid (js ! l) \<noteq> pgid (js ! m)" using Cons.prems(2) Suc by (metis Suc_less_eq nth_Cons_Suc)
    ultimately show ?thesis using Cons Suc by auto
  qed simp
qed simp

lemma getJobByPID_active:
  assumes "spool_ok s" "k < length (jobs s)" "active (jobs s ! k)"
  shows "getJobByPID (pgid (jobs s ! k)) s = Some k"
  unfolding getJobByPID_def
proof (rule getJobByPID_loop_find [OF assms(2)])
  have "pids_ok (jobs s) (forks s)" using assms(1) by (simp add: spool_ok_def)
  then show "\<forall>l<k. pgid (jobs s ! l) \<noteq> pgid (jobs s ! k)"
    using assms(2,3) unfolding pids_ok_def by (metis less_irrefl less_trans nth_mem)
qed

subsection \<open>Jobs start and end\<close>

text \<open>A job that is not active takes a free printer; an active job lets its printer go.\<close>

lemma holding_active:
  assumes "holding js ps" "k < length js" "active (js ! k)"
  obtains i where "i < length ps" "chosen_printer (js ! k) = Some i" "busy (ps ! i) \<noteq> 0" "\<forall>l<i. p_name (ps ! l) \<noteq> p_name (ps ! i)"
  using assms unfolding holding_def by blast

lemma holding_unique:
  "holding js ps \<Longrightarrow> k < length js \<Longrightarrow> l < length js \<Longrightarrow> active (js ! k) \<Longrightarrow> active (js ! l) \<Longrightarrow>
     chosen_printer (js ! k) = chosen_printer (js ! l) \<Longrightarrow> k = l"
  unfolding holding_def by blast

lemma holding_busy:
  assumes "holding js ps" "i < length ps" "busy (ps ! i) \<noteq> 0"
  obtains k where "k < length js" "active (js ! k)" "chosen_printer (js ! k) = Some i"
  using assms unfolding holding_def by blast

lemma holdingI:
  assumes "\<And>k. k < length js \<Longrightarrow> active (js ! k) \<Longrightarrow>
      \<exists>i<length ps. chosen_printer (js ! k) = Some i \<and> busy (ps ! i) \<noteq> 0 \<and> (\<forall>l<i. p_name (ps ! l) \<noteq> p_name (ps ! i))"
    and "\<And>k l. k < length js \<Longrightarrow> l < length js \<Longrightarrow> active (js ! k) \<Longrightarrow> active (js ! l) \<Longrightarrow>
      chosen_printer (js ! k) = chosen_printer (js ! l) \<Longrightarrow> k = l"
    and "\<And>i. i < length ps \<Longrightarrow> busy (ps ! i) \<noteq> 0 \<Longrightarrow> \<exists>k<length js. active (js ! k) \<and> chosen_printer (js ! k) = Some i"
  shows "holding js ps"
  using assms unfolding holding_def by blast

lemma holding_start:
  assumes h: "holding js ps" and k: "k < length js" "\<not> active (js ! k)" and i: "i < length ps" "busy (ps ! i) = 0"
    and nm: "\<forall>l<i. p_name (ps ! l) \<noteq> p_name (ps ! i)" and j: "active j" "chosen_printer j = Some i"
  shows "holding (js[k := j]) (ps[i := (ps ! i)\<lparr>busy := 1\<rparr>])"
proof -
  let ?js = "js[k := j]" and ?ps = "ps[i := (ps ! i)\<lparr>busy := 1\<rparr>]"
  have nm': "p_name (?ps ! l) = p_name (ps ! l)" for l by (cases "l = i") (use i in auto)
  have bz: "busy (?ps ! l) = (if l = i then 1 else busy (ps ! l))" if "l < length ps" for l using that by auto
  have other: "l \<noteq> k \<Longrightarrow> l < length js \<Longrightarrow> active (js ! l) \<Longrightarrow> chosen_printer (js ! l) \<noteq> Some i" for l
    using h i(2) unfolding holding_def by fastforce
  have "\<exists>m<length ?ps. chosen_printer (?js ! l) = Some m \<and> busy (?ps ! m) \<noteq> 0 \<and> (\<forall>q<m. p_name (?ps ! q) \<noteq> p_name (?ps ! m))"
    if "l < length ?js" "active (?js ! l)" for l
  proof (cases "l = k")
    case True
    then show ?thesis using i j nm k(1) by (intro exI [of _ i]) (auto simp: nm')
  next
    case False
    then have lk: "l < length js" "active (js ! l)" using that by auto
    obtain m where "m < length ps" "chosen_printer (js ! l) = Some m" "busy (ps ! m) \<noteq> 0" "\<forall>q<m. p_name (ps ! q) \<noteq> p_name (ps ! m)"
      by (rule holding_active [OF h lk])
    then show ?thesis using False that by (intro exI [of _ m]) (auto simp: nm' bz)
  qed
  moreover have "l = m" if lm: "l < length ?js" "m < length ?js" "active (?js ! l)" "active (?js ! m)" "chosen_printer (?js ! l) = chosen_printer (?js ! m)" for l m
  proof -
    consider "l = k" "m = k" | "l = k" "m \<noteq> k" | "l \<noteq> k" "m = k" | "l \<noteq> k" "m \<noteq> k" by blast
    then show ?thesis
    proof cases
      case 2 then show ?thesis using other [of m] lm j(2) k(1) by auto
    next
      case 3 then show ?thesis using other [of l] lm j(2) k(1) by auto
    next
      case 4 then show ?thesis using holding_unique [OF h, of l m] lm by auto
    qed simp
  qed
  moreover have "\<exists>l<length ?js. active (?js ! l) \<and> chosen_printer (?js ! l) = Some m" if "m < length ?ps" "busy (?ps ! m) \<noteq> 0" for m
  proof (cases "m = i")
    case True
    then show ?thesis using j k(1) by (intro exI [of _ k]) auto
  next
    case False
    then have mi: "m < length ps" "busy (ps ! m) \<noteq> 0" using that by auto
    obtain l where l: "l < length js" "active (js ! l)" "chosen_printer (js ! l) = Some m" by (rule holding_busy [OF h mi])
    then have "l \<noteq> k" using k(2) by auto
    then show ?thesis using l by (intro exI [of _ l]) auto
  qed
  ultimately show ?thesis by (rule holdingI)
qed

lemma holding_end:
  assumes h: "holding js ps" and k: "k < length js" "active (js ! k)" and i: "chosen_printer (js ! k) = Some i" and j: "\<not> active j"
  shows "holding (js[k := j]) (ps[i := (ps ! i)\<lparr>busy := 0\<rparr>])"
proof -
  let ?js = "js[k := j]" and ?ps = "ps[i := (ps ! i)\<lparr>busy := 0\<rparr>]"
  have il: "i < length ps" by (rule holding_active [OF h k]) (use i in simp)
  have nm': "p_name (?ps ! l) = p_name (ps ! l)" for l by (cases "l = i") (use il in auto)
  have bz: "busy (?ps ! l) = (if l = i then 0 else busy (ps ! l))" if "l < length ps" for l using that by auto
  have same: "active (?js ! l) \<longleftrightarrow> l \<noteq> k \<and> active (js ! l)" if "l < length js" for l using that j by (cases "l = k") auto
  have "\<exists>m<length ?ps. chosen_printer (?js ! l) = Some m \<and> busy (?ps ! m) \<noteq> 0 \<and> (\<forall>q<m. p_name (?ps ! q) \<noteq> p_name (?ps ! m))"
    if l: "l < length ?js" "active (?js ! l)" for l
  proof -
    have lk: "l \<noteq> k" "active (js ! l)" "l < length js" using same l by auto
    then obtain m where m: "m < length ps" "chosen_printer (js ! l) = Some m" "busy (ps ! m) \<noteq> 0" "\<forall>q<m. p_name (ps ! q) \<noteq> p_name (ps ! m)"
      using h unfolding holding_def by blast
    have "m \<noteq> i" using holding_unique [OF h lk(3) k(1) lk(2) k(2)] i m(2) lk(1) by auto
    then show ?thesis using m lk by (intro exI [of _ m]) (auto simp: nm' bz)
  qed
  moreover have "l = m" if "l < length ?js" "m < length ?js" "active (?js ! l)" "active (?js ! m)" "chosen_printer (?js ! l) = chosen_printer (?js ! m)" for l m
  proof -
    have e: "l < length js" "m < length js" "l \<noteq> k" "m \<noteq> k" "active (js ! l)" "active (js ! m)" using that same by auto
    then show ?thesis using holding_unique [OF h e(1,2,5,6)] that(5) by simp
  qed
  moreover have "\<exists>l<length ?js. active (?js ! l) \<and> chosen_printer (?js ! l) = Some m" if "m < length ?ps" "busy (?ps ! m) \<noteq> 0" for m
  proof -
    have mi: "m \<noteq> i" "m < length ps" "busy (ps ! m) \<noteq> 0" using that bz by (auto split: if_splits)
    then obtain l where l: "l < length js" "active (js ! l)" "chosen_printer (js ! l) = Some m" using h unfolding holding_def by blast
    then have "l \<noteq> k" using mi(1) i by auto
    then show ?thesis using l by (intro exI [of _ l]) auto
  qed
  ultimately show ?thesis by (rule holdingI)
qed

text \<open>Changes that leave the set of active jobs, their printers and the busy printers as they are.\<close>

lemma holding_same:
  assumes h: "holding js ps"
    and js: "length js' = length js" "\<And>k. k < length js \<Longrightarrow> active (js' ! k) = active (js ! k)"
      "\<And>k. k < length js \<Longrightarrow> active (js ! k) \<Longrightarrow> chosen_printer (js' ! k) = chosen_printer (js ! k)"
    and ps: "length ps' = length ps" "\<And>i. i < length ps \<Longrightarrow> busy (ps' ! i) = busy (ps ! i) \<and> p_name (ps' ! i) = p_name (ps ! i)"
  shows "holding js' ps'"
proof (rule holdingI)
  fix k
  assume "k < length js'" "active (js' ! k)"
  then have k: "k < length js" "active (js ! k)" using js by auto
  obtain i where "i < length ps" "chosen_printer (js ! k) = Some i" "busy (ps ! i) \<noteq> 0" "\<forall>l<i. p_name (ps ! l) \<noteq> p_name (ps ! i)"
    by (rule holding_active [OF h k])
  then show "\<exists>i<length ps'. chosen_printer (js' ! k) = Some i \<and> busy (ps' ! i) \<noteq> 0 \<and> (\<forall>l<i. p_name (ps' ! l) \<noteq> p_name (ps' ! i))"
    using js(3) [OF k] ps by (intro exI [of _ i]) auto
next
  fix k l
  assume "k < length js'" "l < length js'" "active (js' ! k)" "active (js' ! l)" "chosen_printer (js' ! k) = chosen_printer (js' ! l)"
  then show "k = l" using holding_unique [OF h, of k l] js by auto
next
  fix i
  assume i: "i < length ps'" "busy (ps' ! i) \<noteq> 0"
  have i': "i < length ps" "busy (ps ! i) \<noteq> 0" using i ps by auto
  obtain k where "k < length js" "active (js ! k)" "chosen_printer (js ! k) = Some i" by (rule holding_busy [OF h i'])
  then show "\<exists>k<length js'. active (js' ! k) \<and> chosen_printer (js' ! k) = Some i" using js by (intro exI [of _ k]) auto
qed

lemma holding_more:
  assumes h: "holding js ps" and j: "\<not> active j"
  shows "holding (js @ [j]) ps"
  using h j unfolding holding_def by (auto simp: nth_append less_Suc_eq)

lemma holding_more_printers:
  assumes h: "holding js ps" and p: "busy p = 0"
  shows "holding js (ps @ [p])"
  using h p unfolding holding_def by (auto simp: nth_append less_Suc_eq)

lemma pids_start:
  assumes p: "pids_ok js (f # fs)" and k: "k < length js" and j: "pgid j = f"
  shows "pids_ok (js[k := j]) fs"
proof -
  have d: "distinct fs" "f \<notin> set fs" "0 < f" "\<forall>g\<in>set fs. 0 < g" "\<forall>j\<in>set js. pgid j \<noteq> f \<and> pgid j \<notin> set fs \<and> (active j \<longrightarrow> 0 < pgid j)"
    and u: "\<And>a b. a < length js \<Longrightarrow> b < length js \<Longrightarrow> pgid (js ! a) = pgid (js ! b) \<Longrightarrow> 0 < pgid (js ! a) \<Longrightarrow> a = b"
    using p unfolding pids_ok_def by auto
  have ne: "pgid (js ! a) \<noteq> f" if "a < length js" for a using d(5) that by simp
  have "a = b" if ab: "a < length (js[k := j])" "b < length (js[k := j])" "pgid (js[k := j] ! a) = pgid (js[k := j] ! b)" "0 < pgid (js[k := j] ! a)" for a b
    using ab u [of a b] ne [of a] ne [of b] j by (cases "a = k"; cases "b = k") auto
  moreover have "pgid x \<notin> set fs \<and> (active x \<longrightarrow> 0 < pgid x)" if "x \<in> set (js[k := j])" for x
    using that set_update_subset_insert [of js k j] d j by auto
  ultimately show ?thesis unfolding pids_ok_def using d(1,4) by blast
qed

lemma pids_same:
  assumes p: "pids_ok js fs" and js: "length js' = length js" "\<And>k. k < length js \<Longrightarrow> pgid (js' ! k) = pgid (js ! k)"
    "\<And>k. k < length js \<Longrightarrow> active (js' ! k) \<Longrightarrow> active (js ! k)"
  shows "pids_ok js' fs"
proof -
  have "pgid x \<notin> set fs \<and> (active x \<longrightarrow> 0 < pgid x)" if "x \<in> set js'" for x
  proof -
    obtain k where k: "k < length js" "x = js' ! k" using \<open>x \<in> set js'\<close> js(1) by (metis in_set_conv_nth)
    then show ?thesis using p js(2) [OF k(1)] js(3) [OF k(1)] nth_mem [OF k(1)] unfolding pids_ok_def by auto
  qed
  moreover have "k = l" if "k < length js'" "l < length js'" "pgid (js' ! k) = pgid (js' ! l)" "0 < pgid (js' ! k)" for k l
    using p js(1) js(2) [of k] js(2) [of l] that unfolding pids_ok_def by auto
  ultimately show ?thesis using p unfolding pids_ok_def by blast
qed

lemma pids_more: "pids_ok js fs \<Longrightarrow> pgid j = 0 \<Longrightarrow> \<not> active j \<Longrightarrow> pids_ok (js @ [j]) fs"
  unfolding pids_ok_def by (auto simp: nth_append less_Suc_eq)

subsection \<open>Starting a job\<close>

lemma jobs_update:
  assumes "distinct (map jobid js)" "k < length js" "jobid j = jobid (js ! k)"
  shows "map jobid (js[k := j]) = map jobid js"
  using assms by (metis list_update_id map_update nth_map)

lemma busyPrinter_eq:
  "getPrinter n s = Some p \<Longrightarrow> busyPrinter n s = printerMessage (p_id p) (upd_printer (p_id p) (\<lambda>p. p\<lparr>busy := 1\<rparr>) s)"
  by (simp add: busyPrinter_def)

lemma runJob_ok:
  assumes s: "spool_ok s" and k: "k < length (jobs s)" "\<not> active (jobs s ! k)" and r: "runJob file k n s = IRet c s'"
  shows "spool_ok s' \<and> length (jobs s') = length (jobs s) \<and> types s' = types s \<and> (\<forall>l. l \<noteq> k \<longrightarrow> jobs s' ! l = jobs s ! l) \<and>
    (active (jobs s' ! k) \<or> s' = s)"
proof (cases "\<exists>p. getPrinter n s = Some p \<and> busy p = 0")
  case False
  then have "s' = s" using r by (auto simp: runJob_def split: option.splits if_splits)
  then show ?thesis using s by simp
next
  case True
  then obtain p where p: "getPrinter n s = Some p" "busy p = 0" by blast
  define i where "i = p_id p"
  have pi: "i < length (printers s)" "printers s ! i = p" "\<forall>l<i. p_name (printers s ! l) \<noteq> p_name (printers s ! i)"
    using getPrinter_Some [OF s p(1)] by (auto simp: i_def)
  define j where "j = (jobs s ! k)\<lparr>status := RUNNING, chosen_printer := Some i, change_time := clock s\<rparr>"
  define t where "t = s\<lparr>jobs := (jobs s)[k := j], printers := (printers s)[i := p\<lparr>busy := 1\<rparr>]\<rparr>"
  have sp: "getPrinter n (jobMessage k (upd_job k (\<lambda>x. j) s)) = Some p" using p(1) by (simp add: getPrinter_def)
  obtain f fs where f: "forks s = f # fs" "\<not> f < 0" and s': "jobs s' = (jobs s)[k := j\<lparr>pgid := f\<rparr>]" "printers s' = (printers s)[i := p\<lparr>busy := 1\<rparr>]"
    "forks s' = fs" "types s' = types s" "job_index s' = job_index s"
    using r p k(1) pi(2) busyPrinter_eq [OF sp]
    by (auto simp: runJob_def runJobProcess_def Let_def j_def i_def [symmetric] split: list.splits if_splits)
  have d: "types_ok (types s)" "length (printers s) \<le> 32" "\<forall>i<length (printers s). p_id (printers s ! i) = i" "distinct (map jobid (jobs s))"
    "\<forall>j\<in>set (jobs s). jobid j < job_index s \<and> getType (file_type j) (types s) \<noteq> None" "holding (jobs s) (printers s)" "pids_ok (jobs s) (forks s)"
    using s unfolding spool_ok_def by auto
  let ?j = "j\<lparr>pgid := f\<rparr>"
  have jj: "active ?j" "chosen_printer ?j = Some i" "jobid ?j = jobid (jobs s ! k)" "file_type ?j = file_type (jobs s ! k)" "pgid ?j = f"
    by (simp_all add: j_def active_def)
  have "holding (jobs s') (printers s')"
    using holding_start [OF d(6) k pi(1) _ pi(3) jj(1,2)] pi(2) p(2) by (simp add: s')
  moreover have "pids_ok (jobs s') (forks s')" using pids_start [OF _ k(1) jj(5)] d(7) f(1) by (simp add: s')
  moreover have "distinct (map jobid (jobs s'))" using jobs_update [OF d(4) k(1) jj(3)] d(4) by (simp add: s')
  moreover have "\<forall>j\<in>set (jobs s'). jobid j < job_index s' \<and> getType (file_type j) (types s') \<noteq> None"
    using d(5) set_update_subset_insert [of "jobs s" k ?j] jj(3,4) nth_mem [OF k(1)] by (auto simp: s')
  moreover have "p_id (printers s' ! l) = l" if "l < length (printers s')" for l
    using d(3) that pi(2) by (cases "l = i") (auto simp: s' i_def)
  ultimately have "spool_ok s'" using d(1,2) unfolding spool_ok_def by (simp add: s')
  then show ?thesis using s' k(1) jj(1) by simp
qed

subsection \<open>Choosing a printer and running the queue\<close>

lemma convert_loop_defined:
  "types_ok ts \<Longrightarrow> getType t ts \<noteq> None \<Longrightarrow> \<exists>po. convert_loop ts j t ps = Val po"
  using path_defined_both(1) [of ts t] by (induction ps) (auto split: ptr_res.splits option.splits)

lemma getEligiblePrinter_returns:
  assumes s: "spool_ok s" and j: "getType (file_type j) (types s) \<noteq> None"
  obtains po where "getEligiblePrinter j s = IRet po s"
proof -
  obtain t where t: "getType (file_type j) (types s) = Some t" using j by blast
  then have "t_type t = file_type j" using ty.look_Some by (auto simp: getType_def)
  then have "\<exists>po. convert_loop (types s) j (t_type t) (printers s) = Val po"
    using convert_loop_defined [of "types s" "file_type j"] s j by (simp add: spool_ok_def)
  then have "\<exists>po. getEligiblePrinter j s = IRet po s" using t by (auto simp: getEligiblePrinter_def split: option.splits)
  then show thesis using that by blast
qed

lemma runJob_no_crash: "runJob file k n s \<noteq> ICrash"
  by (auto simp: runJob_def runJobProcess_def Let_def split: option.splits list.splits)

lemma runJobs_loop_ok:
  "spool_ok s \<Longrightarrow> \<forall>k\<in>set ks. k < length (jobs s) \<Longrightarrow>
     (case runJobs_loop ks s of IRet _ s' \<Rightarrow> spool_ok s' \<and> types s' = types s \<and> length (jobs s') = length (jobs s) | IExit c \<Rightarrow> True | ICrash \<Rightarrow> False)"
proof (induction ks arbitrary: s)
  case (Cons k ks)
  have k: "k < length (jobs s)" using Cons.prems by simp
  show ?case
  proof (cases "status (jobs s ! k) = QUEUED")
    case False
    then show ?thesis using Cons by simp
  next
    case True
    have "getType (file_type (jobs s ! k)) (types s) \<noteq> None" using Cons.prems(1) k by (simp add: spool_ok_def)
    then obtain po where po: "getEligiblePrinter (jobs s ! k) s = IRet po s" by (rule getEligiblePrinter_returns [OF Cons.prems(1)])
    show ?thesis
    proof (cases po)
      case None
      then show ?thesis using Cons po True by simp
    next
      case (Some p)
      have na: "\<not> active (jobs s ! k)" using True by (simp add: active_def)
      show ?thesis
      proof (cases "runJob (getFile (jobs s ! k)) k (p_name p) s")
        case (IRet c t)
        have t: "spool_ok t" "length (jobs t) = length (jobs s)" "types t = types s"
          using runJob_ok [OF Cons.prems(1) k na IRet] by auto
        then show ?thesis using Cons.IH [OF t(1)] Cons.prems(2) po Some True IRet by (auto split: ires.splits)
      qed (use po Some True runJob_no_crash in auto)
    qed
  qed
qed simp

lemma runJobs_ok:
  assumes "spool_ok s"
  shows "case runJobs s of IRet _ s' \<Rightarrow> spool_ok s' \<and> types s' = types s \<and> length (jobs s') = length (jobs s) | IExit c \<Rightarrow> True | ICrash \<Rightarrow> False"
  using runJobs_loop_ok [OF assms, of "[0..<length (jobs s)]"] by (simp add: runJobs_def)

subsection \<open>Removing jobs\<close>

definition expired :: "int \<Rightarrow> JOB \<Rightarrow> bool" where
  "expired now j \<longleftrightarrow> (status j = COMPLETED \<or> status j = ABORTED) \<and> now - change_time j \<ge> 60"

lemma removeJob_filter: "distinct (map jobid js) \<Longrightarrow> removeJob i js = filter (\<lambda>j. jobid j \<noteq> i) js"
  by (induction js) (auto intro!: filter_True [symmetric] simp: rev_image_eqI)

lemma removeJobs_loop_filter:
  "distinct (map jobid js) \<Longrightarrow>
     removeJobs_loop rest now js = filter (\<lambda>j. \<forall>r\<in>set rest. expired now r \<longrightarrow> jobid r \<noteq> jobid j) js"
proof (induction rest arbitrary: js)
  case (Cons r rest)
  have "distinct (map jobid (filter (\<lambda>j. jobid j \<noteq> jobid r) js))" using Cons.prems by (simp add: distinct_map_filter)
  then show ?case
    using Cons by (auto simp: expired_def removeJob_filter intro!: filter_cong)
qed simp

lemma removeJobs_filter:
  assumes "distinct (map jobid (jobs s))"
  shows "jobs (removeJobs s) = filter (\<lambda>j. \<not> expired (clock s) j) (jobs s)"
proof -
  have "(\<forall>r\<in>set (jobs s). expired (clock s) r \<longrightarrow> jobid r \<noteq> jobid j) \<longleftrightarrow> \<not> expired (clock s) j" if "j \<in> set (jobs s)" for j
    using assms that by (auto simp: distinct_map inj_on_def)
  then show ?thesis
    unfolding removeJobs_def using removeJobs_loop_filter [OF assms, of "jobs s" "clock s"] by (simp cong: filter_cong)
qed

lemma holding_set:
  assumes "distinct js"
  shows "holding js ps \<longleftrightarrow>
     (\<forall>j\<in>set js. active j \<longrightarrow> (\<exists>i<length ps. chosen_printer j = Some i \<and> busy (ps ! i) \<noteq> 0 \<and> (\<forall>l<i. p_name (ps ! l) \<noteq> p_name (ps ! i)))) \<and>
     (\<forall>j\<in>set js. \<forall>l\<in>set js. active j \<longrightarrow> active l \<longrightarrow> chosen_printer j = chosen_printer l \<longrightarrow> j = l) \<and>
     (\<forall>i<length ps. busy (ps ! i) \<noteq> 0 \<longrightarrow> (\<exists>j\<in>set js. active j \<and> chosen_printer j = Some i))"
proof -
  have "(\<forall>k<length js. \<forall>l<length js. active (js ! k) \<longrightarrow> active (js ! l) \<longrightarrow> chosen_printer (js ! k) = chosen_printer (js ! l) \<longrightarrow> k = l) \<longleftrightarrow>
      (\<forall>j\<in>set js. \<forall>l\<in>set js. active j \<longrightarrow> active l \<longrightarrow> chosen_printer j = chosen_printer l \<longrightarrow> j = l)"
    using nth_eq_iff_index_eq [OF assms] by (auto simp: all_set_conv_all_nth)
  moreover have "(\<exists>k<length js. active (js ! k) \<and> chosen_printer (js ! k) = Some i) \<longleftrightarrow> (\<exists>j\<in>set js. active j \<and> chosen_printer j = Some i)" for i
    by (metis in_set_conv_nth)
  ultimately show ?thesis unfolding holding_def by (simp add: all_set_conv_all_nth)
qed

lemma distinct_jobs: "distinct (map jobid js) \<Longrightarrow> distinct js"
  by (simp add: distinct_map)

lemma holding_filter:
  assumes "distinct js" "holding js ps" "\<And>j. j \<in> set js \<Longrightarrow> active j \<Longrightarrow> P j"
  shows "holding (filter P js) ps"
  using assms(2) unfolding holding_set [OF assms(1)] holding_set [OF distinct_filter [OF assms(1)]]
  using assms(3) by (simp add: Ball_def Bex_def) blast

lemma pids_filter:
  assumes "distinct js" "pids_ok js fs"
  shows "pids_ok (filter P js) fs"
proof -
  have u: "j = l" if "j \<in> set js" "l \<in> set js" "pgid j = pgid l" "0 < pgid j" for j l
    using assms(2) that unfolding pids_ok_def by (metis in_set_conv_nth)
  have "k = l" if "k < length (filter P js)" "l < length (filter P js)" "pgid (filter P js ! k) = pgid (filter P js ! l)" "0 < pgid (filter P js ! k)" for k l
    using u nth_mem [OF that(1)] nth_mem [OF that(2)] that nth_eq_iff_index_eq [OF distinct_filter [OF assms(1)] that(1,2)] by auto
  then show ?thesis using assms(2) unfolding pids_ok_def by auto
qed

lemma removeJobs_ok:
  assumes "spool_ok s"
  shows "spool_ok (removeJobs s)"
proof -
  have d: "distinct (map jobid (jobs s))" "distinct (jobs s)" using assms by (simp_all add: spool_ok_def distinct_jobs)
  let ?P = "\<lambda>j. \<not> expired (clock s) j"
  have "removeJobs s = s\<lparr>jobs := filter ?P (jobs s)\<rparr>" using removeJobs_filter [OF d(1)] by (simp add: removeJobs_def)
  moreover have "holding (filter ?P (jobs s)) (printers s)"
    by (rule holding_filter [OF d(2)]) (use assms in \<open>auto simp: spool_ok_def expired_def active_def\<close>)
  moreover have "pids_ok (filter ?P (jobs s)) (forks s)" using pids_filter [OF d(2)] assms by (simp add: spool_ok_def)
  ultimately show ?thesis using assms by (auto simp: spool_ok_def distinct_map_filter)
qed

subsection \<open>Commands\<close>

lemma types_change_ok:
  assumes "spool_ok s" "types_ok ts" "\<And>n. getType n (types s) \<noteq> None \<Longrightarrow> getType n ts \<noteq> None"
  shows "spool_ok (s\<lparr>types := ts\<rparr>)"
  using assms by (auto simp: spool_ok_def)

lemma newExtension_keeps: "getType n ts \<noteq> None \<Longrightarrow> getType n (snd (newExtension m ts)) \<noteq> None"
  by (auto simp: newExtension_def addType_def getType_def ty.look_append split: option.splits)

lemma newConversion_keeps: "getType n ts \<noteq> None \<Longrightarrow> getType n (snd (newConversion a b p as ts)) \<noteq> None"
proof -
  assume n: "getType n ts \<noteq> None"
  have "map t_type (snd (newConversion a b p as ts)) = map t_type ts"
    by (auto simp: newConversion_def addConversion_types split: option.splits)
  then show ?thesis using n unfolding getType_defined by (metis set_map)
qed

lemma set_enabled_ok:
  assumes "spool_ok s" "i < length (printers s)"
  shows "spool_ok (upd_printer i (\<lambda>p. p\<lparr>enabled := e\<rparr>) s)"
proof -
  let ?ps = "(printers s)[i := (printers s ! i)\<lparr>enabled := e\<rparr>]"
  have "holding (jobs s) ?ps"
  proof (rule holding_same [of "jobs s" "printers s"])
    show "busy (?ps ! l) = busy (printers s ! l) \<and> p_name (?ps ! l) = p_name (printers s ! l)" if "l < length (printers s)" for l
      using that by (cases "l = i") auto
  qed (use assms in \<open>auto simp: spool_ok_def\<close>)
  moreover have "p_id (?ps ! l) = l" if "l < length (printers s)" for l using assms that by (cases "l = i") (auto simp: spool_ok_def)
  ultimately show ?thesis using assms by (auto simp: spool_ok_def)
qed

lemma set_enabled_named:
  "spool_ok s \<Longrightarrow> getPrinter n s = Some p \<Longrightarrow> spool_ok (upd_printer (p_id p) (\<lambda>p. p\<lparr>enabled := e\<rparr>) s)"
  using getPrinter_Some [of s n p] by (intro set_enabled_ok) auto

lemma enable_ok: "spool_ok s \<Longrightarrow> spool_ok (enablePrinter n s)" "spool_ok s \<Longrightarrow> spool_ok (disablePrinter n s)"
  unfolding enablePrinter_def disablePrinter_def by (simp_all add: set_enabled_named split: option.splits)

lemma newPrinter_ok:
  assumes "spool_ok s"
  shows "spool_ok (snd (newPrinter n t s))"
  using assms holding_more_printers [of "jobs s" "printers s"]
  by (auto simp: newPrinter_def addPrinter_def spool_ok_def nth_append less_Suc_eq split: option.splits)

lemma set_loop_ok: "\<exists>m. snd (set_loop ns acc s) = s \<or> snd (set_loop ns acc s) = errorMessage m s"
  by (induction ns arbitrary: acc) (auto split: option.splits)

lemma getPrinterSet_ok:
  "spool_ok (snd (getPrinterSet ps s)) = spool_ok s" "types (snd (getPrinterSet ps s)) = types s" "jobs (snd (getPrinterSet ps s)) = jobs s"
  using set_loop_ok [of _ 0 s] by (auto simp: getPrinterSet_def split: option.splits) (metis message_simps)+

lemma newJob_ok:
  assumes s: "spool_ok s" and t: "getType t (types s) \<noteq> None" and nj: "newJob n t 0 pset s = (Some k, s')"
  shows "spool_ok s' \<and> k = length (jobs s) \<and> types s' = types s \<and> length (jobs s') = Suc k \<and> \<not> active (jobs s' ! k) \<and>
    file_type (jobs s' ! k) = t \<and> file_name (jobs s' ! k) = n"
proof -
  define j where "j = \<lparr>jobid = job_index s, status = QUEUED, pgid = 0, file_name = n, file_type = t,
    eligible_printers = pset, chosen_printer = None, creation_time = clock s, change_time = clock s\<rparr>"
  have e: "s' = s\<lparr>job_index := job_index s + 1, jobs := jobs s @ [j]\<rparr>" "k = length (jobs s)"
    using nj by (auto simp: newJob_def addJob_def Let_def j_def split: if_splits)
  have na: "\<not> active j" "pgid j = 0" by (simp_all add: j_def active_def)
  have "holding (jobs s @ [j]) (printers s)" using s holding_more na(1) by (simp add: spool_ok_def)
  moreover have "pids_ok (jobs s @ [j]) (forks s)" using s pids_more [OF _ na(2,1)] by (simp add: spool_ok_def)
  ultimately have "spool_ok s'" using s t unfolding e(1) by (force simp: spool_ok_def j_def)
  then show ?thesis using e na(1) by (simp add: j_def)
qed

text \<open>Printing crashes only without a file name.\<close>

lemma print_ok:
  assumes s: "spool_ok s"
  shows "case print fo ps s of IRet _ s' \<Rightarrow> spool_ok s' | IExit c \<Rightarrow> True | ICrash \<Rightarrow> fo = None"
proof (cases fo)
  case None
  then show ?thesis by (simp add: print_def)
next
  case (Some f)
  obtain name r where n: "strtok ''.'' f = (name, r)" by force
  obtain type r' where t: "strtok ''\<newline>'' r = (type, r')" by force
  obtain pset s1 where ps: "getPrinterSet ps s = (pset, s1)" by force
  have s1: "spool_ok s1" "types s1 = types s" using getPrinterSet_ok [of ps s] s ps by auto
  show ?thesis
  proof (cases "\<exists>a b. name = Some a \<and> type = Some b \<and> getType b (types s) \<noteq> None \<and> pset \<noteq> 0")
    case False
    then show ?thesis using Some n t ps s s1 by (auto simp: print_def Let_def split: option.splits)
  next
    case True
    then obtain a b where ab: "name = Some a" "type = Some b" "getType b (types s) \<noteq> None" "pset \<noteq> 0" by blast
    obtain k s2 where nj: "newJob a b 0 pset s1 = (Some k, s2)" using ab(4) by (auto simp: newJob_def addJob_def Let_def)
    have s2: "spool_ok s2" "types s2 = types s" "length (jobs s2) = Suc k" "\<not> active (jobs s2 ! k)" "file_type (jobs s2 ! k) = b"
      using newJob_ok [OF s1(1) _ nj] ab(3) s1(2) by auto
    let ?s3 = "jobMessage k s2"
    have ty: "getType (file_type (jobs ?s3 ! k)) (types ?s3) \<noteq> None" using s2 ab(3) by simp
    have s3: "spool_ok ?s3" using s2(1) by simp
    obtain po where po: "getEligiblePrinter (jobs ?s3 ! k) ?s3 = IRet po ?s3" by (rule getEligiblePrinter_returns [OF s3 ty])
    have pr: "print fo ps s = (case po of None \<Rightarrow> IRet 0 ?s3 | Some p \<Rightarrow> runJob f k (p_name p) ?s3)"
      using Some n t ps ab nj po by (auto simp: print_def Let_def split: option.splits)
    show ?thesis
    proof (cases po)
      case None
      then show ?thesis using pr s3 by simp
    next
      case (Some p)
      have k3: "k < length (jobs ?s3)" "\<not> active (jobs ?s3 ! k)" using s2(3,4) by simp_all
      show ?thesis
        using pr Some runJob_ok [OF s3 k3, of f "p_name p"] runJob_no_crash [of f k "p_name p" ?s3]
        by (auto split: ires.splits)
    qed
  qed
qed

definition crashing :: "string \<Rightarrow> imp \<Rightarrow> bool" where
  "crashing input s \<longleftrightarrow>
     (case strtok '' '' input of (None, r) \<Rightarrow> False
      | (Some flag1, r) \<Rightarrow>
          fst (strtok '' '' r) = None \<and> (flag1 = ''print'' \<or> printers s \<noteq> [] \<and> (flag1 = ''disable'' \<or> flag1 = ''enable'')))"

text \<open>The result of an operation keeps the invariant, exits, or crashes when \<open>c\<close> holds.\<close>

definition keeps :: "bool \<Rightarrow> 'a ires \<Rightarrow> bool" where
  "keeps c r \<longleftrightarrow> (case r of IRet _ s \<Rightarrow> spool_ok s | IExit _ \<Rightarrow> True | ICrash \<Rightarrow> c)"

lemma keeps_simps [simp]: "keeps c (IRet x s) = spool_ok s" "keeps c (IExit e)" "keeps c ICrash = c"
  by (simp_all add: keeps_def)

lemma keeps_if: "(b \<Longrightarrow> keeps c x) \<Longrightarrow> (\<not> b \<Longrightarrow> keeps c y) \<Longrightarrow> keeps c (if b then x else y)"
  by simp

lemma runCommand_ok:
  assumes s: "spool_ok s"
  shows "keeps (crashing input s) (runCommand input s)"
proof -
  obtain flag r where f: "strtok '' '' input = (flag, r)" by force
  obtain a1 r1 where a1: "strtok '' '' r = (a1, r1)" by force
  obtain a2 r2 where a2: "strtok '' '' r1 = (a2, r2)" by force
  obtain a3 r3 where a3: "strtok '' '' r2 = (a3, r3)" by force
  obtain a4 r4 where a4: "strtok ''\<newline>'' r3 = (a4, r4)" by force
  have te: "spool_ok (s\<lparr>types := snd (newExtension a1 (types s))\<rparr>)"
    using s newExtension_ok newExtension_keeps by (intro types_change_ok) (auto simp: spool_ok_def)
  have tc: "spool_ok (s\<lparr>types := snd (newConversion a1 a2 a3 a4 (types s))\<rparr>)"
    using s newConversion_ok newConversion_keeps by (intro types_change_ok) (auto simp: spool_ok_def)
  have np: "spool_ok (snd (newPrinter a1 a2 s))" by (rule newPrinter_ok [OF s])
  have st: "spool_ok (printerStatus s)" "spool_ok (jobStatus s)" "spool_ok (usage s)"
    using s fold_message_ok [of printerMessage] fold_message_ok [of jobMessage] by (simp_all add: printerStatus_def jobStatus_def usage_def)
  have jc: "spool_ok (job_command c st sg m a s)" for c st sg m a
    using s by (auto simp: job_command_def split: option.splits)
  have op: "keeps (a1 = None \<and> printers s \<noteq> []) (on_printer g a1 s)"
    if "\<And>n. spool_ok (g n s)" for g using that s by (auto simp: on_printer_def split: option.splits)
  have oe: "keeps (a1 = None \<and> printers s \<noteq> []) (on_printer enablePrinter a1 s)"
    using op [of enablePrinter] enable_ok(1) [OF s] by blast
  have od: "keeps (a1 = None \<and> printers s \<noteq> []) (on_printer disablePrinter a1 s)"
    using op [of disablePrinter] enable_ok(2) [OF s] by blast
  have pc: "keeps (a1 = None) (case print a1 l s of IRet _ s \<Rightarrow> IRet () s | IExit c \<Rightarrow> IExit c | ICrash \<Rightarrow> ICrash)" for l
    using print_ok [OF s, of a1 l] by (simp split: ires.splits)
  obtain m1 ts1 where e1: "newExtension a1 (types s) = (m1, ts1)" by force
  obtain m2 ts2 where e2: "newConversion a1 a2 a3 a4 (types s) = (m2, ts2)" by force
  obtain o1 s1 where e3: "newPrinter a1 a2 s = (o1, s1)" by force
  note te' = te [unfolded e1 snd_conv] and tc' = tc [unfolded e2 snd_conv] and np' = np [unfolded e3 snd_conv]
  show ?thesis
  proof (cases flag)
    case None
    then show ?thesis using f s by (simp add: runCommand_def)
  next
    case (Some fl)
    show ?thesis
      unfolding runCommand_def crashing_def f Some Let_def a1 a2 a3 a4 e1 e2 e3 prod.case option.case fst_conv
      by (intro keeps_if)
        (use te' tc' np' st jc oe od pc s in \<open>simp_all split: option.splits\<close>)
  qed
qed

end
