(* ===== verification/Printer_Theorems.thy ===== *)
theory Printer_Theorems
  imports Printer_Invariant
begin

section \<open>Printer spooler: correctness\<close>

text \<open>
  The spooler as a state machine: commands, changes of its child processes and the passing of time
  are its steps. The invariant holds in every reachable state; the theorems after it say which
  commands crash, what the queue and the clean-up do, and where the code goes wrong.
\<close>

subsection \<open>Steps\<close>

text \<open>The changes of state that a child in a given status can report.\<close>

fun possible :: "wait_event \<Rightarrow> JOB_STATUS \<Rightarrow> bool" where
  "possible (Exited c) st \<longleftrightarrow> st = RUNNING \<and> (c = 0 \<or> c = 1)"
| "possible Stopped st \<longleftrightarrow> st = RUNNING"
| "possible Continued st \<longleftrightarrow> st = PAUSED"
| "possible Signaled st \<longleftrightarrow> st = RUNNING \<or> st = PAUSED"
| "possible NoChild st \<longleftrightarrow> False"

inductive spool_step :: "imp \<Rightarrow> imp \<Rightarrow> bool" where
  command: "main_step input s = IRet () s' \<Longrightarrow> spool_step s s'"
| batch: "runCommand input s = IRet () s' \<Longrightarrow> spool_step s s'"
| child: "k < length (jobs s) \<Longrightarrow> possible e (status (jobs s ! k)) \<Longrightarrow>
    printHandler e (pgid (jobs s ! k)) s = IRet () s' \<Longrightarrow> spool_step s s'"
| tick: "clock s \<le> t \<Longrightarrow> spool_step s (s\<lparr>clock := t\<rparr>)"

inductive spool_reach :: "imp \<Rightarrow> imp \<Rightarrow> bool" for s0 where
  init: "spool_reach s0 s0"
| step: "spool_reach s0 s \<Longrightarrow> spool_step s s' \<Longrightarrow> spool_reach s0 s'"

inductive_cases spool_stepE: "spool_step s s'"

definition spool_start :: "int list \<Rightarrow> imp" where
  "spool_start pids = \<lparr>types = [], printers = [], jobs = [], job_index = 0, clock = 0, forks = pids, out = []\<rparr>"

lemma spool_start_ok: "distinct pids \<Longrightarrow> \<forall>f\<in>set pids. 0 < f \<Longrightarrow> spool_ok (spool_start pids)"
  by (simp add: spool_start_def spool_ok_def types_ok_def holding_def pids_ok_def)

subsection \<open>The signal handler\<close>

lemma status_change_ok:
  assumes s: "spool_ok s" and k: "k < length (jobs s)" "active (jobs s ! k)" and st: "st = RUNNING \<or> st = PAUSED"
  shows "spool_ok (set_status k st s)"
proof -
  let ?js = "(jobs s)[k := (jobs s ! k)\<lparr>status := st, change_time := clock s\<rparr>]"
  have a: "active (?js ! l) = active (jobs s ! l)" "pgid (?js ! l) = pgid (jobs s ! l)" "chosen_printer (?js ! l) = chosen_printer (jobs s ! l)"
    if "l < length (jobs s)" for l using that k st by (cases "l = k"; auto simp: active_def)+
  have "holding ?js (printers s)" by (rule holding_same [of "jobs s" "printers s"]) (use s a in \<open>auto simp: spool_ok_def\<close>)
  moreover have "pids_ok ?js (forks s)" by (rule pids_same [of "jobs s"]) (use s a in \<open>auto simp: spool_ok_def\<close>)
  moreover have "map jobid ?js = map jobid (jobs s)" using s k(1) by (intro jobs_update) (auto simp: spool_ok_def)
  moreover have "\<forall>j\<in>set ?js. jobid j < job_index s \<and> getType (file_type j) (types s) \<noteq> None"
    using s k(1) set_update_subset_insert [of "jobs s" k] by (fastforce simp: spool_ok_def)
  ultimately show ?thesis using s by (simp add: spool_ok_def set_status_def)
qed

lemma finish_state_ok:
  assumes s: "spool_ok s" and k: "k < length (jobs s)" "active (jobs s ! k)" and i: "chosen_printer (jobs s ! k) = Some i"
    and st: "st = COMPLETED \<or> st = ABORTED"
  shows "spool_ok (freePrinter (p_name (printers s ! i)) (jobMessage k (set_status k st s)))"
proof -
  let ?j = "(jobs s ! k)\<lparr>status := st, change_time := clock s\<rparr>"
  let ?js = "(jobs s)[k := ?j]" and ?ps = "(printers s)[i := (printers s ! i)\<lparr>busy := 0\<rparr>]"
  have h: "holding (jobs s) (printers s)" using s by (simp add: spool_ok_def)
  obtain m where m: "m < length (printers s)" "chosen_printer (jobs s ! k) = Some m" "\<forall>l<m. p_name (printers s ! l) \<noteq> p_name (printers s ! m)"
    by (rule holding_active [OF h k])
  then have il: "i < length (printers s)" "\<forall>l<i. p_name (printers s ! l) \<noteq> p_name (printers s ! i)" using i by auto
  have pid: "p_id (printers s ! i) = i" using s il by (simp add: spool_ok_def)
  let ?t = "jobMessage k (set_status k st s)"
  have t: "jobs ?t = ?js" "printers ?t = printers s" "forks ?t = forks s" "types ?t = types s" "job_index ?t = job_index s"
    by (simp_all add: set_status_def)
  have "getPrinter (p_name (printers s ! i)) ?t = Some (printers s ! i)"
    using getPrinter_first [of i ?t] il t(2) by simp
  then have f: "freePrinter (p_name (printers s ! i)) ?t = printerMessage i (?t\<lparr>printers := ?ps\<rparr>)"
    using pid t(2) by (simp add: freePrinter_def)
  have "holding ?js ?ps" using st by (intro holding_end [OF h k i]) (auto simp: active_def)
  moreover have "pids_ok ?js (forks s)"
  proof (rule pids_same [of "jobs s"])
    show "pgid (?js ! l) = pgid (jobs s ! l)" if "l < length (jobs s)" for l using that by (cases "l = k") auto
    show "active (jobs s ! l)" if "l < length (jobs s)" "active (?js ! l)" for l using that st by (cases "l = k") (auto simp: active_def)
  qed (use s in \<open>auto simp: spool_ok_def\<close>)
  moreover have "map jobid ?js = map jobid (jobs s)" using s k(1) by (intro jobs_update) (auto simp: spool_ok_def)
  moreover have "\<forall>j\<in>set ?js. jobid j < job_index s \<and> getType (file_type j) (types s) \<noteq> None"
    using s k(1) set_update_subset_insert [of "jobs s" k ?j] by (fastforce simp: spool_ok_def)
  moreover have "p_id (?ps ! l) = l" if "l < length (printers s)" for l using s that pid by (cases "l = i") (auto simp: spool_ok_def)
  ultimately have "spool_ok (?t\<lparr>printers := ?ps\<rparr>)" using s by (simp add: spool_ok_def set_status_def)
  then show ?thesis by (simp only: f message_simps)
qed

lemma keeps_runJobs: "spool_ok s \<Longrightarrow> keeps False (runJobs s)"
  using runJobs_ok [of s] by (simp add: keeps_def split: ires.splits)

lemma finish_ok:
  assumes s: "spool_ok s" and k: "k < length (jobs s)" "active (jobs s ! k)" and st: "st = COMPLETED \<or> st = ABORTED"
    and c: "change k s = jobMessage k (set_status k st s)"
  shows "keeps False (finish change (pgid (jobs s ! k)) s)"
proof -
  have h: "holding (jobs s) (printers s)" using s by (simp add: spool_ok_def)
  obtain i where i: "chosen_printer (jobs s ! k) = Some i" by (rule holding_active [OF h k])
  have "finish change (pgid (jobs s ! k)) s = runJobs (freePrinter (p_name (printers s ! i)) (jobMessage k (set_status k st s)))"
    using getJobByPID_active [OF s k] i k(1) by (simp add: finish_def c set_status_def)
  then show ?thesis using keeps_runJobs [OF finish_state_ok [OF s k i st]] by simp
qed

lemma printHandler_ok:
  assumes s: "spool_ok s" and k: "k < length (jobs s)" and e: "possible e (status (jobs s ! k))"
  shows "keeps False (printHandler e (pgid (jobs s ! k)) s)"
proof -
  have a: "active (jobs s ! k)" using e by (cases e) (auto simp: active_def)
  note g = getJobByPID_active [OF s k a]
  show ?thesis
  proof (cases e)
    case (Exited c)
    then show ?thesis
      using finish_ok [OF s k a, of COMPLETED completeJob] finish_ok [OF s k a, of ABORTED abortJob] e
      by (auto simp: printHandler_def completeJob_def abortJob_def)
  next
    case Signaled
    then show ?thesis using finish_ok [OF s k a, of ABORTED abortJob] e by (auto simp: printHandler_def abortJob_def)
  qed (use g e s status_change_ok [OF s k a] in \<open>auto simp: printHandler_def pauseJob_def resumeJob_def\<close>)
qed

lemma main_step_ok:
  assumes s: "spool_ok s"
  shows "keeps (crashing input s) (main_step input s)"
  using runCommand_ok [OF s, of input] runJobs_ok removeJobs_ok
  by (auto simp: main_step_def keeps_def split: ires.splits) fastforce+

lemma spool_step_ok: "spool_step s s' \<Longrightarrow> spool_ok s \<Longrightarrow> spool_ok s'"
proof (erule spool_stepE)
  fix input
  show "spool_ok s \<Longrightarrow> main_step input s = IRet () s' \<Longrightarrow> spool_ok s'" using main_step_ok [of s input] by simp
  show "spool_ok s \<Longrightarrow> runCommand input s = IRet () s' \<Longrightarrow> spool_ok s'" using runCommand_ok [of s input] by simp
next
  fix k e
  show "spool_ok s \<Longrightarrow> k < length (jobs s) \<Longrightarrow> possible e (status (jobs s ! k)) \<Longrightarrow> printHandler e (pgid (jobs s ! k)) s = IRet () s' \<Longrightarrow> spool_ok s'"
    using printHandler_ok [of s k e] by simp
qed (simp add: spool_ok_def)

lemma spool_reach_ok: "spool_reach s0 s \<Longrightarrow> spool_ok s0 \<Longrightarrow> spool_ok s"
  by (induction rule: spool_reach.induct) (auto dest: spool_step_ok)

subsection \<open>What running the queue does\<close>

lemma runJob_cases:
  assumes s: "spool_ok s" and k: "k < length (jobs s)" and p: "getPrinter n s = Some p" "busy p = 0" and f: "forks s = f # fs" "0 < f"
  shows "\<exists>j s'. runJob file k n s = IRet f s' \<and> jobs s' = (jobs s)[k := j] \<and> active j \<and>
    printers s' = (printers s)[p_id p := (printers s ! p_id p)\<lparr>busy := 1\<rparr>] \<and> forks s' = fs \<and> types s' = types s"
proof -
  define j where "j = (jobs s ! k)\<lparr>status := RUNNING, chosen_printer := Some (p_id p), change_time := clock s\<rparr>"
  have sp: "getPrinter n (jobMessage k (upd_job k (\<lambda>x. j) s)) = Some p" using p(1) by (simp add: getPrinter_def)
  show ?thesis
    using p f k busyPrinter_eq [OF sp]
    by (intro exI [of _ "j\<lparr>pgid := f\<rparr>"]) (simp add: runJob_def runJobProcess_def Let_def j_def active_def)
qed

text \<open>No enabled, eligible printer of the job's own type is free.\<close>

definition nofree :: "JOB \<Rightarrow> PRINTER list \<Rightarrow> bool" where
  "nofree j ps \<longleftrightarrow> (\<forall>p\<in>set ps. \<not> (usable j p \<and> busy p = 0 \<and> p_type p = file_type j))"

lemma free_loop_None: "free_loop j t ps = None \<longleftrightarrow> (\<forall>p\<in>set ps. \<not> (usable j p \<and> busy p = 0 \<and> p_type p = t))"
  by (induction ps) auto

lemma free_loop_Some: "free_loop j t ps = Some p \<Longrightarrow> p \<in> set ps \<and> usable j p \<and> busy p = 0 \<and> p_type p = t"
  by (induction ps) (auto split: if_splits)

lemma nofree_busier:
  assumes "nofree j ps" "i < length ps"
  shows "nofree j (ps[i := (ps ! i)\<lparr>busy := 1\<rparr>])"
  using assms set_update_subset_insert [of ps i "(ps ! i)\<lparr>busy := 1\<rparr>"] unfolding nofree_def by fastforce

lemma eligible_free:
  assumes "getType (file_type j) (types s) \<noteq> None" "\<not> nofree j (printers s)"
  shows "\<exists>p. getEligiblePrinter j s = IRet (Some p) s \<and> p \<in> set (printers s) \<and> busy p = 0"
proof -
  obtain t where t: "getType (file_type j) (types s) = Some t" using assms(1) by blast
  then have "t_type t = file_type j" using ty.look_Some by (auto simp: getType_def)
  then obtain p where "free_loop j (t_type t) (printers s) = Some p"
    using assms(2) free_loop_None [of j "t_type t" "printers s"] by (cases "free_loop j (t_type t) (printers s)") (auto simp: nofree_def)
  then show ?thesis using t free_loop_Some by (auto simp: getEligiblePrinter_def)
qed

lemma getPrinter_distinct:
  "distinct (map p_name (printers s)) \<Longrightarrow> p \<in> set (printers s) \<Longrightarrow> getPrinter (p_name p) s = Some p"
  unfolding getPrinter_def by (rule pr.look_distinct)

lemma runJobs_loop_serves:
  "spool_ok s \<Longrightarrow> distinct (map p_name (printers s)) \<Longrightarrow> distinct ks \<Longrightarrow> \<forall>k\<in>set ks. k < length (jobs s) \<Longrightarrow> length ks \<le> length (forks s) \<Longrightarrow>
     D \<inter> set ks = {} \<Longrightarrow> \<forall>k\<in>D. k < length (jobs s) \<and> (status (jobs s ! k) = QUEUED \<longrightarrow> nofree (jobs s ! k) (printers s)) \<Longrightarrow>
     \<exists>s'. runJobs_loop ks s = IRet () s' \<and> length (jobs s') = length (jobs s) \<and>
       (\<forall>k\<in>D \<union> set ks. status (jobs s' ! k) = QUEUED \<longrightarrow> nofree (jobs s' ! k) (printers s'))"
proof (induction ks arbitrary: s D)
  case (Cons k ks)
  have k: "k < length (jobs s)" "k \<notin> D" using Cons.prems by auto
  have go: "\<exists>s'. runJobs_loop ks t = IRet () s' \<and> length (jobs s') = length (jobs s) \<and>
       (\<forall>k\<in>D \<union> set (k # ks). status (jobs s' ! k) = QUEUED \<longrightarrow> nofree (jobs s' ! k) (printers s'))"
    if t: "spool_ok t" "map p_name (printers t) = map p_name (printers s)" "length (jobs t) = length (jobs s)" "length ks \<le> length (forks t)"
      "\<forall>l\<in>insert k D. status (jobs t ! l) = QUEUED \<longrightarrow> nofree (jobs t ! l) (printers t)" for t
    using Cons.IH [of t "insert k D"] Cons.prems t k by auto
  show ?case
  proof (cases "status (jobs s ! k) = QUEUED")
    case False
    then show ?thesis using go [of s] Cons.prems by simp
  next
    case Q: True
    have ty: "getType (file_type (jobs s ! k)) (types s) \<noteq> None" using Cons.prems(1) k by (simp add: spool_ok_def)
    obtain po where po: "getEligiblePrinter (jobs s ! k) s = IRet po s" by (rule getEligiblePrinter_returns [OF Cons.prems(1) ty])
    show ?thesis
    proof (cases "\<exists>p q. po = Some p \<and> getPrinter (p_name p) s = Some q \<and> busy q = 0")
      case False
      then have "nofree (jobs s ! k) (printers s)"
        using eligible_free [OF ty] po getPrinter_distinct [OF Cons.prems(2)] by fastforce
      moreover have "\<And>p. po = Some p \<Longrightarrow> runJob f k (p_name p) s = IRet 0 s" for f
        using False by (auto simp: runJob_def split: option.splits)
      ultimately show ?thesis using go [of s] Cons.prems Q po by (cases po) auto
    next
      case True
      then obtain p q where pq: "po = Some p" "getPrinter (p_name p) s = Some q" "busy q = 0" by blast
      obtain f fs where f: "forks s = f # fs" using Cons.prems(5) by (cases "forks s") auto
      have "0 < f" using Cons.prems(1) f by (simp add: spool_ok_def pids_ok_def)
      then obtain j t where r: "runJob (getFile (jobs s ! k)) k (p_name p) s = IRet f t" "jobs t = (jobs s)[k := j]" "active j"
        "printers t = (printers s)[p_id q := (printers s ! p_id q)\<lparr>busy := 1\<rparr>]" "forks t = fs"
        using runJob_cases [OF Cons.prems(1) k(1) pq(2,3) f] by blast
      have qi: "p_id q < length (printers s)" using getPrinter_Some [OF Cons.prems(1) pq(2)] by simp
      have t: "spool_ok t" "length (jobs t) = length (jobs s)" using runJob_ok [OF Cons.prems(1) k(1) _ r(1)] Q by (auto simp: active_def)
      have nm: "map p_name (printers t) = map p_name (printers s)"
        unfolding r(4) map_update using qi by (metis list_update_id nth_map PRINTER.ext_inject PRINTER.surjective PRINTER.update_convs(5))
      have "\<forall>l\<in>insert k D. status (jobs t ! l) = QUEUED \<longrightarrow> nofree (jobs t ! l) (printers t)"
      proof
        fix l
        assume l: "l \<in> insert k D"
        show "status (jobs t ! l) = QUEUED \<longrightarrow> nofree (jobs t ! l) (printers t)"
        proof (cases "l = k")
          case True
          then show ?thesis using r(2,3) k(1) by (auto simp: active_def)
        next
          case False
          then show ?thesis using l Cons.prems(7) r(2,4) nofree_busier [OF _ qi] by auto
        qed
      qed
      then show ?thesis using go [OF t(1) nm t(2)] Cons.prems(5) f r(1,5) Q po pq(1) by simp
    qed
  qed
qed auto

subsection \<open>File names\<close>

lemma strtok_dot:
  "strtok ''.'' f = (if dropWhile (\<lambda>c. c = CHR ''.'') f = [] then (None, [])
     else (Some (takeWhile (\<lambda>c. c \<noteq> CHR ''.'') (dropWhile (\<lambda>c. c = CHR ''.'') f)),
           drop 1 (dropWhile (\<lambda>c. c \<noteq> CHR ''.'') (dropWhile (\<lambda>c. c = CHR ''.'') f))))"
  by (simp add: strtok_def Let_def)

lemma takeWhile_drop_dot:
  "CHR ''.'' \<in> set g \<Longrightarrow> takeWhile (\<lambda>c. c \<noteq> CHR ''.'') g @ ''.'' @ drop 1 (dropWhile (\<lambda>c. c \<noteq> CHR ''.'') g) = g"
  by (induction g) auto

lemma strtok_newline:
  "CHR ''\<newline>'' \<notin> set r \<Longrightarrow> r \<noteq> [] \<Longrightarrow> fst (strtok ''\<newline>'' r) = Some r"
proof -
  assume n: "CHR ''\<newline>'' \<notin> set r" "r \<noteq> []"
  then have "dropWhile (\<lambda>c. c = CHR ''\<newline>'') r = r" by (cases r) auto
  then show ?thesis using n by (auto simp: strtok_def Let_def takeWhile_eq_all_conv)
qed

lemma runJob_keeps_file:
  assumes "runJob file k n s = IRet c s'" "l < length (jobs s)"
  shows "getFile (jobs s' ! l) = getFile (jobs s ! l) \<and> length (jobs s') = length (jobs s)"
  using assms
  by (cases "l = k")
    (auto simp: runJob_def runJobProcess_def Let_def busyPrinter_def getFile_def split: option.splits list.splits if_splits)

lemma getPrinterSet_jobs: "jobs (snd (getPrinterSet ps s)) = jobs s"
proof (cases ps)
  case (Some l)
  show ?thesis using set_loop_ok [of "strtok_all '' '' l" 0 s] Some by (auto simp: getPrinterSet_def)
qed (simp add: getPrinterSet_def)

lemma getEligiblePrinter_jobs: "getEligiblePrinter j s = IRet po t \<Longrightarrow> jobs t = jobs s"
  by (auto simp: getEligiblePrinter_def split: option.splits ptr_res.splits)

subsection \<open>The process of a job and batch files\<close>

lemma stage_ok_iff: "stage_ok st \<longleftrightarrow> st \<noteq> ForkFailed \<and> st \<noteq> Ran (WExited 1)"
  by (auto simp: stage_ok_def split: stage.splits wstatus.splits)

lemma conversion_stages_iff:
  "conversion_stages run pipes i cs \<longleftrightarrow> (\<forall>k<length cs. (0 < k \<longrightarrow> pipes (i + k)) \<and> stage_ok (run (i + k)))"
proof (induction run pipes i cs rule: conversion_stages.induct)
  case (2 run pipes i c cs)
  have "(\<forall>k<Suc n. P k) \<longleftrightarrow> P 0 \<and> (\<forall>k<n. P (Suc k))" for P n by (metis Suc_less_eq not0_implies_Suc zero_less_Suc)
  then show ?case using 2 by (cases cs) auto
qed simp

fun run_lines :: "string list \<Rightarrow> imp \<Rightarrow> unit ires" where
  "run_lines [] s = IRet () s"
| "run_lines (l # ls) s =
     (case runCommand l (say (Batch l) s) of IRet _ s \<Rightarrow> run_lines ls s | IExit c \<Rightarrow> IExit c | ICrash \<Rightarrow> ICrash)"

lemma fgets_Nil: "fgets n [] = ([], [])"
  by (cases n) simp_all

lemma fgets_line: "CHR ''\<newline>'' \<notin> set l \<Longrightarrow> length l < n \<Longrightarrow> fgets n (l @ ''\<newline>'' @ r) = (l @ ''\<newline>'', r)"
  by (induction n l rule: fgets.induct) auto

lemma strtok_line:
  assumes "CHR ''\<newline>'' \<notin> set l" "l \<noteq> []"
  shows "fst (strtok ''\<newline>'' (l @ ''\<newline>'')) = Some l"
proof -
  have "dropWhile (\<lambda>c. c = CHR ''\<newline>'') (l @ ''\<newline>'') = l @ ''\<newline>''" using assms by (cases l) auto
  moreover have "takeWhile (\<lambda>c. c \<noteq> CHR ''\<newline>'') (l @ ''\<newline>'') = l" using assms by (subst takeWhile_append2) auto
  ultimately show ?thesis using assms by (auto simp: strtok_def Let_def)
qed

lemma batch_loop_line:
  assumes "CHR ''\<newline>'' \<notin> set l" "l \<noteq> []" "length l < MAX_CHARS - 1"
  shows "batch_loop (l @ ''\<newline>'' @ r) s =
    (case runCommand l (say (Batch l) s) of IRet _ s \<Rightarrow> batch_loop r s | IExit c \<Rightarrow> IExit c | ICrash \<Rightarrow> ICrash)"
proof -
  obtain c cs where l: "l = c # cs" using assms(2) by (cases l) auto
  obtain x where x: "strtok ''\<newline>'' (c # cs @ ''\<newline>'') = (Some l, x)" using strtok_line [OF assms(1,2)] l by (metis append_Cons prod.collapse)
  show ?thesis
    by (subst batch_loop.simps, subst fgets_line [OF assms(1,3)]) (simp add: l x [unfolded l])
qed

subsection \<open>Properties\<close>


text \<open>The state after a list of command lines, if each of them returns.\<close>

fun run_all :: "string list \<Rightarrow> imp \<Rightarrow> imp option" where
  "run_all [] s = Some s"
| "run_all (l # ls) s = (case runCommand l s of IRet _ s \<Rightarrow> run_all ls s | _ \<Rightarrow> None)"

lemma run_all_reach: "spool_reach s0 s \<Longrightarrow> run_all ls s = Some s' \<Longrightarrow> spool_reach s0 s'"
proof (induction ls arbitrary: s)
  case (Cons l ls)
  obtain t where t: "runCommand l s = IRet () t" "run_all ls t = Some s'" using Cons.prems(2) by (auto split: ires.splits)
  show ?case using Cons.IH [OF spool_reach.step [OF Cons.prems(1) spool_step.batch [OF t(1)]] t(2)] .
qed simp

definition demo_run :: imp where
  "demo_run = the (run_all [''type txt'', ''printer p txt'', ''enable p'', ''print a.txt''] (spool_start [7, 8]))"

lemma demo_run_reach: "spool_reach (spool_start [7, 8]) demo_run"
proof -
  have "run_all [''type txt'', ''printer p txt'', ''enable p'', ''print a.txt''] (spool_start [7, 8]) = Some demo_run"
    by code_simp
  then show ?thesis using run_all_reach [OF spool_reach.init] by blast
qed

lemma demo_run_ok: "spool_ok demo_run"
  using spool_reach_ok [OF demo_run_reach spool_start_ok] by simp

lemma demo_run_jobs: "map status (jobs demo_run) = [RUNNING]" "map busy (printers demo_run) = [1]"
  by code_simp+


text \<open>The same state after the process of its job has stopped, and a minute after it has ended.\<close>

definition demo_after :: "wait_event \<Rightarrow> imp" where
  "demo_after e = (case printHandler e 7 demo_run of IRet _ s \<Rightarrow> s\<lparr>clock := 60\<rparr> | _ \<Rightarrow> demo_run)"

lemma demo_after_ok:
  assumes "possible e RUNNING"
  shows "spool_ok (demo_after e)"
proof -
  have j: "length (jobs demo_run) = 1" "status (jobs demo_run ! 0) = RUNNING" "pgid (jobs demo_run ! 0) = 7" by code_simp+
  have "keeps False (printHandler e 7 demo_run)" using printHandler_ok [OF demo_run_ok, of 0 e] j assms by simp
  moreover have "spool_ok s \<Longrightarrow> spool_ok (s\<lparr>clock := t\<rparr>)" for s t by (simp add: spool_ok_def)
  ultimately show ?thesis using demo_run_ok by (auto simp: demo_after_def split: ires.splits)
qed

text \<open>C36: a command line makes the spooler dereference NULL exactly when it is \<open>print\<close> without a file, or
  \<open>enable\<close> or \<open>disable\<close> without a name while there is a printer.\<close>

theorem command_crashes:
  assumes "spool_ok s"
  shows "runCommand input s = ICrash \<longleftrightarrow> crashing input s"
proof
  assume "runCommand input s = ICrash"
  then show "crashing input s" using runCommand_ok [OF assms, of input] by simp
next
  assume c: "crashing input s"
  obtain flag r where f: "strtok '' '' input = (Some flag, r)" using c by (force simp: crashing_def split: prod.splits option.splits)
  obtain r1 where r1: "strtok '' '' r = (None, r1)" using c f by (cases "strtok '' '' r") (auto simp: crashing_def)
  have on: "on_printer g None s = ICrash" if "printers s \<noteq> []" for g using that by (simp add: on_printer_def)
  have pr: "print None l s = ICrash" for l by (simp add: print_def)
  have "flag = ''print'' \<or> printers s \<noteq> [] \<and> (flag = ''disable'' \<or> flag = ''enable'')" using c f by (simp add: crashing_def)
  then show "runCommand input s = ICrash"
    by (elim disjE conjE) (simp_all add: runCommand_def f r1 Let_def on pr case_prod_beta)
qed

theorem command_crashes_witness:
  "spool_ok demo_run \<and> runCommand ''enable'' demo_run = ICrash \<and> runCommand ''enable q'' demo_run \<noteq> ICrash"
proof -
  have "crashing ''enable'' demo_run" "\<not> crashing ''enable q'' demo_run" by code_simp+
  then show ?thesis using command_crashes [OF demo_run_ok] demo_run_ok by blast
qed

text \<open>When a child reports a change that its job's status allows, the handler finds the job, does not
  crash and keeps the invariant.\<close>

theorem handler_safe:
  assumes "spool_ok s" "k < length (jobs s)" "possible e (status (jobs s ! k))"
  shows "case printHandler e (pgid (jobs s ! k)) s of IRet _ s' \<Rightarrow> spool_ok s' | IExit _ \<Rightarrow> True | ICrash \<Rightarrow> False"
  using printHandler_ok [OF assms] by (simp add: keeps_def)

theorem handler_safe_witness:
  "case printHandler (Exited 0) (pgid (jobs demo_run ! 0)) demo_run of IRet _ s' \<Rightarrow> spool_ok s' | IExit _ \<Rightarrow> True | ICrash \<Rightarrow> False"
proof (rule handler_safe [OF demo_run_ok])
  have "length (jobs demo_run) = 1" "status (jobs demo_run ! 0) = RUNNING" by code_simp+
  then show "0 < length (jobs demo_run)" "possible (Exited 0) (status (jobs demo_run ! 0))" by simp_all
qed

text \<open>C20: the clean-up is a filter: the jobs that completed or aborted at least 60 seconds ago go, every
  other job stays, in order.\<close>

theorem removeJobs_is_filter:
  assumes "spool_ok s"
  shows "removeJobs s = s\<lparr>jobs := filter (\<lambda>j. \<not> ((status j = COMPLETED \<or> status j = ABORTED) \<and> clock s - change_time j \<ge> 60)) (jobs s)\<rparr>"
proof -
  have "jobs (removeJobs s) = filter (\<lambda>j. \<not> expired (clock s) j) (jobs s)"
    using assms by (intro removeJobs_filter) (simp add: spool_ok_def)
  then show ?thesis unfolding removeJobs_def expired_def by simp
qed

theorem removeJobs_is_filter_witness:
  "length (jobs (demo_after (Exited 0))) = 1 \<and> jobs (removeJobs (demo_after (Exited 0))) = []"
proof -
  have o: "spool_ok (demo_after (Exited 0))" by (rule demo_after_ok) simp
  have "length (jobs (demo_after (Exited 0))) = 1"
    "filter (\<lambda>j. \<not> ((status j = COMPLETED \<or> status j = ABORTED) \<and> clock (demo_after (Exited 0)) - change_time j \<ge> 60)) (jobs (demo_after (Exited 0))) = []"
    by code_simp+
  then show ?thesis using removeJobs_is_filter [OF o] by simp
qed

text \<open>C8: after a pass over the queue, when printer names are distinct and \<open>fork\<close> works for every job, no
  job is left waiting while an enabled and eligible printer of its type is free.\<close>

theorem queue_served:
  assumes "spool_ok s" "distinct (map p_name (printers s))" "length (jobs s) \<le> length (forks s)"
  shows "\<exists>s'. runJobs s = IRet () s' \<and> length (jobs s') = length (jobs s) \<and>
    (\<forall>j\<in>set (jobs s'). status j = QUEUED \<longrightarrow>
       (\<forall>p\<in>set (printers s'). enabled p \<noteq> 0 \<longrightarrow> eligible_printers j AND push_bit (p_id p) 1 \<noteq> 0 \<longrightarrow> p_type p = file_type j \<longrightarrow> busy p \<noteq> 0))"
proof -
  obtain s' where s': "runJobs s = IRet () s'" "length (jobs s') = length (jobs s)"
    "\<forall>k\<in>{} \<union> set [0..<length (jobs s)]. status (jobs s' ! k) = QUEUED \<longrightarrow> nofree (jobs s' ! k) (printers s')"
    using runJobs_loop_serves [OF assms(1,2), of "[0..<length (jobs s)]" "{}"] assms(3) unfolding runJobs_def by auto
  have "nofree j (printers s')" if "j \<in> set (jobs s')" "status j = QUEUED" for j
    using that s'(2,3) by (auto simp: in_set_conv_nth)
  then show ?thesis using s'(1,2) unfolding nofree_def usable_def by blast
qed

theorem queue_served_witness:
  "\<exists>s'. runJobs demo_run = IRet () s' \<and> length (jobs s') = length (jobs demo_run) \<and>
    (\<forall>j\<in>set (jobs s'). status j = QUEUED \<longrightarrow>
       (\<forall>p\<in>set (printers s'). enabled p \<noteq> 0 \<longrightarrow> eligible_printers j AND push_bit (p_id p) 1 \<noteq> 0 \<longrightarrow> p_type p = file_type j \<longrightarrow> busy p \<noteq> 0))"
proof (rule queue_served [OF demo_run_ok])
  show "distinct (map p_name (printers demo_run))" "length (jobs demo_run) \<le> length (forks demo_run)" by code_simp+
qed

text \<open>A job that was stopped and whose process has ended before \<open>SIGCHLD\<close> is handled, so that
  its continuation is not reported, stays paused for ever, and its printer is freed: the invariant is lost.\<close>

theorem exit_while_paused:
  assumes s: "spool_ok s" and k: "k < length (jobs s)" "status (jobs s ! k) = PAUSED" "chosen_printer (jobs s ! k) = Some i"
    and q: "\<forall>j\<in>set (jobs s). status j \<noteq> QUEUED"
  shows "\<exists>s'. printHandler (Exited 0) (pgid (jobs s ! k)) s = IRet () s' \<and> jobs s' = jobs s \<and>
    busy (printers s' ! i) = 0 \<and> \<not> spool_ok s'"
proof -
  have a: "active (jobs s ! k)" using k(2) by (simp add: active_def)
  have h: "holding (jobs s) (printers s)" using s by (simp add: spool_ok_def)
  have i: "i < length (printers s)" "\<forall>l<i. p_name (printers s ! l) \<noteq> p_name (printers s ! i)"
    using holding_active [OF h k(1) a] k(3) by auto
  let ?t = "errorMessage ''This job is not running.'' s"
  let ?u = "printerMessage i (?t\<lparr>printers := (printers s)[i := (printers s ! i)\<lparr>busy := 0\<rparr>]\<rparr>)"
  have "getPrinter (p_name (printers s ! i)) ?t = Some (printers s ! i)" using getPrinter_first [of i ?t] i by simp
  then have f: "freePrinter (p_name (printers s ! i)) ?t = ?u" using s i by (simp add: freePrinter_def spool_ok_def)
  have r: "runJobs_loop ks ?u = IRet () ?u" if "\<forall>l\<in>set ks. l < length (jobs s)" for ks
    using that q by (induction ks) simp_all
  have "printHandler (Exited 0) (pgid (jobs s ! k)) s = IRet () ?u"
    using getJobByPID_active [OF s k(1) a] k f r [of "[0..<length (jobs s)]"]
    by (simp add: printHandler_def finish_def completeJob_def runJobs_def)
  moreover have "\<not> holding (jobs ?u) (printers ?u)" using k(1,3) a i unfolding holding_def by auto
  ultimately show ?thesis using i by (auto simp: spool_ok_def)
qed

theorem exit_while_paused_witness:
  "\<exists>s'. printHandler (Exited 0) 7 (demo_after Stopped) = IRet () s' \<and> jobs s' = jobs (demo_after Stopped) \<and>
    busy (printers s' ! 0) = 0 \<and> \<not> spool_ok s'"
proof -
  have j: "0 < length (jobs (demo_after Stopped))" "status (jobs (demo_after Stopped) ! 0) = PAUSED"
    "chosen_printer (jobs (demo_after Stopped) ! 0) = Some 0" "\<forall>j\<in>set (jobs (demo_after Stopped)). status j \<noteq> QUEUED"
    "pgid (jobs (demo_after Stopped) ! 0) = 7"
    by code_simp+
  have o: "spool_ok (demo_after Stopped)" by (rule demo_after_ok) simp
  show ?thesis using exit_while_paused [OF o j(1-4)] by (simp only: j(5))
qed

text \<open>The job that \<open>print\<close> makes for a file keeps its name without the leading dots: a job that is
  queued and run later opens another file than the one given.\<close>

theorem queued_file_name:
  assumes "print (Some f) ps s = IRet c s'" "length (jobs s') = Suc (length (jobs s))" "CHR ''\<newline>'' \<notin> set f"
  shows "getFile (last (jobs s')) = dropWhile (\<lambda>c. c = CHR ''.'') f"
proof -
  let ?g = "dropWhile (\<lambda>c. c = CHR ''.'') f"
  obtain name r where n: "strtok ''.'' f = (name, r)" by force
  obtain type r' where t: "strtok ''\<newline>'' r = (type, r')" by force
  obtain pset s1 where ps: "getPrinterSet ps s = (pset, s1)" by force
  have s1: "jobs s1 = jobs s" using getPrinterSet_jobs [of ps s] ps by simp
  have "\<exists>a b. name = Some a \<and> type = Some b \<and> getType b (types s) \<noteq> None \<and> pset \<noteq> 0"
  proof (rule ccontr)
    assume "\<not> ?thesis"
    then have "jobs s' = jobs s" using assms(1) n t ps s1 by (auto simp: print_def Let_def split: option.splits if_splits)
    then show False using assms(2) by simp
  qed
  then obtain a b where ab: "name = Some a" "type = Some b" "getType b (types s) \<noteq> None" "pset \<noteq> 0" by blast
  obtain k s2 where nj: "newJob a b 0 pset s1 = (Some k, s2)" using ab(4) by (auto simp: newJob_def addJob_def Let_def)
  have s2: "length (jobs s2) = Suc k" "k = length (jobs s)" "getFile (jobs s2 ! k) = a @ ''.'' @ b"
    using nj ab(4) s1 by (auto simp: newJob_def addJob_def Let_def getFile_def)
  have a: "?g \<noteq> []" "a = takeWhile (\<lambda>c. c \<noteq> CHR ''.'') ?g" "r = drop 1 (dropWhile (\<lambda>c. c \<noteq> CHR ''.'') ?g)"
    using n ab(1) by (auto simp: strtok_dot split: if_splits)
  have r: "r \<noteq> []" using t ab(2) by (auto simp: strtok_def)
  have sub: "set r \<subseteq> set f" unfolding a(3) by (meson in_set_dropD set_dropWhileD subsetI)
  then have b: "b = r" using strtok_newline [OF _ r] t ab(2) assms(3) by auto
  have "CHR ''.'' \<in> set ?g"
  proof (rule ccontr)
    assume "CHR ''.'' \<notin> set ?g"
    then have "dropWhile (\<lambda>c. c \<noteq> CHR ''.'') ?g = []" by (auto simp: dropWhile_eq_Nil_conv)
    then show False using r a(3) by (metis drop_Nil)
  qed
  then have g: "a @ ''.'' @ b = ?g" using takeWhile_drop_dot a(2,3) b by metis
  let ?s3 = "jobMessage k s2"
  have "print (Some f) ps s =
      (case getEligiblePrinter (jobs ?s3 ! k) ?s3 of IRet (Some p) u \<Rightarrow> runJob f k (p_name p) u
       | IRet None u \<Rightarrow> IRet 0 u | IExit c \<Rightarrow> IExit c | ICrash \<Rightarrow> ICrash)"
    unfolding print_def option.case n t ps nj ab(1,2) Let_def prod.case using ab(3,4) by (auto simp: nj)
  then obtain po u where u: "getEligiblePrinter (jobs ?s3 ! k) ?s3 = IRet po u"
    "case po of None \<Rightarrow> s' = u | Some p \<Rightarrow> runJob f k (p_name p) u = IRet c s'"
    using assms(1) by (cases "getEligiblePrinter (jobs ?s3 ! k) ?s3") (auto split: option.splits)
  have "jobs u = jobs s2" using getEligiblePrinter_jobs [OF u(1)] by simp
  then have "getFile (jobs s' ! k) = getFile (jobs s2 ! k) \<and> length (jobs s') = length (jobs s2)"
    using u(2) runJob_keeps_file [of f k _ u c s' k] s2(1) by (cases po) auto
  moreover have "last (jobs s') = jobs s' ! k" using assms(2) s2(2) by (cases "jobs s' = []") (auto simp: last_conv_nth)
  ultimately show ?thesis using s2 g by simp
qed

text \<open>A relative path, printed while the printer is busy.\<close>

theorem queued_file_name_witness:
  "\<exists>s'. print (Some ''./a.txt'') None demo_run = IRet 0 s' \<and> getFile (last (jobs s')) = ''/a.txt''"
proof -
  obtain s' where p: "print (Some ''./a.txt'') None demo_run = IRet 0 s'" "length (jobs s') = Suc (length (jobs demo_run))"
  proof -
    have "case print (Some ''./a.txt'') None demo_run of IRet c s' \<Rightarrow> c = 0 \<and> length (jobs s') = Suc (length (jobs demo_run)) | _ \<Rightarrow> False"
      by code_simp
    then show thesis using that by (cases "print (Some ''./a.txt'') None demo_run") auto
  qed
  then show ?thesis using queued_file_name [OF p] by simp
qed

text \<open>The process of a job reports success exactly when the file opens, every pipe is made, and neither a
  conversion nor the printing process fails to start or exits with code 1; one that is killed by
  a signal, or exits with another code, counts as success.\<close>

theorem job_process_success:
  "job_process opened pipes run printing path = 0 \<longleftrightarrow>
     opened \<and> pipes 0 \<and> (\<forall>i<length (case path of None \<Rightarrow> [] | Some cs \<Rightarrow> cs). (0 < i \<longrightarrow> pipes i) \<and> run i \<noteq> ForkFailed \<and> run i \<noteq> Ran (WExited 1)) \<and>
     printing \<noteq> ForkFailed \<and> printing \<noteq> Ran (WExited 1)"
  by (auto simp: job_process_def conversion_stages_iff stage_ok_iff)

theorem job_process_success_witness:
  "job_process True (\<lambda>i. True) (\<lambda>i. Ran WSignaled) (Ran (WExited 0)) (Some [\<lparr>c_type = ''pdf'', program = ''ps2pdf'', args = None\<rparr>]) = 0"
  by (subst job_process_success) simp

text \<open>C27: a batch file whose lines are short and not empty does what its lines do as commands, in order, with a
  \<open>BATCH\<close> line before each; unlike the prompt it neither runs the queue nor cleans up between them.\<close>

theorem batch_runs_lines:
  assumes "\<forall>l\<in>set ls. l \<noteq> [] \<and> CHR ''\<newline>'' \<notin> set l \<and> length l < MAX_CHARS - 1"
  shows "batch_loop (concat (map (\<lambda>l. l @ ''\<newline>'') ls)) s = run_lines ls s"
  using assms
proof (induction ls arbitrary: s)
  case (Cons l ls)
  have "batch_loop (l @ ''\<newline>'' @ concat (map (\<lambda>l. l @ ''\<newline>'') ls)) s =
      (case runCommand l (say (Batch l) s) of IRet _ s \<Rightarrow> batch_loop (concat (map (\<lambda>l. l @ ''\<newline>'') ls)) s | IExit c \<Rightarrow> IExit c | ICrash \<Rightarrow> ICrash)"
    using Cons.prems by (intro batch_loop_line) auto
  then show ?case using Cons by (auto split: ires.splits)
qed (simp add: batch_loop.simps fgets_Nil)

theorem batch_runs_lines_witness:
  "batch_loop ''type txt\<newline>enable p\<newline>'' (spool_start []) = run_lines [''type txt'', ''enable p''] (spool_start [])"
  using batch_runs_lines [of "[''type txt'', ''enable p'']" "spool_start []"] by simp

end
