(* ===== verification/Printer_Typing.thy ===== *)
theory Printer_Typing
  imports Printer_Theorems
begin

section \<open>Printer spooler: typing of the tables\<close>

text \<open>
  What the tables of the spooler refer to exists: the files of the jobs, the printers and the results of the
  conversions have declared types, and positions and sizes are within the bounds of the arrays.
\<close>

subsection \<open>Printers keep their types\<close>

text \<open>Operations other than \<open>newPrinter\<close> leave the types of the printers alone, and types are only added.\<close>

abbreviation ptypes :: "imp \<Rightarrow> string list" where
  "ptypes s \<equiv> map p_type (printers s)"

definition typed :: "imp \<Rightarrow> bool" where
  "typed s \<longleftrightarrow> (\<forall>t\<in>set (ptypes s). getType t (types s) \<noteq> None)"

definition same_ptypes :: "imp \<Rightarrow> 'a ires \<Rightarrow> bool" where
  "same_ptypes s r \<longleftrightarrow> (case r of IRet _ t \<Rightarrow> ptypes t = ptypes s \<and> types t = types s | _ \<Rightarrow> True)"

lemma same_ptypes_from: "same_ptypes u r \<Longrightarrow> ptypes u = ptypes s \<Longrightarrow> types u = types s \<Longrightarrow> same_ptypes s r"
  by (cases r) (simp_all add: same_ptypes_def)

lemma ptypes_upd [simp]:
  "map p_type (ps[i := (ps ! i)\<lparr>busy := b\<rparr>]) = map p_type ps" "map p_type (ps[i := (ps ! i)\<lparr>enabled := b\<rparr>]) = map p_type ps"
proof -
  have "(map p_type ps)[i := p_type (ps ! i)] = map p_type ps"
  proof (cases "i < length ps")
    case True
    then show ?thesis using list_update_id [of "map p_type ps" i] by simp
  qed (simp add: list_update_beyond)
  then show "map p_type (ps[i := (ps ! i)\<lparr>busy := b\<rparr>]) = map p_type ps" "map p_type (ps[i := (ps ! i)\<lparr>enabled := b\<rparr>]) = map p_type ps"
    by (simp_all add: map_update)
qed

lemma ptypes_printer_ops:
  "ptypes (busyPrinter n s) = ptypes s" "ptypes (freePrinter n s) = ptypes s"
  "ptypes (enablePrinter n s) = ptypes s" "ptypes (disablePrinter n s) = ptypes s"
  "types (busyPrinter n s) = types s" "types (freePrinter n s) = types s"
  "types (enablePrinter n s) = types s" "types (disablePrinter n s) = types s"
  by (simp_all add: busyPrinter_def freePrinter_def enablePrinter_def disablePrinter_def split: option.splits)

lemma same_ptypes_runJob: "same_ptypes s (runJob f k n s)"
  by (simp add: same_ptypes_def runJob_def runJobProcess_def ptypes_printer_ops Let_def split: option.splits list.splits)

lemma same_ptypes_eligible: "same_ptypes s (getEligiblePrinter j s)"
  by (auto simp: same_ptypes_def getEligiblePrinter_def split: option.splits ptr_res.splits)

lemma same_ptypes_loop: "ptypes s = ptypes s0 \<Longrightarrow> types s = types s0 \<Longrightarrow> same_ptypes s0 (runJobs_loop ks s)"
proof (induction ks arbitrary: s)
  case (Cons k ks)
  show ?case
  proof (cases "status (jobs s ! k) = QUEUED")
    case True
    show ?thesis
    proof (cases "getEligiblePrinter (jobs s ! k) s")
      case (IRet po t)
      have t: "ptypes t = ptypes s0" "types t = types s0" using same_ptypes_eligible [of s "jobs s ! k"] IRet Cons.prems by (simp_all add: same_ptypes_def)
      show ?thesis
      proof (cases po)
        case (Some p)
        show ?thesis
        proof (cases "runJob (getFile (jobs t ! k)) k (p_name p) t")
          case (IRet c u)
          have "ptypes u = ptypes s0" "types u = types s0" using same_ptypes_runJob [of t "getFile (jobs t ! k)" k "p_name p"] IRet t by (simp_all add: same_ptypes_def)
          then show ?thesis using Cons.IH \<open>getEligiblePrinter (jobs s ! k) s = IRet po t\<close> Some IRet True by simp
        qed (use IRet Some True in \<open>simp_all add: same_ptypes_def\<close>)
      qed (use Cons.IH t IRet True in simp)
    qed (use True in \<open>simp_all add: same_ptypes_def\<close>)
  qed (use Cons in simp)
qed (simp add: same_ptypes_def)

lemma same_ptypes_runJobs: "same_ptypes s (runJobs s)"
  unfolding runJobs_def by (rule same_ptypes_loop) simp_all

lemma ptypes_fold: "(\<And>k s. printers (f k s) = printers s \<and> types (f k s) = types s) \<Longrightarrow>
    printers (fold f ks s) = printers s \<and> types (fold f ks s) = types s"
  by (induction ks arbitrary: s) simp_all

lemma set_loop_printers: "printers (snd (set_loop ns acc s)) = printers s \<and> types (snd (set_loop ns acc s)) = types s"
  by (induction ns arbitrary: acc) (auto split: option.splits)

lemma same_ptypes_print: "same_ptypes s (print f ps s)"
proof (cases f)
  case (Some g)
  obtain name r where n: "strtok ''.'' g = (name, r)" by force
  obtain type r' where t: "strtok ''\<newline>'' r = (type, r')" by force
  obtain pset s1 where ps: "getPrinterSet ps s = (pset, s1)" by force
  have s1: "ptypes s1 = ptypes s" "types s1 = types s"
    using ps set_loop_printers [of _ 0 s] by (auto simp: getPrinterSet_def split: option.splits) (metis snd_conv)+
  obtain ko s2 where k: "newJob (the name) (the type) 0 pset s1 = (ko, s2)" by force
  then have s2: "ptypes s2 = ptypes s" "types s2 = types s" using s1 by (auto simp: newJob_def addJob_def Let_def split: if_splits)
  have "same_ptypes s (case getEligiblePrinter j (jobMessage k s2) of
      IRet (Some p) u \<Rightarrow> runJob h k (p_name p) u | IRet None u \<Rightarrow> IRet 0 u | IExit c \<Rightarrow> IExit c | ICrash \<Rightarrow> ICrash)" for j k h
  proof (cases "getEligiblePrinter j (jobMessage k s2)")
    case (IRet po u)
    then have u: "ptypes u = ptypes s" "types u = types s" using same_ptypes_eligible [of "jobMessage k s2" j] s2 by (simp_all add: same_ptypes_def)
    show ?thesis
      using IRet same_ptypes_from [OF same_ptypes_runJob u] u by (cases po) (simp_all, simp add: same_ptypes_def)
  qed (simp_all add: same_ptypes_def)
  moreover have "same_ptypes s (IRet 0 s1)" "same_ptypes s (IRet 0 (errorMessage m s))" "same_ptypes s ICrash" for m
    using s1 by (simp_all add: same_ptypes_def)
  ultimately show ?thesis
    using Some n t ps k by (auto simp: print_def Let_def split: option.splits)
qed (simp add: print_def same_ptypes_def)

lemma finish_ptypes:
  assumes "\<And>k s. printers (change k s) = printers s \<and> types (change k s) = types s"
  shows "same_ptypes s (finish change pid s)"
proof (cases "getJobByPID pid s")
  case (Some k)
  have u: "ptypes (freePrinter n (change k s)) = ptypes s" "types (freePrinter n (change k s)) = types s" for n
    using assms by (simp_all add: ptypes_printer_ops)
  show ?thesis
    using Some same_ptypes_from [OF same_ptypes_runJobs u]
    by (auto simp: finish_def Let_def same_ptypes_def [of s ICrash] split: option.splits)
qed (simp add: finish_def same_ptypes_def)

lemma same_ptypes_handler: "same_ptypes s (printHandler e pid s)"
proof -
  have "same_ptypes s (finish completeJob pid s)" "same_ptypes s (finish abortJob pid s)"
    by (rule finish_ptypes, simp add: completeJob_def abortJob_def set_status_def)+
  then show ?thesis
    by (auto simp: printHandler_def same_ptypes_def pauseJob_def resumeJob_def set_status_def split: wait_event.splits option.splits)
qed

text \<open>A command keeps the printers typed.\<close>

definition keeps_typed :: "imp \<Rightarrow> 'a ires \<Rightarrow> bool" where
  "keeps_typed s r \<longleftrightarrow> (typed s \<longrightarrow> (case r of IRet _ t \<Rightarrow> typed t | _ \<Rightarrow> True))"

lemma typed_cong: "ptypes t = ptypes s \<Longrightarrow> types t = types s \<Longrightarrow> typed t = typed s"
  by (simp only: typed_def)

lemma keeps_typed_same: "same_ptypes s r \<Longrightarrow> keeps_typed s r"
proof (cases r)
  case (IRet x t)
  moreover assume "same_ptypes s r"
  ultimately have "typed t = typed s" by (intro typed_cong) (simp_all add: same_ptypes_def)
  then show ?thesis using IRet by (simp add: keeps_typed_def)
qed (simp_all add: keeps_typed_def)

lemma typed_types:
  "typed s \<Longrightarrow> (\<And>n. getType n (types s) \<noteq> None \<Longrightarrow> getType n ts \<noteq> None) \<Longrightarrow> typed (s\<lparr>types := ts\<rparr>)"
  by (simp add: typed_def)

lemma errors_same: "printers (errors m s) = printers s \<and> types (errors m s) = types s"
  unfolding errors_def by (induction m arbitrary: s) simp_all

lemma keeps_typed_if: "keeps_typed s x \<Longrightarrow> keeps_typed s y \<Longrightarrow> keeps_typed s (if b then x else y)"
  by simp

lemma runCommand_typed: "keeps_typed s (runCommand input s)"
proof -
  obtain flag r where f: "strtok '' '' input = (flag, r)" by force
  obtain a1 r1 where a1: "strtok '' '' r = (a1, r1)" by force
  obtain a2 r2 where a2: "strtok '' '' r1 = (a2, r2)" by force
  obtain a3 r3 where a3: "strtok '' '' r2 = (a3, r3)" by force
  obtain a4 r4 where a4: "strtok ''\<newline>'' r3 = (a4, r4)" by force
  obtain m1 ts1 where e1: "newExtension a1 (types s) = (m1, ts1)" by force
  obtain m2 ts2 where e2: "newConversion a1 a2 a3 a4 (types s) = (m2, ts2)" by force
  obtain o1 s1 where e3: "newPrinter a1 a2 s = (o1, s1)" by force
  have er: "typed (errors m t) = typed t" for m t by (rule typed_cong) (simp_all add: errors_same)
  have te: "keeps_typed s (IRet () (errors m1 (s\<lparr>types := ts1\<rparr>)))"
    using typed_types [of s ts1] newExtension_keeps [of _ "types s" a1] e1 by (auto simp: keeps_typed_def er)
  have tc: "keeps_typed s (IRet () (errors m2 (s\<lparr>types := ts2\<rparr>)))"
    using typed_types [of s ts2] newConversion_keeps [of _ "types s" a1 a2 a3 a4] e2 by (auto simp: keeps_typed_def er)
  have np: "typed s \<longrightarrow> typed s1"
    using e3 by (auto simp: newPrinter_def addPrinter_def typed_def split: option.splits if_splits)
  have st: "keeps_typed s (IRet () (printerStatus s))" "keeps_typed s (IRet () (jobStatus s))" "keeps_typed s (IRet () (usage s))" "keeps_typed s (IRet () s)"
    by (rule keeps_typed_same, use ptypes_fold [of printerMessage] ptypes_fold [of jobMessage] in
        \<open>simp add: same_ptypes_def printerStatus_def jobStatus_def usage_def\<close>)+
  have jc: "keeps_typed s (IRet () (job_command c st sg m a s))" for c st sg m a
    by (auto simp: keeps_typed_def job_command_def typed_def split: option.splits)
  have on: "same_ptypes s (on_printer g a1 s)" if "\<And>n. ptypes (g n s) = ptypes s \<and> types (g n s) = types s" for g
    using that by (cases a1) (simp_all add: on_printer_def same_ptypes_def del: map_is_Nil_conv Nil_is_map_conv)
  have op: "keeps_typed s (on_printer enablePrinter a1 s)" "keeps_typed s (on_printer disablePrinter a1 s)"
    by (rule keeps_typed_same, rule on, simp add: ptypes_printer_ops)+
  have pc: "keeps_typed s (case print a1 l s of IRet _ s \<Rightarrow> IRet () s | IExit c \<Rightarrow> IExit c | ICrash \<Rightarrow> ICrash)" for l
    using keeps_typed_same [OF same_ptypes_print [of s a1 l]] by (auto simp: keeps_typed_def split: ires.splits)
  have q: "keeps_typed s (IExit 0)" by (simp add: keeps_typed_def)
  show ?thesis
  proof (cases flag)
    case None
    then show ?thesis using f st(4) by (simp add: runCommand_def)
  next
    case (Some fl)
    have pr: "keeps_typed s (case (o1, s1) of (None, s) \<Rightarrow> IRet () s | (Some i, s) \<Rightarrow> IRet () (printerMessage i s))"
      using np by (auto simp: keeps_typed_def typed_def split: option.splits)
    show ?thesis
      unfolding runCommand_def f Some Let_def a1 a2 a3 a4 e1 e2 e3 prod.case option.case fst_conv
      by (intro keeps_typed_if te tc pr [unfolded prod.case] st jc op pc q)
  qed
qed

lemma spool_step_typed: "spool_step s s' \<Longrightarrow> typed s \<Longrightarrow> typed s'"
proof (erule spool_stepE)
  fix input
  assume s: "typed s" "main_step input s = IRet () s'"
  then obtain t u where t: "runCommand input s = IRet () t" "runJobs t = IRet () u" "s' = removeJobs u" by (auto simp: main_step_def split: ires.splits)
  have "typed t" using runCommand_typed [of s input] s(1) t(1) by (simp add: keeps_typed_def)
  then have "typed u" using keeps_typed_same [OF same_ptypes_runJobs, of t] t(2) by (simp add: keeps_typed_def)
  then show "typed s'" by (simp add: t(3) removeJobs_def typed_def)
next
  fix input
  show "typed s \<Longrightarrow> runCommand input s = IRet () s' \<Longrightarrow> typed s'" using runCommand_typed [of s input] by (simp add: keeps_typed_def)
next
  fix k e
  show "typed s \<Longrightarrow> printHandler e (pgid (jobs s ! k)) s = IRet () s' \<Longrightarrow> typed s'"
    using keeps_typed_same [OF same_ptypes_handler, of s e "pgid (jobs s ! k)"] by (simp add: keeps_typed_def)
qed (simp add: typed_def)

lemma spool_reach_typed: "spool_reach s0 s \<Longrightarrow> typed s0 \<Longrightarrow> typed s"
  by (induction rule: spool_reach.induct) (auto dest: spool_step_typed)

subsection \<open>Properties\<close>

text \<open>C30: in every state of the spooler there are at most 31 types, each with at most 63 conversions, and at most 32
  printers, each at the position of its id; every conversion leads to a declared type, at most one of a type to
  another; and every printer and every job has a declared type.\<close>

theorem tables_typed:
  assumes "distinct pids" "\<forall>f\<in>set pids. 0 < f" "spool_reach (spool_start pids) s"
  shows "length (types s) \<le> 31 \<and>
    (\<forall>t\<in>set (types s). length (conversions t) \<le> 63 \<and> distinct (map c_type (conversions t)) \<and>
       (\<forall>c\<in>set (conversions t). getType (c_type c) (types s) \<noteq> None)) \<and>
    length (printers s) \<le> 32 \<and> (\<forall>i<length (printers s). p_id (printers s ! i) = i) \<and>
    (\<forall>p\<in>set (printers s). getType (p_type p) (types s) \<noteq> None) \<and>
    (\<forall>j\<in>set (jobs s). getType (file_type j) (types s) \<noteq> None)"
proof -
  have ok: "spool_ok s" using spool_reach_ok [OF assms(3) spool_start_ok [OF assms(1,2)]] .
  have "typed (spool_start pids)" by (simp add: typed_def spool_start_def)
  then have "typed s" using spool_reach_typed [OF assms(3)] by blast
  then show ?thesis using ok by (simp add: spool_ok_def types_ok_def typed_def)
qed

theorem tables_typed_witness:
  "spool_reach (spool_start [7, 8]) demo_run \<and> length (printers demo_run) = 1 \<and>
     list_all (\<lambda>p. getType (p_type p) (types demo_run) \<noteq> None) (printers demo_run)"
proof -
  have "length (printers demo_run) = 1" using demo_run_jobs(2) by (metis length_map length_Cons list.size(3) One_nat_def)
  then show ?thesis using tables_typed [of "[7, 8]" demo_run] demo_run_reach by (simp add: list_all_iff)
qed

end
