(* ===== verification/Printer_Signals.thy ===== *)
theory Printer_Signals
  imports Printer_Theorems
begin

section \<open>Printer spooler: signals while a job is started\<close>

text \<open>
  \<open>runJob\<close> of \<open>jobs.c\<close> with the handler of \<open>SIGCHLD\<close> running inside it. The signal is blocked only in
  \<open>runJobProcess\<close>, from before \<open>fork\<close> until the process id is stored, and in the handler itself; between the
  statements of \<open>runJob\<close> it is delivered at once. \<open>irq i\<close> lists what the calls of \<open>waitpid\<close> report in the handlers that
  run after the \<open>i\<close>-th statement.
\<close>

fun bind_ires :: "'a ires \<Rightarrow> (imp \<Rightarrow> 'b ires) \<Rightarrow> 'b ires" where
  "bind_ires (IRet x s) f = f s"
| "bind_ires (IExit c) f = IExit c"
| "bind_ires ICrash f = ICrash"

fun handlers :: "(wait_event \<times> int) list \<Rightarrow> imp \<Rightarrow> unit ires" where
  "handlers [] s = IRet () s"
| "handlers ((e, pid) # es) s = bind_ires (printHandler e pid s) (handlers es)"

text \<open>0: after the test of \<open>busy\<close>; 1 to 5: after the status, the printer, the time, the message and \<open>busyPrinter\<close>.\<close>

definition runJob_irq :: "(nat \<Rightarrow> (wait_event \<times> int) list) \<Rightarrow> string \<Rightarrow> nat \<Rightarrow> string \<Rightarrow> imp \<Rightarrow> int ires" where
  "runJob_irq irq file k printername s =
     (case getPrinter printername s of
        None \<Rightarrow> IRet 0 s
      | Some p \<Rightarrow>
          if busy p \<noteq> 0 then IRet 0 s
          else
            bind_ires (handlers (irq 0) s) (\<lambda>s.
            bind_ires (handlers (irq 1) (upd_job k (\<lambda>j. j\<lparr>status := RUNNING\<rparr>) s)) (\<lambda>s.
            bind_ires (handlers (irq 2) (upd_job k (\<lambda>j. j\<lparr>chosen_printer := Some (p_id p)\<rparr>) s)) (\<lambda>s.
            bind_ires (handlers (irq 3) (upd_job k (\<lambda>j. j\<lparr>change_time := clock s\<rparr>) s)) (\<lambda>s.
            bind_ires (handlers (irq 4) (jobMessage k s)) (\<lambda>s.
            bind_ires (handlers (irq 5) (busyPrinter printername s)) (runJobProcess file k (p_id p))))))))"

subsection \<open>What is started and who is found\<close>

text \<open>The rest of \<open>runJob\<close> from a statement on, without further signals.\<close>

lemma runJob_rest:
  assumes "k < length (jobs s)" "forks s = f # fs" "0 < f" "active (j (jobs s ! k))"
  shows "\<exists>s2. runJobProcess fn k i (busyPrinter n (jobMessage k (upd_job k j s))) = IRet f s2 \<and>
    jobs s2 = (jobs s)[k := (j (jobs s ! k))\<lparr>pgid := f\<rparr>] \<and> forks s2 = fs"
  using assms by (auto simp: runJobProcess_def busyPrinter_def Let_def split: option.splits)

lemma printHandler_length:
  assumes "spool_ok s" "l < length (jobs s)" "possible e (status (jobs s ! l))" "printHandler e (pgid (jobs s ! l)) s = IRet () s1"
  shows "length (jobs s1) = length (jobs s)"
proof -
  have r: "length (jobs u) = length (jobs t)" if "spool_ok t" "runJobs t = IRet () u" for t u
    using runJobs_ok [OF that(1)] that(2) by simp
  have f: "length (jobs (freePrinter n t)) = length (jobs t)" for n t by (simp add: freePrinter_def split: option.splits)
  have a: "active (jobs s ! l)" using assms(3) by (cases e) (auto simp: active_def)
  have h: "holding (jobs s) (printers s)" using assms(1) by (simp add: spool_ok_def)
  obtain i where i: "chosen_printer (jobs s ! l) = Some i" by (rule holding_active [OF h assms(2) a])
  note g = getJobByPID_active [OF assms(1,2) a]
  have fin: "length (jobs s1) = length (jobs s)"
    if "finish change (pgid (jobs s ! l)) s = IRet () s1" "change l s = jobMessage l (set_status l st s)" "st = COMPLETED \<or> st = ABORTED" for change st
  proof -
    have "runJobs (freePrinter (p_name (printers s ! i)) (jobMessage l (set_status l st s))) = IRet () s1"
      using that(1,2) g i assms(2) by (simp add: finish_def set_status_def)
    then show ?thesis using r [OF finish_state_ok [OF assms(1,2) a i that(3)]] f by (simp add: set_status_def)
  qed
  show ?thesis
  proof (cases e)
    case (Exited c)
    then show ?thesis
      using fin [of completeJob COMPLETED] fin [of abortJob ABORTED] assms(3,4)
      by (auto simp: printHandler_def completeJob_def abortJob_def split: if_splits)
  next
    case Signaled
    then show ?thesis using fin [of abortJob ABORTED] assms(3,4) by (auto simp: printHandler_def abortJob_def)
  qed (use assms(3,4) g in \<open>auto simp: printHandler_def pauseJob_def resumeJob_def set_status_def\<close>)
qed

lemma getJobByPID_loop_None: "getJobByPID_loop pid js = None \<longleftrightarrow> (\<forall>j\<in>set js. pgid j \<noteq> pid)"
  by (induction js) auto

lemma unknown_pid_crashes:
  assumes "\<forall>j\<in>set (jobs s). pgid j \<noteq> pid"
  shows "printHandler (Exited 0) pid s = ICrash" "printHandler (Exited 1) pid s = ICrash"
    "printHandler Stopped pid s = ICrash" "printHandler Continued pid s = ICrash" "printHandler Signaled pid s = ICrash"
proof -
  have "getJobByPID pid s = None" using assms by (simp add: getJobByPID_def getJobByPID_loop_None)
  then show "printHandler (Exited 0) pid s = ICrash" "printHandler (Exited 1) pid s = ICrash"
    "printHandler Stopped pid s = ICrash" "printHandler Continued pid s = ICrash" "printHandler Signaled pid s = ICrash"
    by (simp_all add: printHandler_def finish_def)
qed

subsection \<open>Properties\<close>

text \<open>Without a signal between its statements the interruptible \<open>runJob\<close> is the one of \<open>Printer_Spool\<close>, whose
  steps the invariant of the spooler is about.\<close>

theorem uninterrupted_start:
  "runJob_irq (\<lambda>i. []) file k n s = runJob file k n s"
  by (cases "k < length (jobs s)") (simp_all add: runJob_irq_def runJob_def Let_def list_update_beyond split: option.splits)

text \<open>C38: when another child ends after \<open>runJob\<close> has tested the printer, and the handler starts the very job that is
  being started, \<open>runJob\<close> goes on and forks a second process for it; the first one belongs to no job
  any more, and the handler dereferences NULL when it ends, in whatever way it does.\<close>

theorem interrupted_start_doubles:
  assumes s: "spool_ok s" and l: "l < length (jobs s)" "possible e (status (jobs s ! l))"
    and h: "printHandler e (pgid (jobs s ! l)) s = IRet () s1"
    and k: "k < length (jobs s)" "status (jobs s1 ! k) = RUNNING"
    and p: "getPrinter n s = Some p" "busy p = 0" and f: "forks s1 = f # fs"
  shows "\<exists>s2. runJob_irq (\<lambda>i. if i = 0 then [(e, pgid (jobs s ! l))] else []) file k n s = IRet f s2 \<and>
    pgid (jobs s2 ! k) = f \<and> f \<noteq> pgid (jobs s1 ! k) \<and>
    (\<forall>c\<in>{Exited 0, Exited 1, Stopped, Continued, Signaled}. printHandler c (pgid (jobs s1 ! k)) s2 = ICrash)"
proof -
  have s1: "spool_ok s1" using printHandler_ok [OF s l] h by simp
  have k1: "k < length (jobs s1)" using printHandler_length [OF s l h] k(1) by simp
  have pids: "pids_ok (jobs s1) (f # fs)" using s1 f by (simp add: spool_ok_def)
  then have f0: "0 < f" "\<forall>j\<in>set (jobs s1). pgid j \<noteq> f" by (auto simp: pids_ok_def)
  have a: "active (jobs s1 ! k)" using k(2) by (simp add: active_def)
  let ?j = "\<lambda>j. j\<lparr>status := RUNNING, chosen_printer := Some (p_id p), change_time := clock s1\<rparr>"
  obtain s2 where s2: "runJobProcess file k (p_id p) (busyPrinter n (jobMessage k (upd_job k ?j s1))) = IRet f s2"
    "jobs s2 = (jobs s1)[k := (?j (jobs s1 ! k))\<lparr>pgid := f\<rparr>]"
    using runJob_rest [OF k1 f f0(1), where j = ?j and fn = "file" and i = "p_id p" and n = n] by (auto simp: active_def)
  have r: "runJob_irq (\<lambda>i. if i = 0 then [(e, pgid (jobs s ! l))] else []) file k n s = IRet f s2"
    using s2(1) p h k1 by (simp add: runJob_irq_def)
  have "pgid (jobs s2 ! m) \<noteq> pgid (jobs s1 ! k)" if "m < length (jobs s2)" for m
  proof (cases "m = k")
    case True
    then show ?thesis using f0(2) k1 by (auto simp: s2(2))
  next
    case False
    have "0 < pgid (jobs s1 ! k)" using pids a k1 by (auto simp: pids_ok_def)
    then show ?thesis using pids False that k1 unfolding pids_ok_def by (auto simp: s2(2))
  qed
  then have "\<forall>j\<in>set (jobs s2). pgid j \<noteq> pgid (jobs s1 ! k)" by (auto simp: in_set_conv_nth)
  moreover have "pgid (jobs s2 ! k) = f" using k1 by (simp add: s2(2))
  moreover have "f \<noteq> pgid (jobs s1 ! k)" using f0(2) k1 by auto
  ultimately show ?thesis using r unknown_pid_crashes by auto
qed

text \<open>Two printers: \<open>a\<close> is printed on \<open>p\<close>, then \<open>b\<close>, for any printer, and \<open>c\<close>, for \<open>q\<close>, wait until \<open>q\<close> is enabled.\<close>

definition demo_two :: imp where
  "demo_two = the (run_all [''type txt'', ''printer p txt'', ''printer q txt'', ''enable p'', ''print a.txt'',
     ''print b.txt'', ''print c.txt q'', ''enable q''] (spool_start [7, 8, 9, 10]))"

lemma demo_two_reach: "spool_reach (spool_start [7, 8, 9, 10]) demo_two"
proof -
  have "run_all [''type txt'', ''printer p txt'', ''printer q txt'', ''enable p'', ''print a.txt'',
     ''print b.txt'', ''print c.txt q'', ''enable q''] (spool_start [7, 8, 9, 10]) = Some demo_two"
    by code_simp
  then show ?thesis using run_all_reach [OF spool_reach.init] by blast
qed

lemma demo_two_ok: "spool_ok demo_two"
  using spool_reach_ok [OF demo_two_reach spool_start_ok] by simp

lemma demo_two_jobs: "map status (jobs demo_two) = [RUNNING, QUEUED, QUEUED]" "pgid (jobs demo_two ! 0) = 7"
  by code_simp+

lemma demo_two_handled:
  obtains s1 where "printHandler (Exited 0) 7 demo_two = IRet () s1" "map status (jobs s1) = [COMPLETED, RUNNING, RUNNING]"
    "map pgid (jobs s1) = [7, 8, 9]" "forks s1 = [10]"
proof -
  have "case printHandler (Exited 0) 7 demo_two of
      IRet _ s1 \<Rightarrow> map status (jobs s1) = [COMPLETED, RUNNING, RUNNING] \<and> map pgid (jobs s1) = [7, 8, 9] \<and> forks s1 = [10]
    | _ \<Rightarrow> False"
    by code_simp
  then show thesis using that by (cases "printHandler (Exited 0) 7 demo_two") auto
qed

lemma demo_two_free: "\<exists>p. getPrinter ''q'' demo_two = Some p \<and> busy p = 0 \<and> p_id p = 1"
proof -
  have "case getPrinter ''q'' demo_two of Some p \<Rightarrow> busy p = 0 \<and> p_id p = 1 | None \<Rightarrow> False" by code_simp
  then show ?thesis by (simp split: option.splits)
qed

text \<open>The job of \<open>a\<close> ends while the job of \<open>b\<close> is being started on \<open>q\<close>: the handler starts it on \<open>p\<close>.\<close>

theorem interrupted_start_doubles_witness:
  "\<exists>s2. spool_reach (spool_start [7, 8, 9, 10]) demo_two \<and>
     runJob_irq (\<lambda>i. if i = 0 then [(Exited 0, 7)] else []) ''b.txt'' 1 ''q'' demo_two = IRet 10 s2 \<and>
     printHandler (Exited 0) 8 s2 = ICrash"
proof -
  obtain s1 where h: "printHandler (Exited 0) 7 demo_two = IRet () s1" "map status (jobs s1) = [COMPLETED, RUNNING, RUNNING]"
    "map pgid (jobs s1) = [7, 8, 9]" "forks s1 = [10]" by (rule demo_two_handled)
  obtain p where p: "getPrinter ''q'' demo_two = Some p" "busy p = 0" using demo_two_free by blast
  have n: "length (jobs demo_two) = 3" "length (jobs s1) = 3" using demo_two_jobs(1) h(2) by (metis length_map length_Cons list.size(3) numeral_3_eq_3)+
  have st: "status (jobs demo_two ! 0) = RUNNING" "status (jobs s1 ! 1) = RUNNING" "pgid (jobs s1 ! 1) = 8"
    using n demo_two_jobs(1) h(2,3) nth_map [of 0 "jobs demo_two" status] nth_map [of 1 "jobs s1" status] nth_map [of 1 "jobs s1" pgid]
    by simp_all
  have "0 < length (jobs demo_two)" "possible (Exited 0) (status (jobs demo_two ! 0))" "1 < length (jobs demo_two)" using n st(1) by simp_all
  then obtain s2 where "runJob_irq (\<lambda>i. if i = 0 then [(Exited 0, 7)] else []) ''b.txt'' 1 ''q'' demo_two = IRet 10 s2"
    "printHandler (Exited 0) 8 s2 = ICrash"
    using interrupted_start_doubles [OF demo_two_ok _ _ _ _ st(2) p h(4), of 0 "Exited 0" "''b.txt''", unfolded demo_two_jobs(2) st(3)] h(1)
    by blast
  then show ?thesis using demo_two_reach by blast
qed

text \<open>When the handlers that run between the change of the status and \<open>busyPrinter\<close> start another job on the
  printer, which is still free for them, \<open>runJob\<close> goes on: both jobs then run on that printer, and the
  invariant of the spooler is lost.\<close>

theorem interrupted_start_shares:
  assumes p: "getPrinter n s = Some p" "busy p = 0" and k: "k < length (jobs s)"
    and h: "handlers es (upd_job k (\<lambda>j. j\<lparr>status := RUNNING\<rparr>) s) = IRet () s1" "length (jobs s1) = length (jobs s)"
    and m: "m < length (jobs s)" "m \<noteq> k" "active (jobs s1 ! m)" "chosen_printer (jobs s1 ! m) = Some (p_id p)"
    and r: "status (jobs s1 ! k) = RUNNING" and f: "forks s1 = f # fs" "0 < f"
  shows "\<exists>s2. runJob_irq (\<lambda>i. if i = 1 then es else []) file k n s = IRet f s2 \<and>
    status (jobs s2 ! k) = RUNNING \<and> active (jobs s2 ! m) \<and> chosen_printer (jobs s2 ! k) = chosen_printer (jobs s2 ! m) \<and>
    \<not> spool_ok s2"
proof -
  let ?j = "\<lambda>j. j\<lparr>chosen_printer := Some (p_id p), change_time := clock s1\<rparr>"
  have k1: "k < length (jobs s1)" using h(2) k by simp
  obtain s2 where s2: "runJobProcess file k (p_id p) (busyPrinter n (jobMessage k (upd_job k ?j s1))) = IRet f s2"
    "jobs s2 = (jobs s1)[k := (?j (jobs s1 ! k))\<lparr>pgid := f\<rparr>]"
    using runJob_rest [OF k1 f, where j = ?j and fn = "file" and i = "p_id p" and n = n] r by (auto simp: active_def)
  have run: "runJob_irq (\<lambda>i. if i = 1 then es else []) file k n s = IRet f s2"
    using s2(1) p h(1) k1 by (simp add: runJob_irq_def)
  have j: "status (jobs s2 ! k) = RUNNING" "chosen_printer (jobs s2 ! k) = Some (p_id p)" "jobs s2 ! m = jobs s1 ! m"
    using s2(2) k1 r m(2) by simp_all
  have "\<not> holding (jobs s2) (printers s2)"
  proof
    assume "holding (jobs s2) (printers s2)"
    then have "k = m" using j m h(2) k s2(2) by (intro holding_unique [of "jobs s2"]) (auto simp: active_def)
    then show False using m(2) by simp
  qed
  then show ?thesis using run j m by (auto simp: spool_ok_def)
qed

text \<open>The job of \<open>a\<close> ends after the job of \<open>b\<close> has been marked as running: the handler starts \<open>c\<close> on \<open>q\<close>, too.\<close>

theorem interrupted_start_shares_witness:
  "\<exists>s2. spool_reach (spool_start [7, 8, 9, 10]) demo_two \<and>
     runJob_irq (\<lambda>i. if i = 1 then [(Exited 0, 7)] else []) ''b.txt'' 1 ''q'' demo_two = IRet 9 s2 \<and>
     status (jobs s2 ! 1) = RUNNING \<and> active (jobs s2 ! 2) \<and> chosen_printer (jobs s2 ! 1) = chosen_printer (jobs s2 ! 2)"
proof -
  let ?s = "upd_job 1 (\<lambda>j. j\<lparr>status := RUNNING\<rparr>) demo_two"
  have "case handlers [(Exited 0, 7)] ?s of
      IRet _ s1 \<Rightarrow> length (jobs s1) = length (jobs demo_two) \<and> 2 < length (jobs demo_two) \<and> status (jobs s1 ! 1) = RUNNING \<and>
        status (jobs s1 ! 2) = RUNNING \<and> chosen_printer (jobs s1 ! 2) = Some 1 \<and> forks s1 = [9, 10]
    | _ \<Rightarrow> False"
    by code_simp
  then obtain s1 where h: "handlers [(Exited 0, 7)] ?s = IRet () s1" "length (jobs s1) = length (jobs demo_two)" "2 < length (jobs demo_two)"
    "status (jobs s1 ! 1) = RUNNING" "status (jobs s1 ! 2) = RUNNING" "chosen_printer (jobs s1 ! 2) = Some 1" "forks s1 = [9, 10]"
    by (cases "handlers [(Exited 0, 7)] ?s") auto
  obtain p where p: "getPrinter ''q'' demo_two = Some p" "busy p = 0" "p_id p = 1" using demo_two_free by blast
  have "1 < length (jobs demo_two)" "(2::nat) \<noteq> 1" "active (jobs s1 ! 2)" "chosen_printer (jobs s1 ! 2) = Some (p_id p)" "0 < (9::int)"
    using h(3,5,6) p(3) by (simp_all add: active_def)
  note interrupted_start_shares [OF p(1,2) this(1) h(1,2,3) this(2-4) h(4,7) this(5), of "''b.txt''"]
  then show ?thesis using demo_two_reach by blast
qed

end
