(* ===== verification/Printer_Rounds.thy ===== *)
theory Printer_Rounds
  imports Printer_Signals
begin

section \<open>Printer spooler: signals between the rounds of a pass over the queue\<close>

text \<open>
  \<open>runJobs\<close> with the handler of \<open>SIGCHLD\<close> running before any round of its loop, any number of times, for children whose
  jobs are in a state to report what they report. The handler runs a whole pass of its own when a job has ended.
\<close>

inductive interrupted_pass :: "nat list \<Rightarrow> imp \<Rightarrow> imp \<Rightarrow> bool" where
  finished: "interrupted_pass [] s s"
| signal: "l < length (jobs s) \<Longrightarrow> possible e (status (jobs s ! l)) \<Longrightarrow> printHandler e (pgid (jobs s ! l)) s = IRet () t \<Longrightarrow>
    interrupted_pass ks t s' \<Longrightarrow> interrupted_pass ks s s'"
| round: "runJobs_loop [k] s = IRet () t \<Longrightarrow> interrupted_pass ks t s' \<Longrightarrow> interrupted_pass (k # ks) s s'"

text \<open>Without signals it is the pass of \<open>Printer_Spool\<close>.\<close>

lemma runJobs_loop_Cons: "runJobs_loop (k # ks) s = bind_ires (runJobs_loop [k] s) (runJobs_loop ks)"
  by (simp split: ires.splits option.splits)

lemma pass_uninterrupted: "runJobs_loop ks s = IRet () s' \<Longrightarrow> interrupted_pass ks s s'"
proof (induction ks arbitrary: s)
  case (Cons k ks)
  then obtain t where t: "runJobs_loop [k] s = IRet () t" "runJobs_loop ks t = IRet () s'"
    unfolding runJobs_loop_Cons [of k ks] by (cases "runJobs_loop [k] s") auto
  then show ?case using interrupted_pass.round [OF t(1) Cons.IH [OF t(2)]] by simp
qed (simp add: interrupted_pass.finished)

subsection \<open>Names stay and processes are used up\<close>

definition later :: "imp \<Rightarrow> imp \<Rightarrow> bool" where
  "later s t \<longleftrightarrow> map p_name (printers t) = map p_name (printers s) \<and> length (forks t) \<le> length (forks s)"

lemma later_refl: "later s s"
  and later_trans: "later s t \<Longrightarrow> later t u \<Longrightarrow> later s u"
  by (auto simp: later_def)

lemma later_fields: "printers t = printers s \<Longrightarrow> forks t = forks s \<Longrightarrow> later s t"
  by (simp add: later_def)

lemma names_update: "p_name p = p_name (ps ! i) \<Longrightarrow> map p_name (ps[i := p]) = map p_name ps"
  by (metis map_update list_update_id nth_map linorder_not_le list_update_beyond length_map)

lemma later_say: "later s t \<Longrightarrow> later s (say x t)"
  by (simp add: later_def say_def)

lemma later_free: "later s (freePrinter n s)" and later_busy: "later s (busyPrinter n s)"
  by (auto simp: later_def freePrinter_def busyPrinter_def printerMessage_def errorMessage_def say_def names_update split: option.splits)

lemma later_runJob: "runJob file k n s = IRet c t \<Longrightarrow> later s t"
proof -
  assume r: "runJob file k n s = IRet c t"
  have p: "later u t" if "runJobProcess file k i u = IRet c t" for i u
    using that by (auto simp: runJobProcess_def later_def say_def Let_def split: list.splits if_splits)
  show ?thesis
  proof (cases "getPrinter n s")
    case (Some q)
    show ?thesis
    proof (cases "busy q = 0")
      case True
      let ?u = "jobMessage k (upd_job k (\<lambda>j. j\<lparr>status := RUNNING, chosen_printer := Some (p_id q), change_time := clock s\<rparr>) s)"
      have "later s ?u" by (simp add: jobMessage_def later_def say_def)
      moreover have "later (busyPrinter n ?u) t" using r Some True p by (simp add: runJob_def Let_def)
      ultimately show ?thesis using later_busy later_trans by blast
    qed (use r Some in \<open>simp add: runJob_def later_refl\<close>)
  qed (use r in \<open>simp add: runJob_def later_refl\<close>)
qed

lemma later_round:
  assumes "spool_ok s" "k < length (jobs s)" "runJobs_loop [k] s = IRet () t"
  shows "later s t"
proof (cases "status (jobs s ! k) = QUEUED")
  case True
  have "getType (file_type (jobs s ! k)) (types s) \<noteq> None" using assms(1,2) by (simp add: spool_ok_def)
  then obtain po where "getEligiblePrinter (jobs s ! k) s = IRet po s" by (rule getEligiblePrinter_returns [OF assms(1)])
  then show ?thesis using assms(3) True later_runJob by (auto simp: later_refl split: option.splits ires.splits)
qed (use assms(3) in \<open>simp add: later_refl\<close>)

lemma round_ok:
  assumes "spool_ok s" "k < length (jobs s)" "runJobs_loop [k] s = IRet () t"
  shows "spool_ok t \<and> length (jobs t) = length (jobs s) \<and> later s t"
  using runJobs_loop_ok [OF assms(1), of "[k]"] assms later_round [OF assms] by simp

lemma later_pass:
  "runJobs_loop ks s = IRet () t \<Longrightarrow> spool_ok s \<Longrightarrow> set ks \<subseteq> {..<length (jobs s)} \<Longrightarrow> later s t"
proof (induction ks arbitrary: s)
  case (Cons k ks)
  then obtain u where u: "runJobs_loop [k] s = IRet () u" "runJobs_loop ks u = IRet () t"
    unfolding runJobs_loop_Cons [of k ks] by (cases "runJobs_loop [k] s") auto
  then show ?case using round_ok [OF Cons.prems(2) _ u(1)] Cons.IH [OF u(2)] Cons.prems(3) later_trans by auto
qed (simp add: later_refl)

lemma later_runJobs: "runJobs s = IRet () t \<Longrightarrow> spool_ok s \<Longrightarrow> later s t"
  unfolding runJobs_def by (rule later_pass) auto

subsection \<open>What the handler does\<close>

lemma handler_cases:
  assumes "spool_ok s" "l < length (jobs s)" "possible e (status (jobs s ! l))" "printHandler e (pgid (jobs s ! l)) s = IRet () t"
  obtains (change) st where "st = RUNNING \<or> st = PAUSED" "t = jobMessage l (set_status l st s)"
  | (ends) u where "spool_ok u" "length (jobs u) = length (jobs s)" "later s u" "runJobs u = IRet () t"
proof -
  have a: "active (jobs s ! l)" using assms(3) by (cases e) (auto simp: active_def)
  have h: "holding (jobs s) (printers s)" using assms(1) by (simp add: spool_ok_def)
  obtain i where i: "chosen_printer (jobs s ! l) = Some i" by (rule holding_active [OF h assms(2) a])
  note g = getJobByPID_active [OF assms(1,2) a]
  have fin: thesis
    if f: "finish change (pgid (jobs s ! l)) s = IRet () t" and c: "change l s = jobMessage l (set_status l st s)"
      and st: "st = COMPLETED \<or> st = ABORTED" for change st
  proof (rule ends)
    let ?t = "jobMessage l (set_status l st s)"
    show "spool_ok (freePrinter (p_name (printers s ! i)) ?t)" by (rule finish_state_ok [OF assms(1,2) a i st])
    show "length (jobs (freePrinter (p_name (printers s ! i)) ?t)) = length (jobs s)"
      by (simp add: freePrinter_def set_status_def split: option.splits)
    have "later s ?t" by (simp add: jobMessage_def set_status_def later_def say_def)
    then show "later s (freePrinter (p_name (printers s ! i)) ?t)" using later_free later_trans by blast
    show "runJobs (freePrinter (p_name (printers s ! i)) ?t) = IRet () t"
      using f g i assms(2) by (simp add: finish_def c set_status_def)
  qed
  show thesis
  proof (cases e)
    case (Exited c)
    then show thesis
      using fin [of completeJob COMPLETED] fin [of abortJob ABORTED] assms(3,4)
      by (auto simp: printHandler_def completeJob_def abortJob_def split: if_splits)
  next
    case Signaled
    then show thesis using fin [of abortJob ABORTED] assms(3,4) by (auto simp: printHandler_def abortJob_def)
  next
    case Stopped
    then show thesis using change [of PAUSED] assms(3,4) g by (auto simp: printHandler_def pauseJob_def)
  next
    case Continued
    then show thesis using change [of RUNNING] assms(3,4) g by (auto simp: printHandler_def resumeJob_def)
  qed (use assms(3) in simp)
qed

lemma handler_later:
  assumes "spool_ok s" "l < length (jobs s)" "possible e (status (jobs s ! l))" "printHandler e (pgid (jobs s ! l)) s = IRet () t"
  shows "spool_ok t \<and> length (jobs t) = length (jobs s) \<and> later s t"
proof -
  have "later s t"
  proof (cases rule: handler_cases [OF assms])
    case (1 st)
    then show ?thesis by (simp add: jobMessage_def set_status_def later_def say_def)
  next
    case (2 u)
    then show ?thesis using later_trans later_runJobs by blast
  qed
  then show ?thesis using printHandler_ok [OF assms(1-3)] printHandler_length [OF assms] assms(4) by simp
qed


subsection \<open>Every job is served\<close>

text \<open>None of the jobs waits while an enabled and eligible printer of its type is free.\<close>

definition served :: "nat set \<Rightarrow> imp \<Rightarrow> bool" where
  "served D s \<longleftrightarrow> (\<forall>k\<in>D. k < length (jobs s) \<and> (status (jobs s ! k) = QUEUED \<longrightarrow> nofree (jobs s ! k) (printers s)))"

lemma served_handler:
  assumes "spool_ok s" "l < length (jobs s)" "possible e (status (jobs s ! l))" "printHandler e (pgid (jobs s ! l)) s = IRet () t"
    and "distinct (map p_name (printers s))" "length (jobs s) \<le> length (forks t)" "served D s"
  shows "served D t"
proof (cases rule: handler_cases [OF assms(1-4)])
  case (1 st)
  have p: "printers t = printers s" "jobs t = (jobs s)[l := (jobs s ! l)\<lparr>status := st, change_time := clock s\<rparr>]"
    unfolding 1(2) by (simp_all add: jobMessage_def set_status_def say_def)
  have "status (jobs t ! k) = QUEUED \<Longrightarrow> k < length (jobs s) \<Longrightarrow> jobs t ! k = jobs s ! k" for k
    using 1(1) by (cases "k = l") (auto simp: p(2))
  moreover have "length (jobs t) = length (jobs s)" by (simp add: p(2))
  ultimately show ?thesis using assms(7) unfolding served_def p(1) by metis
next
  case (2 u)
  have r: "runJobs_loop [0..<length (jobs s)] u = IRet () t" using 2(2,4) by (simp add: runJobs_def)
  have "length (forks t) \<le> length (forks u)" using later_runJobs [OF 2(4,1)] by (simp add: later_def)
  then have f: "length [0..<length (jobs s)] \<le> length (forks u)" using assms(6) by simp
  have d: "distinct (map p_name (printers u))" using assms(5) 2(3) by (simp add: later_def)
  have "\<forall>k\<in>set [0..<length (jobs s)]. k < length (jobs u)" using 2(2) by simp
  then obtain t' where "runJobs_loop [0..<length (jobs s)] u = IRet () t'" "length (jobs t') = length (jobs u)"
    "\<forall>k\<in>{} \<union> set [0..<length (jobs s)]. status (jobs t' ! k) = QUEUED \<longrightarrow> nofree (jobs t' ! k) (printers t')"
    using runJobs_loop_serves [OF 2(1) d distinct_upt _ f, of "{}"] by blast
  then show ?thesis using r 2(2) assms(7) by (auto simp: served_def)
qed

lemma served_round:
  assumes "spool_ok s" "k < length (jobs s)" "runJobs_loop [k] s = IRet () t"
    and "distinct (map p_name (printers s))" "0 < length (forks s)" "served D s" "k \<notin> D"
  shows "served (insert k D) t"
proof -
  obtain t' where "runJobs_loop [k] s = IRet () t'" "length (jobs t') = length (jobs s)"
    "\<forall>l\<in>D \<union> set [k]. status (jobs t' ! l) = QUEUED \<longrightarrow> nofree (jobs t' ! l) (printers t')"
    using runJobs_loop_serves [OF assms(1,4), of "[k]" D] assms(2,5-7) by (auto simp: served_def Suc_le_eq)
  then show ?thesis using assms(2,3,6) by (auto simp: served_def)
qed

lemma interrupted_pass_ok:
  "interrupted_pass ks s s' \<Longrightarrow> spool_ok s \<Longrightarrow> set ks \<subseteq> {..<length (jobs s)} \<Longrightarrow>
   spool_ok s' \<and> length (jobs s') = length (jobs s) \<and> later s s'"
proof (induction rule: interrupted_pass.induct)
  case (signal l s e t ks s')
  note h = handler_later [OF signal.prems(1) signal.hyps(1-3)]
  then show ?case using signal.IH signal.prems(2) later_trans by auto
next
  case (round k s t ks s')
  then show ?case using round_ok [OF round.prems(1) _ round.hyps(1)] later_trans by auto
qed (simp add: later_refl)

lemma interrupted_pass_served:
  "interrupted_pass ks s s' \<Longrightarrow> spool_ok s \<Longrightarrow> set ks \<subseteq> {..<length (jobs s)} \<Longrightarrow> distinct (map p_name (printers s)) \<Longrightarrow>
   length (jobs s) \<le> length (forks s') \<Longrightarrow> distinct ks \<Longrightarrow> D \<inter> set ks = {} \<Longrightarrow> served D s \<Longrightarrow> served (D \<union> set ks) s'"
proof (induction arbitrary: D rule: interrupted_pass.induct)
  case (signal l s e t ks s')
  note h = handler_later [OF signal.prems(1) signal.hyps(1-3)]
  have "later t s'" using interrupted_pass_ok [OF signal.hyps(4)] h signal.prems(2) by simp
  then have "served D t"
    using served_handler [OF signal.prems(1) signal.hyps(1-3) signal.prems(3) _ signal.prems(7)] signal.prems(4) by (simp add: later_def)
  then show ?case using signal.IH h signal.prems by (simp add: later_def)
next
  case (round k s t ks s')
  have k: "k < length (jobs s)" "k \<notin> D" using round.prems(2,6) by auto
  note r = round_ok [OF round.prems(1) k(1) round.hyps(1)]
  have "later t s'" using interrupted_pass_ok [OF round.hyps(2)] r round.prems(2) by simp
  then have "0 < length (forks s)" using r round.prems(4) k(1) by (auto simp: later_def)
  then have "served (insert k D) t" using served_round [OF round.prems(1) k(1) round.hyps(1) round.prems(3) _ round.prems(7) k(2)] by blast
  then have "served (insert k D \<union> set ks) s'" using round.IH [of "insert k D"] r round.prems by (auto simp: later_def)
  then show ?case by simp
qed simp



text \<open>Three jobs for one printer; the first one ends before the pass begins.\<close>

definition demo_three :: imp where
  "demo_three = the (run_all [''type txt'', ''printer p txt'', ''enable p'', ''print a.txt'', ''print b.txt'', ''print c.txt'']
     (spool_start [7, 8, 9, 10, 11]))"

lemma demo_three_reach: "spool_reach (spool_start [7, 8, 9, 10, 11]) demo_three"
proof -
  have "run_all [''type txt'', ''printer p txt'', ''enable p'', ''print a.txt'', ''print b.txt'', ''print c.txt'']
     (spool_start [7, 8, 9, 10, 11]) = Some demo_three"
    by code_simp
  then show ?thesis using run_all_reach [OF spool_reach.init] by blast
qed

lemma demo_three_ok: "spool_ok demo_three"
  using spool_reach_ok [OF demo_three_reach spool_start_ok] by simp

lemma demo_three_jobs:
  "length (jobs demo_three) = 3" "status (jobs demo_three ! 0) = RUNNING" "pgid (jobs demo_three ! 0) = 7"
  "distinct (map p_name (printers demo_three))"
  by code_simp+

lemma demo_three_handled:
  "case printHandler (Exited 0) 7 demo_three of
     IRet _ t \<Rightarrow> (case runJobs_loop [0, 1, 2] t of
         IRet _ s \<Rightarrow> map status (jobs s) = [COMPLETED, RUNNING, QUEUED] \<and> forks s = [9, 10, 11] \<and> length (printers s) = 1 \<and>
           enabled (printers s ! 0) \<noteq> 0 \<and> eligible_printers (jobs s ! 2) AND push_bit (p_id (printers s ! 0)) 1 \<noteq> 0 \<and>
           p_type (printers s ! 0) = file_type (jobs s ! 2)
       | _ \<Rightarrow> False)
   | _ \<Rightarrow> False"
  by code_simp


end
