(* ===== verification/Printer_Arrays.thy ===== *)
theory Printer_Arrays
  imports Printer_Types
begin

section \<open>Printer spooler: arrays of pointers and the memory behind them\<close>

text \<open>
  Functions of \<open>conversions.c\<close> and \<open>helpers.c\<close> on the level of C arrays and memory blocks, where \<open>Printer_Types\<close> has
  lists: the array of conversions of a type, and the vector of arguments of a conversion.
\<close>

subsection \<open>The conversions of a type\<close>

text \<open>An array of pointers, \<open>None\<close> for NULL. Accesses are at indices below \<open>MAX_CONVERSIONS\<close>, its length.\<close>

function init_loop :: "nat \<Rightarrow> CONVERSION option list \<Rightarrow> CONVERSION option list" where
  "init_loop i arr = (if i < MAX_CONVERSIONS then init_loop (i + 1) (arr[i := None]) else arr)"
  by pat_completeness auto
termination by (relation "measure (\<lambda>(i, _). MAX_CONVERSIONS - i)") auto

definition initConversions :: "CONVERSION option list \<Rightarrow> CONVERSION option list" where
  "initConversions arr = init_loop 0 arr"

function arrlen_loop :: "nat \<Rightarrow> CONVERSION option list \<Rightarrow> nat \<Rightarrow> nat" where
  "arrlen_loop i array most = (if i < most then if array ! i = None then i else arrlen_loop (i + 1) array most else i)"
  by pat_completeness auto
termination by (relation "measure (\<lambda>(i, _, most). most - i)") auto

definition arrlen :: "CONVERSION option list \<Rightarrow> nat \<Rightarrow> nat" where
  "arrlen array most = arrlen_loop 0 array most"

definition addConversion_array :: "CONVERSION \<Rightarrow> CONVERSION option list \<Rightarrow> string list \<times> CONVERSION option list" where
  "addConversion_array c arr =
     (let size = arrlen arr MAX_CONVERSIONS
      in if MAX_CONVERSIONS \<le> size then ([''Max conversions reached. Unable to add conversion.''], arr)
         else ([], arr[size := Some c]))"

function getConversion_array_loop :: "nat \<Rightarrow> string \<Rightarrow> CONVERSION option list \<Rightarrow> CONVERSION option" where
  "getConversion_array_loop i type2 arr =
     (if i < MAX_CONVERSIONS then
        (case arr ! i of None \<Rightarrow> None
         | Some c \<Rightarrow> if type2 = c_type c then Some c else getConversion_array_loop (i + 1) type2 arr)
      else None)"
  by pat_completeness auto
termination by (relation "measure (\<lambda>(i, _, _). MAX_CONVERSIONS - i)") auto

declare init_loop.simps [simp del] arrlen_loop.simps [simp del] getConversion_array_loop.simps [simp del]

text \<open>The array that holds a list of conversions: the rest is NULL.\<close>

definition slots :: "CONVERSION list \<Rightarrow> CONVERSION option list" where
  "slots cs = map Some cs @ replicate (MAX_CONVERSIONS - length cs) None"

lemma slots_nth:
  "i < length cs \<Longrightarrow> slots cs ! i = Some (cs ! i)"
  "length cs \<le> i \<Longrightarrow> i < MAX_CONVERSIONS \<Longrightarrow> slots cs ! i = None"
  by (simp_all add: slots_def nth_append)

lemma init_loop_slots:
  "length arr = MAX_CONVERSIONS \<Longrightarrow> i \<le> MAX_CONVERSIONS \<Longrightarrow> init_loop i arr = take i arr @ replicate (MAX_CONVERSIONS - i) None"
proof (induction i arr rule: init_loop.induct)
  case (1 i arr)
  show ?case
  proof (cases "i < MAX_CONVERSIONS")
    case True
    then have "init_loop i arr = take (i + 1) (arr[i := None]) @ replicate (MAX_CONVERSIONS - (i + 1)) None"
      using 1 by (simp add: init_loop.simps [of i])
    moreover have "take (i + 1) (arr[i := None]) = take i arr @ [None]" using True 1(2) by (simp add: take_Suc_conv_app_nth)
    moreover have "MAX_CONVERSIONS - i = Suc (MAX_CONVERSIONS - (i + 1))" using True by simp
    ultimately show ?thesis by (simp del: take_update_swap)
  qed (use 1(2,3) in \<open>simp add: init_loop.simps [of MAX_CONVERSIONS]\<close>)
qed

lemma arrlen_slots: "length cs \<le> MAX_CONVERSIONS \<Longrightarrow> arrlen (slots cs) MAX_CONVERSIONS = length cs"
proof -
  assume l: "length cs \<le> MAX_CONVERSIONS"
  have "arrlen_loop i (slots cs) MAX_CONVERSIONS = length cs" if "i \<le> length cs" for i
    using that
  proof (induction "length cs - i" arbitrary: i)
    case 0
    then show ?case using l slots_nth(2) [of cs i] by (simp add: arrlen_loop.simps [of i])
  next
    case (Suc n)
    then show ?case using l slots_nth(1) [of i cs] by (simp add: arrlen_loop.simps [of i])
  qed
  then show ?thesis by (simp add: arrlen_def)
qed

lemma getConversion_slots:
  assumes "length cs \<le> MAX_CONVERSIONS"
  shows "i \<le> length cs \<Longrightarrow> getConversion_array_loop i n (slots cs) = getConversion_loop n (drop i cs)"
proof (induction "length cs - i" arbitrary: i)
  case 0
  then show ?case using assms slots_nth(2) [of cs i] by (simp add: getConversion_array_loop.simps [of i])
next
  case (Suc k)
  then have "drop i cs = cs ! i # drop (i + 1) cs" by (simp add: Cons_nth_drop_Suc)
  moreover have "i < length cs" "i < MAX_CONVERSIONS" using Suc.hyps(2) assms by simp_all
  ultimately show ?case using Suc slots_nth(1) [of i cs] by (simp add: getConversion_array_loop.simps [of i])
qed

text \<open>The arrays of pointers implement the lists of conversions: an initialised array is the empty list, the search
  for the end finds the length, and adding and looking up a conversion do on the array what they do on the list, up
  to the message when it is full.\<close>

theorem conversion_arrays_refine:
  assumes "length (conversions t) \<le> MAX_CONVERSIONS"
  shows "length arr = MAX_CONVERSIONS \<Longrightarrow> initConversions arr = slots []"
    and "arrlen (slots (conversions t)) MAX_CONVERSIONS = length (conversions t)"
    and "addConversion (t_type t) c [t] = (m, [t']) \<Longrightarrow>
      addConversion_array c (slots (conversions t)) = (m, slots (conversions t'))"
    and "getConversion_array_loop 0 n (slots (conversions t)) = getConversion_loop n (conversions t)"
proof -
  show "initConversions arr = slots []" if "length arr = MAX_CONVERSIONS"
    using init_loop_slots [OF that, of 0] by (simp add: initConversions_def slots_def)
  show a: "arrlen (slots (conversions t)) MAX_CONVERSIONS = length (conversions t)" by (rule arrlen_slots [OF assms])
  show "getConversion_array_loop 0 n (slots (conversions t)) = getConversion_loop n (conversions t)"
    using getConversion_slots [OF assms, of 0] by simp
  assume x: "addConversion (t_type t) c [t] = (m, [t'])"
  show "addConversion_array c (slots (conversions t)) = (m, slots (conversions t'))"
  proof (cases "length (conversions t) < MAX_CONVERSIONS")
    case True
    then obtain k where "MAX_CONVERSIONS - length (conversions t) = Suc k" by (metis Suc_diff_Suc)
    moreover have "addConversion_array c (slots (conversions t)) = ([], (slots (conversions t))[length (conversions t) := Some c])"
      using True by (simp add: addConversion_array_def a)
    ultimately show ?thesis using x True by (auto simp: slots_def list_update_append diff_Suc split: nat.splits)
  next
    case False
    then have "addConversion_array c (slots (conversions t)) =
        ([''Max conversions reached. Unable to add conversion.''], slots (conversions t))"
      by (simp add: addConversion_array_def a)
    then show ?thesis using x False by (auto split: if_splits)
  qed
qed

theorem conversion_arrays_refine_witness:
  "addConversion_array \<lparr>c_type = ''pdf'', program = ''p'', args = None\<rparr> (initConversions (replicate MAX_CONVERSIONS None)) =
     ([], slots [\<lparr>c_type = ''pdf'', program = ''p'', args = None\<rparr>])"
proof -
  let ?c = "\<lparr>c_type = ''pdf'', program = ''p'', args = None\<rparr>" and ?t = "\<lparr>t_type = ''txt'', conversions = []\<rparr>"
  have i: "initConversions (replicate MAX_CONVERSIONS None) = slots []" by (rule conversion_arrays_refine(1) [of ?t]) simp_all
  have "addConversion_array ?c (slots (conversions ?t)) = ([], slots (conversions \<lparr>t_type = ''txt'', conversions = [?c]\<rparr>))"
    by (rule conversion_arrays_refine(3)) simp_all
  then show ?thesis by (simp add: i)
qed


subsection \<open>The vector of arguments\<close>

text \<open>
  \<open>getConversionArgs\<close> allocates a vector, the name of the program and a copy of the arguments, in which \<open>strtok\<close> ends
  the words: blocks 0, 1 and 2. A pointer is a block and an offset. \<open>free\<close> of anything but the start of a live block is
  undefined: \<open>None\<close>.
\<close>

fun word_starts :: "nat \<Rightarrow> bool \<Rightarrow> string \<Rightarrow> nat list" where
  "word_starts i inside [] = []"
| "word_starts i inside (c # cs) =
     (if c = CHR '' '' then word_starts (i + 1) False cs
      else if inside then word_starts (i + 1) True cs
      else i # word_starts (i + 1) True cs)"

definition args_pointers :: "CONVERSION \<Rightarrow> (nat \<times> nat) list" where
  "args_pointers c = (1, 0) # (case args c of None \<Rightarrow> [] | Some a \<Rightarrow> map (\<lambda>i. (2, i)) (word_starts 0 False a))"

definition free_block_at :: "nat \<times> nat \<Rightarrow> nat set \<Rightarrow> nat set option" where
  "free_block_at p live = (if snd p = 0 \<and> fst p \<in> live then Some (live - {fst p}) else None)"

fun freeConversion_loop :: "(nat \<times> nat) list \<Rightarrow> nat set \<Rightarrow> nat set option" where
  "freeConversion_loop [] live = Some live"
| "freeConversion_loop (string # argv) live =
     (case free_block_at string live of None \<Rightarrow> None | Some live \<Rightarrow> freeConversion_loop argv live)"

definition freeConversion :: "nat \<times> nat \<Rightarrow> (nat \<times> nat) list \<Rightarrow> nat set \<Rightarrow> nat set option" where
  "freeConversion argv elems live =
     (case freeConversion_loop elems live of None \<Rightarrow> None | Some live \<Rightarrow> free_block_at argv live)"

text \<open>The words that start in the string are those that \<open>strtok\<close> returns.\<close>

lemma word_starts_inside: "word_starts i True s = word_starts (i + length (takeWhile (\<lambda>c. c \<noteq> CHR '' '') s)) False (dropWhile (\<lambda>c. c \<noteq> CHR '' '') s)"
  by (induction s arbitrary: i) auto

lemma word_starts_spaces:
  "word_starts i False s = word_starts (i + length (takeWhile (\<lambda>c. c = CHR '' '') s)) False (dropWhile (\<lambda>c. c = CHR '' '') s)"
  by (induction s arbitrary: i) auto

lemma word_starts_length: "length (word_starts i False s) = length (strtok_all '' '' s)"
proof (induction s arbitrary: i rule: length_induct)
  case (1 s)
  let ?r = "dropWhile (\<lambda>c. c = CHR '' '') s"
  show ?case
  proof (cases ?r)
    case Nil
    then have "strtok_all '' '' s = []" by (simp add: strtok_all.simps [of _ s] strtok_def Let_def)
    then show ?thesis unfolding word_starts_spaces [of i s] Nil by simp
  next
    case (Cons c cs)
    let ?t = "dropWhile (\<lambda>c. c \<noteq> CHR '' '') cs"
    have c: "c \<noteq> CHR '' ''" using hd_dropWhile [of "\<lambda>c. c = CHR '' ''" s] Cons by simp
    have l: "length (drop 1 ?t) < length s"
      using length_dropWhile_le [of "\<lambda>c. c = CHR '' ''" s] length_dropWhile_le [of "\<lambda>c. c \<noteq> CHR '' ''" cs] Cons by simp
    have d: "word_starts k False ?t = word_starts (k + (if ?t = [] then 0 else 1)) False (drop 1 ?t)" for k
    proof (cases ?t)
      case (Cons b bs)
      then have "b = CHR '' ''" using hd_dropWhile [of "\<lambda>c. c \<noteq> CHR '' ''" cs] by simp
      then show ?thesis using Cons by simp
    next
      case Nil
      show ?thesis unfolding Nil by simp
    qed
    have h: "length (word_starts k False (drop 1 ?t)) = length (strtok_all '' '' (drop 1 ?t))" for k
      using 1 l by blast
    have "length (word_starts i False s) = Suc (length (strtok_all '' '' (drop 1 ?t)))"
      unfolding word_starts_spaces [of i s] Cons using c h by (simp add: word_starts_inside d)
    moreover have "strtok_all '' '' s = (c # takeWhile (\<lambda>c. c \<noteq> CHR '' '') cs) # strtok_all '' '' (drop 1 ?t)"
      using Cons c by (simp add: strtok_all.simps [of _ s] strtok_def Let_def)
    ultimately show ?thesis by simp
  qed
qed

lemma word_starts_ge: "k \<in> set (word_starts i b s) \<Longrightarrow> i \<le> k"
  by (induction i b s rule: word_starts.induct) (auto split: if_splits)

lemma freeConversion_words:
  "freeConversion (0, 0) ((1, 0) # map (\<lambda>i. (2, i)) ws) {0, 1, 2} \<noteq> None \<longleftrightarrow> ws = [] \<or> ws = [0]"
proof (cases ws)
  case (Cons w vs)
  show ?thesis
  proof (cases "w = 0")
    case True
    have d: "{0, 1, 2} - {1, 2} = {0 :: nat}" "{0, 1, 2} - {1} - {2} = {0 :: nat}" by auto
    show ?thesis unfolding Cons True by (cases vs) (simp_all add: freeConversion_def free_block_at_def d)
  qed (simp add: Cons freeConversion_def free_block_at_def)
qed (simp add: freeConversion_def free_block_at_def)

text \<open>\<open>freeConversion\<close> releases what \<open>getConversionArgs\<close> has allocated only when the conversion has no argument, or a
  single one with no space before it; otherwise it passes pointers into the copy of the arguments to \<open>free\<close>.
  No code calls it.\<close>

theorem freeConversion_defined:
  assumes "args c = Some a"
  shows "freeConversion (0, 0) (args_pointers c) {0, 1, 2} \<noteq> None \<longleftrightarrow>
    length (getConversionArgs c) = 1 \<or> length (getConversionArgs c) = 2 \<and> hd a \<noteq> CHR '' ''"
proof -
  let ?ws = "word_starts 0 False a"
  have l: "length (getConversionArgs c) = Suc (length ?ws)"
    using assms by (simp add: getConversionArgs_def word_starts_length)
  have "?ws = [0] \<longleftrightarrow> length ?ws = 1 \<and> hd a \<noteq> CHR '' ''"
  proof (cases a)
    case (Cons b bs)
    have "0 \<notin> set (word_starts (Suc 0) False bs)" using word_starts_ge [of 0 "Suc 0" False bs] by auto
    then show ?thesis using Cons by (auto simp: length_Suc_conv)
  qed simp
  then show ?thesis
    using assms freeConversion_words [of ?ws] l by (auto simp: args_pointers_def)
qed

theorem freeConversion_defined_witness:
  "freeConversion (0, 0) (args_pointers \<lparr>c_type = ''pdf'', program = ''p'', args = Some ''-a -b''\<rparr>) {0, 1, 2} = None"
  using freeConversion_defined [of "\<lparr>c_type = ''pdf'', program = ''p'', args = Some ''-a -b''\<rparr>" "''-a -b''"]
  by (simp add: getConversionArgs_def strtok_all.simps strtok_def Let_def)

end
