(* ===== verification/Printer_Nodes.thy ===== *)
theory Printer_Nodes
  imports Printer_Spool
begin

section \<open>Printer spooler: the linked list of jobs\<close>

text \<open>
  The functions of \<open>jobs.c\<close> that walk the list of jobs, on its nodes: node 0 is \<open>job_head\<close>, which holds no job, and
  the \<open>next\<close> of a node is \<open>None\<close> for NULL. A walk over a list that has no end does not return: its value is \<open>None\<close>.
  \<open>Printer_Spool\<close> has a list of jobs instead; the functions here are shown to implement those there.
\<close>

record nodes =
  job_of :: "nat \<Rightarrow> JOB"
  next_of :: "nat \<Rightarrow> nat option"

abbreviation job_head :: nat where "job_head \<equiv> 0"

partial_function (option) last_node :: "(nat \<Rightarrow> nat option) \<Rightarrow> nat \<Rightarrow> nat option" where
  "last_node nx current = (case nx current of None \<Rightarrow> Some current | Some n \<Rightarrow> last_node nx n)"

text \<open>\<open>malloc\<close> returns a node or NULL; after its message \<open>newJobNode\<close> goes on and writes through NULL.\<close>

definition newJobNode :: "nat option \<Rightarrow> JOB \<Rightarrow> nodes \<Rightarrow> (nat \<times> nodes) ptr_res" where
  "newJobNode malloc j s =
     (case malloc of None \<Rightarrow> Crash | Some p \<Rightarrow> Val (p, s\<lparr>job_of := (job_of s)(p := j), next_of := (next_of s)(p := None)\<rparr>))"

definition addJob_nodes :: "nat option \<Rightarrow> JOB \<Rightarrow> nodes \<Rightarrow> (nat \<times> nodes) ptr_res option" where
  "addJob_nodes malloc j s =
     (case last_node (next_of s) job_head of None \<Rightarrow> None
      | Some current \<Rightarrow>
          (case newJobNode malloc j s of Crash \<Rightarrow> Some Crash
           | Val (p, s) \<Rightarrow> Some (Val (p, s\<lparr>next_of := (next_of s)(current := Some p)\<rparr>))))"

partial_function (option) removeJob_walk :: "int \<Rightarrow> nat \<Rightarrow> nodes \<Rightarrow> (nat option \<times> nodes) option" where
  "removeJob_walk i current s =
     (case next_of s current of
        None \<Rightarrow> Some (None, s)
      | Some n \<Rightarrow>
          if jobid (job_of s n) = i then Some (Some n, s\<lparr>next_of := (next_of s)(current := next_of s n)\<rparr>)
          else removeJob_walk i n s)"

definition removeJob_nodes :: "int \<Rightarrow> nodes \<Rightarrow> (nat option \<times> nodes) option" where
  "removeJob_nodes i s = removeJob_walk i job_head s"

partial_function (option) removeJobs_walk :: "int \<Rightarrow> nat option \<Rightarrow> nodes \<Rightarrow> nodes option" where
  "removeJobs_walk now current s =
     (case current of
        None \<Rightarrow> Some s
      | Some n \<Rightarrow>
          if (status (job_of s n) = COMPLETED \<or> status (job_of s n) = ABORTED) \<and> now - change_time (job_of s n) \<ge> 60
          then Option.bind (removeJob_nodes (jobid (job_of s n)) s) (\<lambda>r. removeJobs_walk now (next_of (snd r) n) (snd r))
          else removeJobs_walk now (next_of s n) s)"

definition removeJobs_nodes :: "int \<Rightarrow> nodes \<Rightarrow> nodes option" where
  "removeJobs_nodes now s = removeJobs_walk now (next_of s job_head) s"

partial_function (option) getJob_walk :: "(JOB \<Rightarrow> bool) \<Rightarrow> nat option \<Rightarrow> nodes \<Rightarrow> nat option option" where
  "getJob_walk found current s =
     (case current of
        None \<Rightarrow> Some None
      | Some n \<Rightarrow> if found (job_of s n) then Some (Some n) else getJob_walk found (next_of s n) s)"

definition getJobByPID_nodes :: "int \<Rightarrow> nodes \<Rightarrow> nat option option" where
  "getJobByPID_nodes pid s = getJob_walk (\<lambda>j. pgid j = pid) (next_of s job_head) s"

definition getJobByID_nodes :: "int \<Rightarrow> nodes \<Rightarrow> nat option option" where
  "getJobByID_nodes i s = getJob_walk (\<lambda>j. jobid j = i) (next_of s job_head) s"

subsection \<open>The list that the nodes form\<close>

fun path :: "(nat \<Rightarrow> nat option) \<Rightarrow> nat \<Rightarrow> nat list \<Rightarrow> bool" where
  "path nx c [] \<longleftrightarrow> nx c = None"
| "path nx c (p # ps) \<longleftrightarrow> nx c = Some p \<and> path nx p ps"

definition job_nodes :: "nodes \<Rightarrow> nat list \<Rightarrow> JOB list \<Rightarrow> bool" where
  "job_nodes s ps js \<longleftrightarrow> path (next_of s) job_head ps \<and> distinct (job_head # ps) \<and> js = map (job_of s) ps"

lemma path_other: "c \<notin> set (p # ps) \<Longrightarrow> path (nx(c := x)) p ps \<longleftrightarrow> path nx p ps"
  by (induction ps arbitrary: p) auto

lemma last_node_path: "path nx c ps \<Longrightarrow> last_node nx c = Some (last (c # ps))"
  by (induction ps arbitrary: c) (simp_all add: last_node.simps)

lemma path_end: "path nx c ps \<Longrightarrow> distinct (c # ps) \<Longrightarrow> p \<notin> set (c # ps) \<Longrightarrow> path (nx(p := None, last (c # ps) := Some p)) c (ps @ [p])"
proof (induction ps arbitrary: c)
  case (Cons q ps)
  have "c \<noteq> last (q # ps)" using Cons.prems(2) last_in_set [of "q # ps"] by (metis distinct.simps(2) list.discI)
  then show ?case using Cons by auto
qed simp

text \<open>Unlinking the node after \<open>us\<close>; the node keeps its own link.\<close>

lemma path_unlink:
  "path nx c (us @ n # vs) \<Longrightarrow> distinct (c # us @ n # vs) \<Longrightarrow> path (nx(last (c # us) := nx n)) c (us @ vs)"
proof (induction us arbitrary: c)
  case Nil
  show ?case
  proof (cases vs)
    case (Cons v vs')
    then show ?thesis using Nil path_other [of c v vs' nx "nx n"] by (simp add: fun_upd_def)
  qed (use Nil in simp)
next
  case (Cons q us)
  have "c \<noteq> last (q # us)" using Cons.prems(2) last_in_set [of "q # us"] by (metis Un_iff distinct.simps(2) list.discI set_append append_Cons)
  then show ?case using Cons by auto
qed

lemma removeJob_walk_path:
  "path (next_of s) c ps \<Longrightarrow>
   removeJob_walk i c s =
     (case List.extract (\<lambda>n. jobid (job_of s n) = i) ps of
        None \<Rightarrow> Some (None, s)
      | Some (us, n, vs) \<Rightarrow> Some (Some n, s\<lparr>next_of := (next_of s)(last (c # us) := next_of s n)\<rparr>))"
  by (induction ps arbitrary: c) (auto simp: removeJob_walk.simps extract_Nil_code extract_Cons_code split: option.splits)

lemma removeJob_extract:
  "removeJob i (map f ps) =
     (case List.extract (\<lambda>n. jobid (f n) = i) ps of None \<Rightarrow> map f ps | Some (us, n, vs) \<Rightarrow> map f (us @ vs))"
  by (induction ps) (auto simp: extract_Nil_code extract_Cons_code split: option.splits)

lemma getJob_walk_path:
  "path (next_of s) c ps \<Longrightarrow> getJob_walk found (next_of s c) s = Some (List.find (\<lambda>n. found (job_of s n)) ps)"
  by (induction ps arbitrary: c) (auto simp: getJob_walk.simps)

text \<open>The node that a list begins with.\<close>

definition first :: "nat list \<Rightarrow> nat option" where
  "first ps = (case ps of [] \<Rightarrow> None | p # _ \<Rightarrow> Some p)"

lemma path_next: "path nx c (us @ y # zs) \<Longrightarrow> nx y = first zs"
  by (induction us arbitrary: c) (auto simp: first_def split: list.splits)

lemma path_first: "path nx c ps \<Longrightarrow> nx c = first ps"
  by (cases ps) (simp_all add: first_def)

lemma unlink_ok:
  assumes "job_nodes s (us @ n # vs) js"
  shows "job_nodes (s\<lparr>next_of := (next_of s)(last (job_head # us) := next_of s n)\<rparr>) (us @ vs) (map (job_of s) (us @ vs))"
  using assms path_unlink [of "next_of s" job_head us n vs] by (simp add: job_nodes_def)

lemma removeJob_nodes_ok:
  assumes "job_nodes s ps js"
  shows "\<exists>r s' ps'. removeJob_nodes i s = Some (r, s') \<and> job_nodes s' ps' (removeJob i js) \<and> job_of s' = job_of s"
proof (cases "List.extract (\<lambda>n. jobid (job_of s n) = i) ps")
  case None
  then show ?thesis
    using assms removeJob_walk_path [of s job_head ps i] removeJob_extract [of i "job_of s" ps]
    by (auto simp: removeJob_nodes_def job_nodes_def)
next
  case (Some x)
  then obtain us n vs where x: "List.extract (\<lambda>n. jobid (job_of s n) = i) ps = Some (us, n, vs)" by (cases x) auto
  have ps: "ps = us @ n # vs" using extract_SomeE [OF x] by blast
  have j: "removeJob i js = map (job_of s) (us @ vs)"
    using assms removeJob_extract [of i "job_of s" ps] x by (simp add: job_nodes_def)
  have "removeJob_nodes i s = Some (Some n, s\<lparr>next_of := (next_of s)(last (job_head # us) := next_of s n)\<rparr>)"
    using assms removeJob_walk_path [of s job_head ps i] x by (simp add: removeJob_nodes_def job_nodes_def)
  moreover have "job_nodes (s\<lparr>next_of := (next_of s)(last (job_head # us) := next_of s n)\<rparr>) (us @ vs) (removeJob i js)"
    using unlink_ok [of s us n vs js] assms j unfolding ps by simp
  moreover have "job_of (s\<lparr>next_of := (next_of s)(last (job_head # us) := next_of s n)\<rparr>) = job_of s" by simp
  ultimately show ?thesis by metis
qed

text \<open>While \<open>removeJobs\<close> is at node \<open>y\<close>, unlinking a node with the number of its job keeps the nodes after \<open>y\<close> and the way to them.\<close>

lemma removeJob_at:
  assumes "job_nodes s (xs @ y # zs) js" "i = jobid (job_of s y)"
  shows "\<exists>r s' ws. removeJob_nodes i s = Some (r, s') \<and> job_nodes s' (ws @ zs) (removeJob i js) \<and> job_of s' = job_of s \<and>
    next_of s' y = first zs"
proof -
  let ?P = "\<lambda>n. jobid (job_of s n) = i" and ?ps = "xs @ y # zs"
  obtain us n vs where x: "List.extract ?P ?ps = Some (us, n, vs)"
    using assms(2) extract_None_iff [of ?P ?ps] by (cases "List.extract ?P ?ps") auto
  have ps: "?ps = us @ n # vs" "\<forall>u\<in>set us. \<not> ?P u" using extract_SomeE [OF x] by blast+
  have p: "path (next_of s) job_head ?ps" "distinct (job_head # ?ps)" "js = map (job_of s) ?ps" using assms(1) by (simp_all add: job_nodes_def)
  let ?s = "s\<lparr>next_of := (next_of s)(last (job_head # us) := next_of s n)\<rparr>"
  have r: "removeJob_nodes i s = Some (Some n, ?s)" using removeJob_walk_path [OF p(1), of i] x by (simp add: removeJob_nodes_def)
  have j: "removeJob i js = map (job_of s) (us @ vs)" using removeJob_extract [of i "job_of s" ?ps] x p(3) by simp
  have o: "job_nodes ?s (us @ vs) (removeJob i js)" using unlink_ok [of s us n vs js] assms(1) ps(1) j by simp
  have "y \<notin> set us" using ps(2) assms(2) by auto
  then have y: "y \<noteq> last (job_head # us)" using p(2) last_in_set [of "job_head # us"] by auto
  have "next_of ?s y = first zs" using path_next [OF p(1)] y by simp
  moreover have "\<exists>ws. us @ vs = ws @ zs"
  proof -
    have "y \<in> set (n # vs)" using ps(1) \<open>y \<notin> set us\<close> by (metis Un_iff in_set_conv_decomp set_append)
    obtain ts where "xs = us @ ts \<and> ts @ y # zs = n # vs"
      using ps(1) \<open>y \<notin> set us\<close> by (auto simp: append_eq_append_conv2 append_eq_Cons_conv Cons_eq_append_conv)
    then show ?thesis by (cases ts) auto
  qed
  ultimately show ?thesis using r o by auto
qed

lemma removeJobs_walk_ok:
  "job_nodes s (xs @ zs) js \<Longrightarrow>
   \<exists>s' ps'. removeJobs_walk now (first zs) s = Some s' \<and> job_nodes s' ps' (removeJobs_loop (map (job_of s) zs) now js) \<and> job_of s' = job_of s"
proof (induction zs arbitrary: s xs js)
  case Nil
  then show ?case by (auto simp: removeJobs_walk.simps first_def)
next
  case (Cons y zs)
  let ?e = "(status (job_of s y) = COMPLETED \<or> status (job_of s y) = ABORTED) \<and> now - change_time (job_of s y) \<ge> 60"
  have n: "next_of s y = first zs" using Cons.prems path_next [of "next_of s" job_head xs y zs] by (simp add: job_nodes_def)
  have f: "first (y # zs) = Some y" by (simp add: first_def)
  show ?case
  proof (cases ?e)
    case True
    obtain r t ws where t: "removeJob_nodes (jobid (job_of s y)) s = Some (r, t)"
        "job_nodes t (ws @ zs) (removeJob (jobid (job_of s y)) js)" "job_of t = job_of s" "next_of t y = first zs"
      using removeJob_at [OF Cons.prems refl] by blast
    have "removeJobs_walk now (first (y # zs)) s = removeJobs_walk now (first zs) t"
      unfolding f using True t by (simp add: removeJobs_walk.simps [of now "Some y"])
    then show ?thesis using Cons.IH [OF t(2)] t(3) True by simp
  next
    case False
    have "removeJobs_walk now (first (y # zs)) s = removeJobs_walk now (first zs) s"
      unfolding f using False n by (auto simp: removeJobs_walk.simps [of now "Some y"])
    then show ?thesis using Cons.IH [of s "xs @ [y]" js] Cons.prems False by auto
  qed
qed

lemma find_pid: "List.find (\<lambda>n. pgid (f n) = pid) ps = map_option ((!) ps) (getJobByPID_loop pid (map f ps))"
  by (induction ps) (auto simp: option.map_comp comp_def)

lemma find_id: "map_option f (List.find (\<lambda>n. jobid (f n) = i) ps) = getJobByID_loop i (map f ps)"
  by (induction ps) auto

text \<open>C10: the linked list of jobs implements the list of jobs: on nodes that form the list \<open>js\<close> every function of \<open>jobs.c\<close> that
  walks them returns, and does what the function on lists does. In particular \<open>removeJobs\<close>, which goes on from the
  \<open>next\<close> of a node it has just unlinked, visits every job.\<close>

theorem job_nodes_refine:
  assumes "job_nodes s ps js"
  shows "(p \<notin> set (job_head # ps) \<longrightarrow> (\<exists>s'. addJob_nodes (Some p) j s = Some (Val (p, s')) \<and> job_nodes s' (ps @ [p]) (js @ [j]))) \<and>
    (\<exists>r s' ps'. removeJob_nodes i s = Some (r, s') \<and> job_nodes s' ps' (removeJob i js)) \<and>
    (\<exists>s' ps'. removeJobs_nodes now s = Some s' \<and> job_nodes s' ps' (removeJobs_loop js now js)) \<and>
    getJobByPID_nodes pid s = Some (map_option ((!) ps) (getJobByPID_loop pid js)) \<and>
    (\<exists>r. getJobByID_nodes i s = Some r \<and> map_option (job_of s) r = getJobByID_loop i js)"
proof (intro conjI impI)
  have p: "path (next_of s) job_head ps" "distinct (job_head # ps)" "js = map (job_of s) ps" using assms by (simp_all add: job_nodes_def)
  show "\<exists>s'. addJob_nodes (Some p) j s = Some (Val (p, s')) \<and> job_nodes s' (ps @ [p]) (js @ [j])" if "p \<notin> set (job_head # ps)"
    using path_end [OF p(1,2) that] last_node_path [OF p(1)] p(2,3) that
    by (auto simp: addJob_nodes_def newJobNode_def job_nodes_def)
  show "\<exists>r s' ps'. removeJob_nodes i s = Some (r, s') \<and> job_nodes s' ps' (removeJob i js)" using removeJob_nodes_ok [OF assms] by blast
  show "\<exists>s' ps'. removeJobs_nodes now s = Some s' \<and> job_nodes s' ps' (removeJobs_loop js now js)"
    using removeJobs_walk_ok [of s "[]" ps js now] assms path_first [OF p(1)] p(3) by (auto simp: removeJobs_nodes_def)
  show "getJobByPID_nodes pid s = Some (map_option ((!) ps) (getJobByPID_loop pid js))"
    using getJob_walk_path [OF p(1)] p(3) by (simp add: getJobByPID_nodes_def find_pid)
  show "\<exists>r. getJobByID_nodes i s = Some r \<and> map_option (job_of s) r = getJobByID_loop i js"
    using getJob_walk_path [OF p(1)] p(3) by (simp add: getJobByID_nodes_def find_id)
qed

text \<open>Without memory for the node \<open>addJob\<close> dereferences NULL.\<close>

theorem addJob_out_of_memory: "job_nodes s ps js \<Longrightarrow> addJob_nodes None j s = Some Crash"
  using last_node_path [of "next_of s" job_head ps] by (simp add: addJob_nodes_def newJobNode_def job_nodes_def)

text \<open>Two jobs that have completed more than a minute ago, one after the other.\<close>

definition demo_job :: "int \<Rightarrow> JOB" where
  "demo_job i = \<lparr>jobid = i, status = COMPLETED, pgid = 5 + i, file_name = ''a'', file_type = ''txt'', eligible_printers = 1,
     chosen_printer = None, creation_time = 0, change_time = 0\<rparr>"

definition demo_nodes :: nodes where
  "demo_nodes = \<lparr>job_of = \<lambda>n. demo_job (int n), next_of = (\<lambda>_. None)(0 := Some 4, 4 := Some 2)\<rparr>"

theorem job_nodes_refine_witness:
  "\<exists>s ps. removeJobs_nodes 100 demo_nodes = Some s \<and> job_nodes s ps [] \<and> getJobByPID_nodes 7 demo_nodes = Some (Some 2)"
proof -
  have d: "job_nodes demo_nodes [4, 2] [demo_job 4, demo_job 2]" by (simp add: job_nodes_def demo_nodes_def)
  have r: "removeJobs_loop [demo_job 4, demo_job 2] 100 [demo_job 4, demo_job 2] = []" by (simp add: demo_job_def)
  have g: "map_option ((!) [4, 2]) (getJobByPID_loop 7 [demo_job 4, demo_job 2]) = Some (2::nat)" by (simp add: demo_job_def)
  show ?thesis using job_nodes_refine [OF d, of _ _ _ 100 7] unfolding r g by blast
qed

end
