(* ===== verification/Spec2Isabelle.thy ===== *)
theory Spec2Isabelle
  imports Audio_Recode Server_Threads Server_Abort Server_Wrappers Server_Listings Heap_Theorems Printer_Typing Printer_Rounds Printer_Arrays Printer_Nodes
begin

text \<open>
  \<^bold>\<open>Verification of the four C programs of the repository.\<close>

  The repository holds four independent programs: \<open>Audible\<close>, which recodes audio files; \<open>Server Store\<close>, a
  server for transactions on a key-value store; \<open>Memory Manager\<close>, a malloc package with segregated free
  lists; and \<open>Printer\<close>, a print spooler. The development models every function of them that acts on their
  state, in the order the sources have them, and proves what the functions are for. Where the code does
  not do that, a theorem states what it does instead.

  \<^bold>\<open>Shared theories.\<close> \<open>Prelude\<close>: the C integer types as words and the reading of terminated strings. \<open>Ring\<close>: doubly
  linked rings with a sentinel, as the list of transactions and the free lists are; the locale \<open>linked\<close> is the
  interface of their link fields, interpreted in \<open>Server_Trans\<close> and \<open>Heap_Model\<close>.

  \<^bold>\<open>Audible\<close> (\<open>Audible/src\<close>). \<open>Audio_Args\<close>: \<open>argValidation.c\<close>, \<open>validargs\<close> and the readers of the global option word; what
  command lines are accepted and what the word then holds. \<open>Audio_IO\<close>: \<open>audio.c\<close> and \<open>audioHelper.c\<close> on a byte
  stream whose \<open>putchar\<close> can fail; the locales \<open>byte_codec\<close> and \<open>seq_codec\<close> carry the round trips from a sample to a
  frame and a file. \<open>Audio_Recode\<close>: \<open>transformations.c\<close>, \<open>myrand.c\<close>, \<open>recode\<close> and \<open>main\<close>; each transformation as a function
  from the input file to the output file.

  \<^bold>\<open>Server Store\<close> (\<open>Server Store/src\<close>). \<open>Server_Registry\<close>: \<open>client_registry.c\<close>, with the threads inside its
  operations as a step relation, shown to refine atomic calls. \<open>Server_Trans\<close>: \<open>transaction.c\<close> on a heap of
  transactions; there \<open>trans_abort\<close> runs as a whole. It recurses with the number of transactions plus one as bound, which is enough as
  each level marks one more transaction; the waiting of \<open>trans_commit\<close> is a step relation over the threads of the
  clients. \<open>Server_Data\<close>: \<open>data.c\<close>, reference counts with freed memory; the locale \<open>refcounted\<close>. \<open>Server_Proto\<close>:
  \<open>protocol.c\<close> and the robust reads and writes of \<open>csapp.c\<close> over a connection that splits the bytes and interrupts.
  \<open>Server_Service\<close>: \<open>server.c\<close>, the thread of a client, for any store; one round per 16 bytes of input is enough.
  \<open>Server_Main\<close>: \<open>main.c\<close>, where registry, transactions and service meet at shutdown. \<open>Server_Threads\<close>: the threads of all
  clients, their rounds in any order, as steps of one state; a simulation into the steps of \<open>Server_Trans\<close>, which carries
  over what holds there, and what the registry and the transactions are in every state the server reaches.
  \<open>Server_Abort\<close>: \<open>trans_abort\<close> taken apart into the steps between its semaphores, as a machine with the stack of the
  calls, equal to the function when it runs alone; several of them interleaved, and what then holds and what does not.
  \<open>Server_Listings\<close>: what \<open>trans_show\<close> and \<open>version_show\<close> list. \<open>Server_Csapp\<close>: the buffered reads, the printing of numbers and
  the opening of sockets of \<open>csapp.c\<close>. \<open>Server_Wrappers\<close>: its wrappers of system calls over a process whose calls can fail,
  and \<open>main\<close> on top of them: with which status the server exits when one fails.

  \<^bold>\<open>Memory Manager\<close> (\<open>Memory Manager/src/sfmm.c\<close>). \<open>Heap_Model\<close>: the functions on headers, footers and links. The search of
  \<open>sf_malloc\<close> has as many rounds as there are free lists, and one more; the growing loop has a bound beyond the
  largest block an \<open>int\<close> can hold. \<open>Heap_Layout\<close>: a heap as a sequence of blocks and its free lists. \<open>Heap_Proofs\<close>:
  every operation as a change of that sequence, which is the abstract specification of the allocator (\<open>alloc_block\<close>,
  \<open>free_block\<close>, \<open>shrink_block\<close>). \<open>Heap_Theorems\<close>: what \<open>sf_malloc\<close>, \<open>sf_free\<close> and \<open>sf_realloc\<close> do, and the \<open>main\<close> that calls them.

  \<^bold>\<open>Printer\<close> (\<open>Printer/src\<close>). \<open>Printer_Types\<close>: \<open>types.c\<close>, \<open>conversions.c\<close>; the locale \<open>first_match\<close> is the contract of the
  four lookups by name or number; paths of conversions and when the bounded search finds them. \<open>Printer_Spool\<close>:
  \<open>printers.c\<close>, \<open>jobs.c\<close>. \<open>Printer_Commands\<close>: \<open>main.c\<close>, \<open>messages.c\<close>, the commands, \<open>SIGCHLD\<close>, batch mode, the main loop.
  \<open>Printer_Invariant\<close>: the invariant that jobs and printers agree on who prints where, kept by each operation.
  \<open>Printer_Theorems\<close>: the spooler as a state machine, and its properties. \<open>Printer_Typing\<close>: what its tables refer to is
  declared. \<open>Printer_Signals\<close>: \<open>runJob\<close> with the handler of \<open>SIGCHLD\<close> between its statements, and what goes wrong then.
  \<open>Printer_Rounds\<close>: \<open>runJobs\<close> with the handler between its rounds. \<open>Printer_Arrays\<close> and \<open>Printer_Nodes\<close>: the arrays of
  conversions and the linked list of jobs in memory, shown to refine the lists that the other theories use; the
  loops over the nodes are \<open>partial_function\<close>s, as a cyclic list would keep them running.

  \<^bold>\<open>Assumptions.\<close> LP64 with signed \<open>char\<close>, as gcc on x86-64 has it; signed overflow wraps. Memory allocation succeeds, except
  for \<open>sf_mem_grow\<close>. In the state machine of the spooler the handler of \<open>SIGCHLD\<close> runs between commands; process ids are
  positive and not reused. The store of the server is a parameter; what is relied on is that it keeps the
  transaction manager well-formed (\<open>store_ok\<close>) and makes no ended transaction pending again
  (\<open>store_settles\<close>), and, with several clients, that it only adds dependencies on earlier transactions, aborts transactions
  and counts references (\<open>store_contract\<close>), as \<open>store.h\<close> says. What a system call of a wrapper
  returns is a parameter of the model of the process. The helper library of the allocator is a parameter: \<open>sf_mem_grow\<close> adds a page at the end
  (\<open>grow_ok\<close>), \<open>sf_add_free_list\<close> inserts an empty list (\<open>add_ok\<close>).

  \<^bold>\<open>Not modelled.\<close> \<open>store.c\<close>, whose whole text is commented out (the store is linked from a library); the text of messages
  that a library formats, and debug output; the payload bytes of the allocator; the descriptors and pipes of the child
  that prints a job, of which the exit code is modelled; the handler of \<open>SIGCHLD\<close> inside the commands of the spooler other
  than the starting of jobs; threads of the server switching inside a round, outside the registry, the waiting of
  \<open>trans_commit\<close> and \<open>trans_abort\<close>; the tests.
\<close>

end
